(* ===== verification/Prelude.thy ===== *)
theory Prelude
  imports Main "HOL-Library.AList" "HOL-Library.Word"
begin

text \<open>
  What every component of the development shares: the lemma collections the component
  proofs add to the simplifier, Go's maps as association lists with distinct keys, and
  generic facts on lists, maps and cardinalities.

  A Go map is an association list: \<open>map_of\<close> reads it, \<open>AList.update\<close> stores and
  \<open>AList.delete\<close> removes a key, \<open>length\<close> is Go's \<open>len\<close> as long as the keys are distinct
  (\<open>gomap\<close>). The position of an entry stands for nothing in Go, whose iteration order is
  random: statements quantify over every list that represents the map.
\<close>

named_theorems edge_defs \<open>definitions of the edge's route operations\<close>
named_theorems slot_defs \<open>definitions of the admission operations\<close>
named_theorems sink_defs \<open>definitions of the request log's operations\<close>
named_theorems conf_defs \<open>definitions of the configuration operations\<close>
named_theorems client_defs \<open>definitions of the client's operations\<close>

section \<open>Go maps\<close>

type_synonym ('k, 'v) gomap = "('k \<times> 'v) list"

abbreviation keys_of :: "('k, 'v) gomap \<Rightarrow> 'k set" where
  "keys_of m \<equiv> fst ` set m"

definition wf_map :: "('k, 'v) gomap \<Rightarrow> bool" where
  "wf_map m \<longleftrightarrow> distinct (map fst m)"

text \<open>Deleting every entry that satisfies a predicate: Go's delete inside a range loop.\<close>

definition del_where :: "('k \<Rightarrow> 'v \<Rightarrow> bool) \<Rightarrow> ('k, 'v) gomap \<Rightarrow> ('k, 'v) gomap" where
  "del_where P m = filter (\<lambda>(k, v). \<not> P k v) m"

text \<open>Go's read of a missing key yields the zero value of the element type.\<close>

definition get_or :: "'v \<Rightarrow> ('k, 'v) gomap \<Rightarrow> 'k \<Rightarrow> 'v" where
  "get_or d m k = (case map_of m k of None \<Rightarrow> d | Some v \<Rightarrow> v)"

lemma wf_map_Nil [simp]: "wf_map []"
  by (simp add: wf_map_def)

lemma wf_map_Cons [simp]: "wf_map ((k, v) # m) \<longleftrightarrow> k \<notin> keys_of m \<and> wf_map m"
  by (auto simp: wf_map_def)

lemma wf_map_update [simp]: "wf_map m \<Longrightarrow> wf_map (AList.update k v m)"
  by (simp add: wf_map_def distinct_update)

lemma wf_map_delete [simp]: "wf_map m \<Longrightarrow> wf_map (AList.delete k m)"
  by (simp add: wf_map_def distinct_delete)

lemma wf_map_filter [simp]: "wf_map m \<Longrightarrow> wf_map (filter P m)"
  by (simp add: wf_map_def distinct_map_filter)

lemma wf_map_del_where [simp]: "wf_map m \<Longrightarrow> wf_map (del_where P m)"
  by (simp add: del_where_def)

lemma map_of_update [simp]: "map_of (AList.update k v m) = (map_of m)(k \<mapsto> v)"
  by (simp add: update_conv')

lemma map_of_delete [simp]: "map_of (AList.delete k m) = (map_of m)(k := None)"
  by (simp add: delete_conv')

lemma map_of_in_set: "wf_map m \<Longrightarrow> map_of m k = Some v \<longleftrightarrow> (k, v) \<in> set m"
  by (simp add: wf_map_def)

lemma set_del_where [simp]: "set (del_where P m) = {(k, v). (k, v) \<in> set m \<and> \<not> P k v}"
  by (auto simp: del_where_def)

lemma map_of_del_where:
  "wf_map m \<Longrightarrow> map_of (del_where P m) k =
     (case map_of m k of None \<Rightarrow> None | Some v \<Rightarrow> if P k v then None else Some v)"
  by (induction m) (auto simp: del_where_def split: option.splits, force dest: map_of_SomeD)

lemma set_update: "wf_map m \<Longrightarrow> set (AList.update k v m) = insert (k, v) (set m - {p. fst p = k})"
  by (induction m) (auto, force)

lemma set_update_subset: "set (AList.update k v m) \<subseteq> insert (k, v) (set m)"
  by (induction m) auto

lemma set_delete: "set (AList.delete k m) = set m - {p. fst p = k}"
  by (auto simp: AList.delete_eq)

lemma keys_of_update [simp]: "keys_of (AList.update k v m) = insert k (keys_of m)"
  by (metis dom_map_of_conv_image_fst dom_fun_upd map_of_update option.discI)

lemma keys_of_delete [simp]: "keys_of (AList.delete k m) = keys_of m - {k}"
  by (auto simp: AList.delete_eq image_iff)

lemma length_update:
  "length (AList.update k v m) = (if k \<in> keys_of m then length m else Suc (length m))"
  by (induction m) auto

lemma length_update_le: "length (AList.update k v m) \<le> Suc (length m)"
  by (simp add: length_update)

lemma length_delete_le: "length (AList.delete k m) \<le> length m"
  by (simp add: AList.delete_eq)

lemma get_or_update [simp]:
  "get_or d (AList.update k v m) k' = (if k' = k then v else get_or d m k')"
  by (simp add: get_or_def)

lemma get_or_delete [simp]:
  "get_or d (AList.delete k m) k' = (if k' = k then d else get_or d m k')"
  by (simp add: get_or_def)

lemmas gomap_simps = map_of_del_where set_update set_delete length_update

section \<open>Cardinalities\<close>

lemma card_insert_new: "finite A \<Longrightarrow> x \<notin> A \<Longrightarrow> int (card (insert x A)) = int (card A) + 1"
  by simp

lemma card_remove_subset:
  "finite A \<Longrightarrow> B \<subseteq> A \<Longrightarrow> int (card (A - B)) = int (card A) - int (card B)"
  by (simp add: card_Diff_subset finite_subset card_mono of_nat_diff)

lemma length_remdups_card: "length (remdups xs) = card (set xs)"
  by (rule length_remdups_card_conv)

section \<open>Counting the entries of a list\<close>

definition cnt :: "('a \<Rightarrow> bool) \<Rightarrow> 'a list \<Rightarrow> nat" where
  "cnt P xs = length (filter P xs)"

lemma cnt_Nil [simp]: "cnt P [] = 0"
  by (simp add: cnt_def)

lemma cnt_Cons: "cnt P (x # xs) = (if P x then 1 else 0) + cnt P xs"
  by (simp add: cnt_def)

lemma cnt_append [simp]: "cnt P (xs @ [x]) = cnt P xs + (if P x then 1 else 0)"
  by (simp add: cnt_def)

lemma cnt_pos: "i < length xs \<Longrightarrow> P (xs ! i) \<Longrightarrow> 0 < cnt P xs"
  by (simp add: cnt_def filter_empty_conv) (use nth_mem in blast)

lemma cnt_update:
  "i < length xs \<Longrightarrow> cnt P (xs[i := y]) = cnt P xs + (if P y then 1 else 0) - (if P (xs ! i) then 1 else 0)"
proof (induction xs arbitrary: i)
  case (Cons x xs)
  show ?case
  proof (cases i)
    case 0
    then show ?thesis by (simp add: cnt_Cons)
  next
    case (Suc j)
    then have j: "j < length xs" using Cons.prems by simp
    show ?thesis using Cons.IH [OF j] cnt_pos [OF j, of P] Suc by (auto simp: cnt_Cons)
  qed
qed simp

lemma cnt_zero: "cnt P xs = 0 \<longleftrightarrow> (\<forall>x \<in> set xs. \<not> P x)"
  by (simp add: cnt_def filter_empty_conv)

end
