(* ===== verification/Go_Lib.thy ===== *)
theory Go_Lib
  imports Prelude
begin

text \<open>
  The parts of Go's standard library the modelled code calls: \<open>strings\<close>, \<open>strconv\<close>,
  \<open>unicode/utf8\<close> and \<open>path/filepath\<close>. A Go string is a byte string, so it is an Isabelle
  \<open>string\<close> whose characters are the bytes; a rune is a code point, a \<open>nat\<close>.
\<close>

section \<open>strings\<close>

definition has_prefix :: "string \<Rightarrow> string \<Rightarrow> bool" where
  "has_prefix p s \<longleftrightarrow> take (length p) s = p"

definition has_suffix :: "string \<Rightarrow> string \<Rightarrow> bool" where
  "has_suffix suf s \<longleftrightarrow> length suf \<le> length s \<and> drop (length s - length suf) s = suf"

definition trim_suffix :: "string \<Rightarrow> string \<Rightarrow> string" where
  "trim_suffix suf s = (if has_suffix suf s then take (length s - length suf) s else s)"

definition trim_prefix :: "string \<Rightarrow> string \<Rightarrow> string" where
  "trim_prefix p s = (if has_prefix p s then drop (length p) s else s)"

definition lower_char :: "char \<Rightarrow> char" where
  "lower_char c = (if 65 \<le> (of_char c :: nat) \<and> (of_char c :: nat) \<le> 90
                   then char_of ((of_char c :: nat) + 32) else c)"

text \<open>\<open>strings.ToLower\<close> and \<open>strings.EqualFold\<close> on ASCII text (host names).\<close>

definition to_lower :: "string \<Rightarrow> string" where
  "to_lower = map lower_char"

definition equal_fold :: "string \<Rightarrow> string \<Rightarrow> bool" where
  "equal_fold s t \<longleftrightarrow> to_lower s = to_lower t"

fun index_byte :: "char \<Rightarrow> string \<Rightarrow> nat option" where
  "index_byte c [] = None"
| "index_byte c (x # xs) = (if x = c then Some 0 else map_option Suc (index_byte c xs))"

definition last_index_byte :: "char \<Rightarrow> string \<Rightarrow> nat option" where
  "last_index_byte c s =
     (case index_byte c (rev s) of None \<Rightarrow> None | Some i \<Rightarrow> Some (length s - 1 - i))"

text \<open>\<open>strings.Split\<close> on a one-byte separator: never an empty list.\<close>

fun split_on :: "char \<Rightarrow> string \<Rightarrow> string list" where
  "split_on c [] = [[]]"
| "split_on c (x # xs) =
     (if x = c then [] # split_on c xs
      else (case split_on c xs of [] \<Rightarrow> [[x]] | y # ys \<Rightarrow> (x # y) # ys))"

fun join_with :: "string \<Rightarrow> string list \<Rightarrow> string" where
  "join_with sep [] = []"
| "join_with sep [x] = x"
| "join_with sep (x # y # xs) = x @ sep @ join_with sep (y # xs)"

definition trim_right_of :: "(char \<Rightarrow> bool) \<Rightarrow> string \<Rightarrow> string" where
  "trim_right_of P s = rev (dropWhile P (rev s))"

definition trim_of :: "(char \<Rightarrow> bool) \<Rightarrow> string \<Rightarrow> string" where
  "trim_of P s = trim_right_of P (dropWhile P s)"

text \<open>The ASCII white space of \<open>strings.TrimSpace\<close>.\<close>

definition is_space :: "char \<Rightarrow> bool" where
  "is_space c \<longleftrightarrow> (of_char c :: nat) \<in> {9, 10, 11, 12, 13, 32}"

lemma has_suffix_iff: "has_suffix suf s \<longleftrightarrow> (\<exists>p. s = p @ suf)"
proof
  assume "has_suffix suf s"
  then show "\<exists>p. s = p @ suf"
    by (metis append_take_drop_id has_suffix_def)
qed (auto simp: has_suffix_def)

lemma has_suffix_append [simp]: "has_suffix suf (p @ suf)"
  by (auto simp: has_suffix_iff)

lemma trim_suffix_append [simp]: "trim_suffix suf (p @ suf) = p"
  by (simp add: trim_suffix_def)

lemma has_prefix_iff: "has_prefix p s \<longleftrightarrow> (\<exists>t. s = p @ t)"
  unfolding has_prefix_def by (metis append_eq_conv_conj append_take_drop_id)

lemma has_prefix_append [simp]: "has_prefix p (p @ s)"
  by (simp add: has_prefix_def)

lemma trim_prefix_append [simp]: "trim_prefix p (p @ s) = s"
  by (simp add: trim_prefix_def)

lemma to_lower_append [simp]: "to_lower (a @ b) = to_lower a @ to_lower b"
  by (simp add: to_lower_def)

lemma length_to_lower [simp]: "length (to_lower s) = length s"
  by (simp add: to_lower_def)

lemma index_byte_None [simp]: "index_byte c s = None \<longleftrightarrow> c \<notin> set s"
  by (induction s) auto

lemma index_byte_split: "c \<notin> set a \<Longrightarrow> index_byte c (a @ c # b) = Some (length a)"
  by (induction a) auto

lemma last_index_byte_None [simp]: "last_index_byte c s = None \<longleftrightarrow> c \<notin> set s"
  using index_byte_None [of c "rev s"]
  by (cases "index_byte c (rev s)") (simp_all add: last_index_byte_def del: index_byte_None)

lemma last_index_byte_split: "c \<notin> set b \<Longrightarrow> last_index_byte c (a @ c # b) = Some (length a)"
  by (simp add: last_index_byte_def index_byte_split)

lemma split_on_not_Nil [simp]: "split_on c s \<noteq> []"
  by (induction s) (auto split: list.splits)

lemma split_on_no_sep [simp]: "c \<notin> set s \<Longrightarrow> split_on c s = [s]"
  by (induction s) auto

lemma split_on_append: "c \<notin> set a \<Longrightarrow> split_on c (a @ c # b) = a # split_on c b"
  by (induction a) (auto split: list.splits)

lemma join_split_on: "join_with [c] (split_on c s) = s"
proof (induction s)
  case (Cons x xs)
  then show ?case by (cases "split_on c xs") (auto, (cases "tl (split_on c xs)", auto)+)
qed simp

lemma split_on_parts: "p \<in> set (split_on c s) \<Longrightarrow> c \<notin> set p"
proof (induction s arbitrary: p)
  case (Cons x xs)
  then show ?case by (cases "split_on c xs") (auto split: if_splits)
qed simp

text \<open>Cutting at the first or the last separator is injective when the other part is free of it.\<close>

lemma first_sep_inj:
  assumes "c \<notin> set a" and "c \<notin> set a'" and "a @ c # b = a' @ c # b'"
  shows "a = a' \<and> b = b'"
proof -
  have "takeWhile (\<lambda>x. x \<noteq> c) (a @ c # b) = takeWhile (\<lambda>x. x \<noteq> c) (a' @ c # b')"
    using assms(3) by simp
  moreover have "takeWhile (\<lambda>x. x \<noteq> c) (a @ c # b) = a"
    using assms(1) by (subst takeWhile_append2) auto
  moreover have "takeWhile (\<lambda>x. x \<noteq> c) (a' @ c # b') = a'"
    using assms(2) by (subst takeWhile_append2) auto
  ultimately show ?thesis using assms(3) by simp
qed

lemma last_sep_inj:
  assumes "c \<notin> set b" and "c \<notin> set b'" and "a @ c # b = a' @ c # b'"
  shows "a = a' \<and> b = b'"
proof -
  have "rev b @ c # rev a = rev b' @ c # rev a'"
    using arg_cong [OF assms(3), of rev] by simp
  with assms(1,2) have "rev b = rev b' \<and> rev a = rev a'"
    by (intro first_sep_inj) auto
  then show ?thesis by simp
qed

section \<open>strconv\<close>

definition digit_char :: "nat \<Rightarrow> char" where
  "digit_char d = char_of (48 + d)"

definition is_digit :: "char \<Rightarrow> bool" where
  "is_digit c \<longleftrightarrow> 48 \<le> (of_char c :: nat) \<and> (of_char c :: nat) \<le> 57"

definition digit_val :: "char \<Rightarrow> nat" where
  "digit_val c = of_char c - 48"

fun nat_str :: "nat \<Rightarrow> string" where
  "nat_str n = (if n < 10 then [digit_char n] else nat_str (n div 10) @ [digit_char (n mod 10)])"

declare nat_str.simps [simp del]

definition itoa :: "int \<Rightarrow> string" where
  "itoa i = (if i < 0 then CHR ''-'' # nat_str (nat (- i)) else nat_str (nat i))"

fun digits_val :: "nat \<Rightarrow> string \<Rightarrow> nat option" where
  "digits_val acc [] = Some acc"
| "digits_val acc (c # cs) =
     (if is_digit c then digits_val (acc * 10 + digit_val c) cs else None)"

text \<open>
  \<open>strconv.ParseInt(s, 10, bits)\<close> (\<open>Atoi\<close> with 64 bits): an optional sign, at least one
  digit, nothing else, and the value within the signed range.
\<close>

definition parse_int :: "nat \<Rightarrow> string \<Rightarrow> int option" where
  "parse_int bits s =
     (let neg = (case s of [] \<Rightarrow> False | c # _ \<Rightarrow> c = CHR ''-'');
          body = (case s of [] \<Rightarrow> [] | c # cs \<Rightarrow> if c = CHR ''-'' \<or> c = CHR ''+'' then cs else s)
      in if body = [] then None
         else (case digits_val 0 body of
                 None \<Rightarrow> None
               | Some n \<Rightarrow>
                   (let v = (if neg then - int n else int n)
                    in if - (2 ^ (bits - 1)) \<le> v \<and> v < 2 ^ (bits - 1) then Some v else None)))"

definition parse_uint :: "nat \<Rightarrow> string \<Rightarrow> nat option" where
  "parse_uint bits s =
     (if s = [] then None
      else (case digits_val 0 s of
              None \<Rightarrow> None
            | Some n \<Rightarrow> if n < 2 ^ bits then Some n else None))"

text \<open>\<open>strconv.ParseBool\<close>.\<close>

definition parse_bool :: "string \<Rightarrow> bool option" where
  "parse_bool s =
     (if s \<in> {''1'', ''t'', ''T'', ''TRUE'', ''true'', ''True''} then Some True
      else if s \<in> {''0'', ''f'', ''F'', ''FALSE'', ''false'', ''False''} then Some False
      else None)"

lemma of_char_digit: "d < 10 \<Longrightarrow> of_char (digit_char d) = (48 + d :: nat)"
  by (simp add: digit_char_def)

lemma is_digit_digit_char [simp]: "d < 10 \<Longrightarrow> is_digit (digit_char d)"
  by (simp add: is_digit_def of_char_digit)

lemma digit_val_digit_char [simp]: "d < 10 \<Longrightarrow> digit_val (digit_char d) = d"
  by (simp add: digit_val_def of_char_digit)

lemma digits_val_append:
  "digits_val a (s @ t) = (case digits_val a s of None \<Rightarrow> None | Some b \<Rightarrow> digits_val b t)"
  by (induction s arbitrary: a) auto

lemma nat_str_not_Nil [simp]: "nat_str n \<noteq> []"
  by (subst nat_str.simps) simp

lemma nat_str_digits: "c \<in> set (nat_str n) \<Longrightarrow> is_digit c"
proof (induction n rule: nat_str.induct)
  case (1 n)
  show ?case
  proof (cases "n < 10")
    case True
    then show ?thesis using 1 by (simp add: nat_str.simps [of n])
  next
    case False
    then show ?thesis using 1 by (auto simp: nat_str.simps [of n])
  qed
qed

lemma digits_val_nat_str: "digits_val 0 (nat_str n) = Some n"
proof (induction n rule: nat_str.induct)
  case (1 n)
  show ?case
  proof (cases "n < 10")
    case True
    then show ?thesis by (simp add: nat_str.simps [of n])
  next
    case False
    then show ?thesis using 1 by (simp add: nat_str.simps [of n] digits_val_append)
  qed
qed

lemma hd_nat_str_digit: "is_digit (hd (nat_str n))"
  by (rule nat_str_digits [of _ n]) simp

lemma sign_not_digit: "\<not> is_digit CHR ''-''" "\<not> is_digit CHR ''+''"
  by (simp_all add: is_digit_def)

lemma parse_int_itoa:
  assumes "- (2 ^ (bits - 1)) \<le> i" and "i < 2 ^ (bits - 1)"
  shows "parse_int bits (itoa i) = Some i"
proof (cases "i < 0")
  case True
  then show ?thesis using assms by (simp add: parse_int_def itoa_def digits_val_nat_str)
next
  case False
  obtain c cs where ccs: "nat_str (nat i) = c # cs"
    by (cases "nat_str (nat i)") auto
  moreover have "is_digit c" using hd_nat_str_digit [of "nat i"] ccs by simp
  then have "c \<noteq> CHR ''-''" "c \<noteq> CHR ''+''" using sign_not_digit by auto
  moreover have "digits_val 0 (c # cs) = Some (nat i)"
    using digits_val_nat_str [of "nat i"] ccs by simp
  ultimately show ?thesis using assms False
    by (simp add: parse_int_def itoa_def Let_def del: digits_val.simps)
qed

lemma parse_int_range:
  "parse_int bits s = Some v \<Longrightarrow> - (2 ^ (bits - 1)) \<le> v \<and> v < 2 ^ (bits - 1)"
  by (auto simp: parse_int_def Let_def split: if_splits option.splits list.splits)

section \<open>unicode/utf8\<close>

type_synonym rune = nat

definition rune_error :: rune where
  "rune_error = 0xFFFD"

definition in_rng :: "nat \<Rightarrow> nat \<Rightarrow> char \<Rightarrow> bool" where
  "in_rng lo hi c \<longleftrightarrow> lo \<le> (of_char c :: nat) \<and> (of_char c :: nat) \<le> hi"

text \<open>
  \<open>utf8.DecodeRune\<close> on a non-empty string: \<open>Some (rune, width)\<close>, or \<open>None\<close> where Go returns
  \<open>(RuneError, 1)\<close> for an invalid encoding.
\<close>

definition decode_rune :: "string \<Rightarrow> (rune \<times> nat) option" where
  "decode_rune s = (case s of [] \<Rightarrow> None | b0 # r \<Rightarrow>
     (let v = of_char b0 :: nat;
          cb = (\<lambda>c. (of_char c :: nat) - 128)
      in if v < 128 then Some (v, 1)
         else if v < 194 then None
         else if v < 224 then
           (case r of b1 # _ \<Rightarrow>
              if in_rng 128 191 b1 then Some ((v - 192) * 64 + cb b1, 2) else None
            | _ \<Rightarrow> None)
         else if v < 240 then
           (case r of b1 # b2 # _ \<Rightarrow>
              if in_rng (if v = 224 then 160 else 128) (if v = 237 then 159 else 191) b1
                 \<and> in_rng 128 191 b2
              then Some ((v - 224) * 4096 + cb b1 * 64 + cb b2, 3) else None
            | _ \<Rightarrow> None)
         else if v < 245 then
           (case r of b1 # b2 # b3 # _ \<Rightarrow>
              if in_rng (if v = 240 then 144 else 128) (if v = 244 then 143 else 191) b1
                 \<and> in_rng 128 191 b2 \<and> in_rng 128 191 b3
              then Some ((v - 240) * 262144 + cb b1 * 4096 + cb b2 * 64 + cb b3, 4) else None
            | _ \<Rightarrow> None)
         else None))"

lemma decode_rune_width: "decode_rune s = Some (r, w) \<Longrightarrow> 0 < w \<and> w \<le> length s"
  by (auto simp: decode_rune_def Let_def split: list.splits if_splits)

text \<open>Ranging over a string: the decoded runes, an invalid byte being one \<open>RuneError\<close>.\<close>

function runes_of :: "string \<Rightarrow> rune list" where
  "runes_of s =
     (if s = [] then []
      else (case decode_rune s of
              None \<Rightarrow> rune_error # runes_of (drop 1 s)
            | Some (r, w) \<Rightarrow> r # runes_of (drop w s)))"
  by pat_completeness auto
termination
  by (relation "measure length") (auto dest: decode_rune_width)

function valid_utf8 :: "string \<Rightarrow> bool" where
  "valid_utf8 s =
     (if s = [] then True
      else (case decode_rune s of None \<Rightarrow> False | Some (r, w) \<Rightarrow> valid_utf8 (drop w s)))"
  by pat_completeness auto
termination
  by (relation "measure length") (auto dest: decode_rune_width)

declare runes_of.simps [simp del] valid_utf8.simps [simp del]

lemma valid_utf8_Nil [simp]: "valid_utf8 []"
  by (simp add: valid_utf8.simps)

text \<open>Encoding a rune as \<open>utf8.AppendRune\<close> does.\<close>

definition encode_rune :: "rune \<Rightarrow> string" where
  "encode_rune r =
     (let r = (if 0x10FFFF < r \<or> (0xD800 \<le> r \<and> r \<le> 0xDFFF) then rune_error else r)
      in if r < 0x80 then [char_of r]
         else if r < 0x800 then [char_of (192 + r div 64), char_of (128 + r mod 64)]
         else if r < 0x10000 then
           [char_of (224 + r div 4096), char_of (128 + r div 64 mod 64), char_of (128 + r mod 64)]
         else [char_of (240 + r div 262144), char_of (128 + r div 4096 mod 64),
               char_of (128 + r div 64 mod 64), char_of (128 + r mod 64)])"

section \<open>path/filepath\<close>

text \<open>\<open>filepath.Base\<close> on Unix: the last element, \<open>.\<close> for an empty and \<open>/\<close> for an all-slash path.\<close>

definition path_base :: "string \<Rightarrow> string" where
  "path_base p =
     (if p = [] then ''.''
      else (let q = trim_right_of (\<lambda>c. c = CHR ''/'') p
            in if q = [] then ''/''
               else rev (takeWhile (\<lambda>c. c \<noteq> CHR ''/'') (rev q))))"

text \<open>
  \<open>net.SplitHostPort\<close>: \<open>host:port\<close>, \<open>[host]:port\<close>. It fails without a port, with
  more than one colon outside brackets, and with stray brackets.
\<close>

definition split_host_port :: "string \<Rightarrow> (string \<times> string) option" where
  "split_host_port hp =
     (case last_index_byte CHR '':'' hp of
        None \<Rightarrow> None
      | Some i \<Rightarrow>
          (if hp \<noteq> [] \<and> hd hp = CHR ''['' then
             (case index_byte CHR '']'' hp of
                None \<Rightarrow> None
              | Some j \<Rightarrow>
                  if j + 1 \<noteq> i then None
                  else if CHR ''['' \<in> set (drop 1 hp) \<or> CHR '']'' \<in> set (drop (j + 1) hp) then None
                  else Some (take (j - 1) (drop 1 hp), drop (i + 1) hp))
           else if CHR '':'' \<in> set (take i hp) then None
           else if CHR ''['' \<in> set hp \<or> CHR '']'' \<in> set hp then None
           else Some (take i hp, drop (i + 1) hp)))"

lemma split_host_port_no_colon: "CHR '':'' \<notin> set hp \<Longrightarrow> split_host_port hp = None"
  using last_index_byte_None [of "CHR '':''" hp, THEN iffD2]
  by (simp add: split_host_port_def del: last_index_byte_None)

end
