(* ===== verification/Naming.thy ===== *)
theory Naming
  imports Go_Lib
begin

text \<open>
  \<open>src/internal/naming\<close>: tunnel names, org slugs, the three URL shapes, the host a tunnel
  is published under and its inverse, and the derivation of a label from a directory, a
  repository or a branch. \<open>git\<close> is another process and SHA-256 a digest the code only
  prints in hexadecimal: both are arguments of the definitions that use them.
\<close>

section \<open>naming.go\<close>

datatype naming_error =
    InvalidLabel string
  | InvalidSlug string
  | DirUnusable string
  | NotARepo string
  | NameUnusable string string
  | DetachedHead
  | DerivedInvalid string string
  | UnknownSource string

definition alnum :: "char \<Rightarrow> bool" where
  "alnum c \<longleftrightarrow> in_rng 97 122 c \<or> in_rng 48 57 c"

definition label_char :: "char \<Rightarrow> bool" where
  "label_char c \<longleftrightarrow> alnum c \<or> c = CHR ''-''"

text \<open>\<open>^[a-z0-9]([a-z0-9-]{0,61}[a-z0-9])?$\<close>\<close>

fun labelRegex :: "string \<Rightarrow> bool" where
  "labelRegex [] = False"
| "labelRegex [c] = alnum c"
| "labelRegex (c # cs) =
     (alnum c \<and> length (butlast cs) \<le> 61 \<and> list_all label_char (butlast cs) \<and> alnum (last cs))"

text \<open>\<open>^[a-z0-9]{1,63}$\<close>\<close>

definition slugRegex :: "string \<Rightarrow> bool" where
  "slugRegex s \<longleftrightarrow> 1 \<le> length s \<and> length s \<le> 63 \<and> list_all alnum s"

definition validateLabel :: "string \<Rightarrow> naming_error option" where
  "validateLabel label = (if \<not> labelRegex label then Some (InvalidLabel label) else None)"

definition validateSlug :: "string \<Rightarrow> naming_error option" where
  "validateSlug slug = (if \<not> slugRegex slug then Some (InvalidSlug slug) else None)"

text \<open>Go's \<open>Shape\<close> is a string type, so a value outside the three constants is possible.\<close>

datatype shape = ShapeHyphen | ShapeSubdomain | ShapeFlat | ShapeOther string

definition parseShape :: "string \<Rightarrow> shape" where
  "parseShape s =
     (if s = ''subdomain'' then ShapeSubdomain
      else if s = ''flat'' then ShapeFlat
      else ShapeHyphen)"

definition shape_string :: "shape \<Rightarrow> string" where
  "shape_string sh = (case sh of ShapeHyphen \<Rightarrow> ''hyphen'' | ShapeSubdomain \<Rightarrow> ''subdomain''
                      | ShapeFlat \<Rightarrow> ''flat'' | ShapeOther s \<Rightarrow> s)"

definition labelFromPort :: "int \<Rightarrow> string" where
  "labelFromPort port = itoa port"

definition hostname :: "string \<Rightarrow> string \<Rightarrow> string \<Rightarrow> shape \<Rightarrow> string" where
  "hostname label slug baseDomain sh =
     (if slug = [] then label @ ''.'' @ baseDomain
      else (case sh of
              ShapeFlat \<Rightarrow> label @ ''.'' @ baseDomain
            | ShapeHyphen \<Rightarrow> label @ ''-'' @ slug @ ''.'' @ baseDomain
            | ShapeSubdomain \<Rightarrow> label @ ''.'' @ slug @ ''.'' @ baseDomain
            | ShapeOther _ \<Rightarrow> label @ ''.'' @ slug @ ''.'' @ baseDomain))"

definition strip_port :: "string \<Rightarrow> string" where
  "strip_port h = (case index_byte CHR '':'' h of None \<Rightarrow> h | Some i \<Rightarrow> take i h)"

definition slug_hyphen :: "string \<Rightarrow> string" where
  "slug_hyphen labels =
     (case last_index_byte CHR ''-'' labels of
        None \<Rightarrow> []
      | Some i \<Rightarrow> if 0 < i \<and> i < length labels - 1 then drop (i + 1) labels else [])"

definition slug_subdomain :: "string \<Rightarrow> string" where
  "slug_subdomain labels =
     (let parts = split_on CHR ''.'' labels in if 2 \<le> length parts then last parts else [])"

definition slugFromHost :: "string \<Rightarrow> string \<Rightarrow> shape \<Rightarrow> string" where
  "slugFromHost host baseDomain sh =
     (let h = trim_suffix ''.'' (strip_port (to_lower host));
          suffix = ''.'' @ baseDomain
      in if \<not> has_suffix suffix h then []
         else (let labels = take (length h - length suffix) h
               in if labels = [] then []
                  else (case sh of
                          ShapeFlat \<Rightarrow> []
                        | ShapeSubdomain \<Rightarrow> slug_subdomain labels
                        | ShapeHyphen \<Rightarrow> slug_hyphen labels
                        | ShapeOther _ \<Rightarrow> slug_hyphen labels)))"

section \<open>derive.go\<close>

definition deriveSources :: "string list" where
  "deriveSources = [''port'', ''dir'', ''repo'', ''branch'', ''worktree'']"

text \<open>
  \<open>low\<close> is \<open>unicode.ToLower\<close> on the code points beyond ASCII (Go's Unicode tables);
  \<open>sha\<close> is the hexadecimal SHA-256 of a string.
\<close>

definition to_lower_rune :: "(rune \<Rightarrow> rune) \<Rightarrow> rune \<Rightarrow> rune" where
  "to_lower_rune low r = (if r < 128 then (if 65 \<le> r \<and> r \<le> 90 then r + 32 else r) else low r)"

definition sanitize_rune :: "rune \<Rightarrow> char" where
  "sanitize_rune r =
     (if (97 \<le> r \<and> r \<le> 122) \<or> (48 \<le> r \<and> r \<le> 57) \<or> r = 45 then char_of r else CHR ''-'')"

fun multiHyphen :: "string \<Rightarrow> string" where
  "multiHyphen (c # d # s) =
     (if c = CHR ''-'' \<and> d = CHR ''-'' then multiHyphen (d # s) else c # multiHyphen (d # s))"
| "multiHyphen s = s"

definition truncateLabel :: "(string \<Rightarrow> string) \<Rightarrow> string \<Rightarrow> string" where
  "truncateLabel sha s =
     (if length s \<le> 63 then s
      else (let suffix = CHR ''-'' # take 6 (sha s);
                prefix = trim_right_of (\<lambda>c. c = CHR ''-'') (take (63 - length suffix) s)
            in prefix @ suffix))"

definition sanitize :: "(rune \<Rightarrow> rune) \<Rightarrow> (string \<Rightarrow> string) \<Rightarrow> string \<Rightarrow> string" where
  "sanitize low sha s =
     (let b = map (sanitize_rune \<circ> to_lower_rune low) (runes_of s);
          out = trim_of (\<lambda>c. c = CHR ''-'') (multiHyphen b)
      in truncateLabel sha out)"

text \<open>
  A run of \<open>git -C dir args\<close> in the invocation's directory: the raw standard output, or
  \<open>None\<close> when it fails. \<open>absp\<close> is \<open>filepath.Abs\<close>, \<open>None\<close> where it errs.
\<close>

type_synonym git = "string list \<Rightarrow> string option"

definition gitOutput :: "git \<Rightarrow> string list \<Rightarrow> string option" where
  "gitOutput git args = map_option (trim_of is_space) (git args)"

definition inGitRepo :: "git \<Rightarrow> bool" where
  "inGitRepo git \<longleftrightarrow> gitOutput git [''rev-parse'', ''--git-dir''] \<noteq> None"

definition branchLabel :: "(string \<Rightarrow> string) \<Rightarrow> git \<Rightarrow> naming_error + string" where
  "branchLabel san git =
     (case gitOutput git [''symbolic-ref'', ''--short'', ''HEAD''] of
        None \<Rightarrow> if \<not> inGitRepo git then Inl (NotARepo ''branch'') else Inl DetachedHead
      | Some br \<Rightarrow>
          (let label = san br
           in if label = [] then Inl (NameUnusable ''branch'' br) else Inr label))"

definition absClean :: "(string \<Rightarrow> string option) \<Rightarrow> string \<Rightarrow> string" where
  "absClean absp p = (case absp p of Some a \<Rightarrow> a | None \<Rightarrow> p)"

definition is_linked :: "(string \<Rightarrow> string option) \<Rightarrow> git \<Rightarrow> bool" where
  "is_linked absp git =
     (case (gitOutput git [''rev-parse'', ''--absolute-git-dir''],
            gitOutput git [''rev-parse'', ''--git-common-dir'']) of
        (Some gd, Some cd) \<Rightarrow> absClean absp gd \<noteq> absClean absp cd
      | _ \<Rightarrow> False)"

definition worktree_combined ::
    "(string \<Rightarrow> string) \<Rightarrow> (string \<Rightarrow> string option) \<Rightarrow> git \<Rightarrow> string \<Rightarrow> string option" where
  "worktree_combined san absp git toplevel =
     (if \<not> is_linked absp git then None
      else (case gitOutput git [''symbolic-ref'', ''--short'', ''HEAD''] of
              None \<Rightarrow> None
            | Some br \<Rightarrow>
                if br \<noteq> [] \<and> br \<noteq> ''main'' \<and> br \<noteq> ''master'' then
                  (let combined = san (br @ ''-'' @ path_base toplevel)
                   in if combined \<noteq> [] \<and> validateLabel combined = None then Some combined else None)
                else None))"

definition worktreeLabel ::
    "(string \<Rightarrow> string) \<Rightarrow> (string \<Rightarrow> string option) \<Rightarrow> git \<Rightarrow> naming_error + string" where
  "worktreeLabel san absp git =
     (case gitOutput git [''rev-parse'', ''--show-toplevel''] of
        None \<Rightarrow> Inl (NotARepo ''worktree'')
      | Some toplevel \<Rightarrow>
          (let repo = san (path_base toplevel)
           in case worktree_combined san absp git toplevel of
                Some combined \<Rightarrow> Inr combined
              | None \<Rightarrow>
                  if repo = [] then Inl (NameUnusable ''worktree'' (path_base toplevel))
                  else if validateLabel repo \<noteq> None then Inl (DerivedInvalid ''worktree'' repo)
                  else Inr repo))"

definition deriveLabel ::
    "(string \<Rightarrow> string) \<Rightarrow> (string \<Rightarrow> string option) \<Rightarrow> git \<Rightarrow> string \<Rightarrow> int \<Rightarrow> string \<Rightarrow>
     naming_error + string" where
  "deriveLabel san absp git source port dir =
     (let validated = (\<lambda>label. if validateLabel label \<noteq> None then Inl (DerivedInvalid source label)
                               else Inr label)
      in if source = [] \<or> source = ''port'' then Inr (labelFromPort port)
         else if source = ''dir'' then
           (let label = san (path_base dir)
            in if label = [] then Inl (DirUnusable dir) else validated label)
         else if source = ''repo'' then
           (case gitOutput git [''rev-parse'', ''--show-toplevel''] of
              None \<Rightarrow> Inl (NotARepo ''repo'')
            | Some toplevel \<Rightarrow>
                (let label = san (path_base toplevel)
                 in if label = [] then Inl (NameUnusable ''repo'' (path_base toplevel)) else validated label))
         else if source = ''branch'' then
           (case branchLabel san git of Inl e \<Rightarrow> Inl e | Inr label \<Rightarrow> validated label)
         else if source = ''worktree'' then worktreeLabel san absp git
         else Inl (UnknownSource source))"

section \<open>Character classes\<close>

lemma alnum_facts:
  assumes "alnum c"
  shows "c \<noteq> CHR ''-''" "c \<noteq> CHR ''.''" "c \<noteq> CHR '':''" "c \<noteq> CHR ''/''" "c \<noteq> CHR ''\<newline>''" "lower_char c = c"
  using assms by (auto simp: alnum_def in_rng_def lower_char_def)

lemma label_char_facts:
  assumes "label_char c"
  shows "c \<noteq> CHR ''.''" "c \<noteq> CHR '':''" "c \<noteq> CHR ''\<newline>''" "lower_char c = c"
  using assms alnum_facts [of c] by (auto simp: label_char_def lower_char_def)

lemma labelRegex_chars: "labelRegex s \<Longrightarrow> c \<in> set s \<Longrightarrow> label_char c"
proof (induction s rule: labelRegex.induct)
  case (3 a b cs)
  let ?r = "b # cs"
  have "c = a \<or> c \<in> set (butlast ?r) \<or> c = last ?r"
    using 3(2) by (metis Un_iff append_butlast_last_id empty_iff list.set(1) list.simps(3) set_ConsD set_append)
  then show ?case using 3(1) by (auto simp: label_char_def list_all_iff)
qed (auto simp: label_char_def)

lemma labelRegex_iff:
  "labelRegex s \<longleftrightarrow> s \<noteq> [] \<and> length s \<le> 63 \<and> list_all label_char s \<and> alnum (hd s) \<and> alnum (last s)"
proof (cases s rule: labelRegex.cases)
  case (3 c d cs)
  have "list_all label_char (d # cs) \<longleftrightarrow> list_all label_char (butlast (d # cs)) \<and> label_char (last (d # cs))"
    by (metis append_butlast_last_id list.distinct(1) list_all_append list.pred_inject)
  then show ?thesis using 3 by (auto simp: label_char_def)
qed (auto simp: label_char_def)

lemma valid_label_iff [simp]: "validateLabel s = None \<longleftrightarrow> labelRegex s"
  by (simp add: validateLabel_def)

lemma valid_slug_iff [simp]: "validateSlug s = None \<longleftrightarrow> slugRegex s"
  by (simp add: validateSlug_def)

lemma label_no_special:
  assumes "labelRegex s"
  shows "CHR ''.'' \<notin> set s" "CHR '':'' \<notin> set s" "CHR ''\<newline>'' \<notin> set s" "s \<noteq> []" "length s \<le> 63"
  using labelRegex_chars [OF assms] label_char_facts assms by (auto simp: labelRegex_iff)

lemma slug_no_special:
  assumes "slugRegex s"
  shows "CHR ''.'' \<notin> set s" "CHR '':'' \<notin> set s" "CHR ''-'' \<notin> set s" "s \<noteq> []" "length s \<le> 63"
  using assms alnum_facts by (auto simp: slugRegex_def list_all_iff) blast+

lemma to_lower_id: "list_all label_char s \<Longrightarrow> to_lower s = s"
  by (induction s) (auto simp: to_lower_def label_char_facts)

lemma slug_is_label_chars: "slugRegex s \<Longrightarrow> list_all label_char s"
  by (auto simp: slugRegex_def list_all_iff label_char_def)

section \<open>Hosts\<close>

text \<open>What the edge needs of its base domain for the inverse of \<open>hostname\<close> to be defined.\<close>

definition base_ok :: "string \<Rightarrow> bool" where
  "base_ok b \<longleftrightarrow> to_lower b = b \<and> CHR '':'' \<notin> set b \<and> b \<noteq> [] \<and> last b \<noteq> CHR ''.''"

lemma strip_port_append:
  "CHR '':'' \<notin> set h \<Longrightarrow> port = [] \<or> hd port = CHR '':'' \<Longrightarrow> strip_port (h @ port) = h"
  using index_byte_None [of "CHR '':''" h, THEN iffD2]
  by (cases port) (auto simp: strip_port_def index_byte_split simp del: index_byte_None)

lemma lower_colon: "lower_char CHR '':'' = CHR '':''"
  by (simp add: lower_char_def)

lemma to_lower_port: "port = [] \<or> hd port = CHR '':'' \<Longrightarrow> to_lower port = [] \<or> hd (to_lower port) = CHR '':''"
  by (cases port) (auto simp: to_lower_def lower_colon)

lemma host_strip:
  assumes b: "base_ok b" and p: "to_lower pre = pre" "CHR '':'' \<notin> set pre"
    and port: "port = [] \<or> hd port = CHR '':''"
  shows "trim_suffix ''.'' (strip_port (to_lower ((pre @ ''.'' @ b) @ port))) = pre @ ''.'' @ b"
proof -
  have low: "to_lower (pre @ ''.'' @ b) = pre @ ''.'' @ b"
    using b p by (simp add: base_ok_def to_lower_def lower_char_def)
  have "strip_port (to_lower ((pre @ ''.'' @ b) @ port)) = pre @ ''.'' @ b"
    using b p to_lower_port [OF port]
    by (subst to_lower_append, subst low, intro strip_port_append) (auto simp: base_ok_def)
  moreover have "\<not> has_suffix ''.'' (pre @ ''.'' @ b)"
    using b by (auto simp: has_suffix_iff base_ok_def)
      (metis append_is_Nil_conv last_append last_snoc list.distinct(1) append_Cons append_Nil last.simps)
  ultimately show ?thesis by (simp add: trim_suffix_def)
qed

lemma slug_hyphen_split: "n \<noteq> [] \<Longrightarrow> s \<noteq> [] \<Longrightarrow> CHR ''-'' \<notin> set s \<Longrightarrow> slug_hyphen (n @ ''-'' @ s) = s"
  by (simp add: slug_hyphen_def last_index_byte_split)

lemma slug_subdomain_split:
  "CHR ''.'' \<notin> set n \<Longrightarrow> CHR ''.'' \<notin> set s \<Longrightarrow> slug_subdomain (n @ ''.'' @ s) = s"
  by (simp add: slug_subdomain_def split_on_append)



text \<open>
  C13. \<open>SlugFromHost\<close> is the inverse of \<open>Hostname\<close>: for the two shapes that carry a slug it
  recovers the slug of every well-formed tunnel host, with or without a port; for the flat
  shape it reports none.
\<close>

theorem slugFromHost_hostname:
  assumes n: "validateLabel n = None" and s: "validateSlug s = None" and b: "base_ok b"
    and port: "port = [] \<or> hd port = CHR '':''"
    and sh: "sh \<in> {ShapeHyphen, ShapeSubdomain, ShapeFlat}"
  shows "slugFromHost (hostname n s b sh @ port) b sh = (if sh = ShapeFlat then [] else s)"
proof -
  define pre where
    "pre = (if sh = ShapeFlat then n else if sh = ShapeHyphen then n @ ''-'' @ s else n @ ''.'' @ s)"
  have host: "hostname n s b sh = pre @ ''.'' @ b"
    using sh slug_no_special(4) [of s] s by (auto simp: hostname_def pre_def)
  have "to_lower n = n" and "to_lower s = s"
    using n s slug_is_label_chars by (auto simp: labelRegex_iff intro: to_lower_id)
  then have "to_lower pre = pre"
    by (simp add: pre_def to_lower_def lower_char_def)
  moreover have "CHR '':'' \<notin> set pre"
    using n s label_no_special(2) [of n] slug_no_special(2) [of s] by (auto simp: pre_def)
  ultimately have strip:
    "trim_suffix ''.'' (strip_port (to_lower ((pre @ ''.'' @ b) @ port))) = pre @ ''.'' @ b"
    by (intro host_strip b port)
  have "pre \<noteq> []" using n label_no_special(4) by (auto simp: pre_def)
  then have "slugFromHost (hostname n s b sh @ port) b sh =
      (case sh of ShapeFlat \<Rightarrow> [] | ShapeSubdomain \<Rightarrow> slug_subdomain pre
       | ShapeHyphen \<Rightarrow> slug_hyphen pre | ShapeOther _ \<Rightarrow> slug_hyphen pre)"
    using has_suffix_append [of "''.'' @ b" pre]
    unfolding slugFromHost_def host Let_def strip by (simp split: shape.split)
  then show ?thesis
    using sh n s label_no_special [of n] slug_no_special [of s]
    by (auto simp: pre_def slug_hyphen_split [simplified] slug_subdomain_split [simplified])
qed

theorem slugFromHost_hostname_witness:
  "slugFromHost (''api-turing.beam.io:8443'') ''beam.io'' ShapeHyphen = ''turing''"
  using slugFromHost_hostname [of "''api''" "''turing''" "''beam.io''" "'':8443''" ShapeHyphen]
  by (simp add: hostname_def base_ok_def to_lower_def lower_char_def slugRegex_def alnum_def
      label_char_def in_rng_def)

section \<open>Sanitised labels\<close>

text \<open>What \<open>truncateLabel\<close> relies on: the digest prints as 64 lower-case hexadecimal digits.\<close>

definition sha_ok :: "(string \<Rightarrow> string) \<Rightarrow> bool" where
  "sha_ok sha \<longleftrightarrow> (\<forall>s. length (sha s) = 64 \<and> list_all (\<lambda>c. in_rng 48 57 c \<or> in_rng 97 102 c) (sha s))"

lemma sha_alnum: "sha_ok sha \<Longrightarrow> c \<in> set (take 6 (sha s)) \<Longrightarrow> alnum c"
  by (auto simp: sha_ok_def list_all_iff alnum_def in_rng_def dest!: in_set_takeD) fastforce

lemma char_of_hyphen: "char_of (45 :: nat) = CHR ''-''"
  by code_simp

lemma sanitize_rune_label: "label_char (sanitize_rune r)"
  by (auto simp: sanitize_rune_def label_char_def alnum_def in_rng_def char_of_hyphen)

lemma multiHyphen_set: "set (multiHyphen s) \<subseteq> set s"
  by (induction s rule: multiHyphen.induct) auto

fun no_dbl :: "string \<Rightarrow> bool" where
  "no_dbl (c # d # s) \<longleftrightarrow> \<not> (c = CHR ''-'' \<and> d = CHR ''-'') \<and> no_dbl (d # s)"
| "no_dbl s \<longleftrightarrow> True"

lemma multiHyphen_id: "no_dbl s \<Longrightarrow> multiHyphen s = s"
  by (induction s rule: multiHyphen.induct) auto

lemma multiHyphen_hd: "s \<noteq> [] \<Longrightarrow> multiHyphen s \<noteq> [] \<and> hd (multiHyphen s) = hd s"
  by (induction s rule: multiHyphen.induct) auto

lemma no_dbl_Cons: "no_dbl (c # s) \<longleftrightarrow> (s = [] \<or> \<not> (c = CHR ''-'' \<and> hd s = CHR ''-'')) \<and> no_dbl s"
  by (cases s) auto

lemma no_dbl_multiHyphen: "no_dbl (multiHyphen s)"
proof (induction s rule: multiHyphen.induct)
  case (1 c d s)
  then show ?case using multiHyphen_hd [of "d # s"] by (auto simp: no_dbl_Cons)
qed auto

lemma no_dbl_append:
  "no_dbl (a @ b) \<longleftrightarrow> no_dbl a \<and> no_dbl b \<and>
     (a = [] \<or> b = [] \<or> \<not> (last a = CHR ''-'' \<and> hd b = CHR ''-''))"
  by (induction a) (auto simp: no_dbl_Cons)

lemma no_dbl_rev [simp]: "no_dbl (rev s) = no_dbl s"
  by (induction s) (auto simp: no_dbl_append no_dbl_Cons last_rev)

lemma no_dbl_dropWhile: "no_dbl s \<Longrightarrow> no_dbl (dropWhile P s)"
  by (metis no_dbl_append takeWhile_dropWhile_id)

lemma no_dbl_take: "no_dbl s \<Longrightarrow> no_dbl (take n s)"
  by (metis append_take_drop_id no_dbl_append)

lemma no_dbl_trim_right: "no_dbl s \<Longrightarrow> no_dbl (trim_right_of P s)"
  by (simp add: trim_right_of_def no_dbl_dropWhile)

lemma dropWhile_snoc: "\<not> P c \<Longrightarrow> dropWhile P (xs @ [c]) = dropWhile P xs @ [c]"
  by (induction xs) auto

lemma trim_right_of_props:
  "set (trim_right_of P s) \<subseteq> set s"
  "trim_right_of P s \<noteq> [] \<Longrightarrow> \<not> P (last (trim_right_of P s))"
  "s \<noteq> [] \<Longrightarrow> \<not> P (hd s) \<Longrightarrow> trim_right_of P s \<noteq> [] \<and> hd (trim_right_of P s) = hd s"
  "length (trim_right_of P s) \<le> length s"
  "s \<noteq> [] \<Longrightarrow> \<not> P (last s) \<Longrightarrow> trim_right_of P s = s"
proof -
  show "set (trim_right_of P s) \<subseteq> set s"
    by (auto simp: trim_right_of_def dest: set_dropWhileD)
  show "trim_right_of P s \<noteq> [] \<Longrightarrow> \<not> P (last (trim_right_of P s))"
    by (simp add: trim_right_of_def last_rev hd_dropWhile)
  show "length (trim_right_of P s) \<le> length s"
    using length_dropWhile_le [of P "rev s"] by (simp add: trim_right_of_def)
  show "s \<noteq> [] \<Longrightarrow> \<not> P (last s) \<Longrightarrow> trim_right_of P s = s"
    by (cases "rev s") (auto simp: trim_right_of_def)
  show "s \<noteq> [] \<Longrightarrow> \<not> P (hd s) \<Longrightarrow> trim_right_of P s \<noteq> [] \<and> hd (trim_right_of P s) = hd s"
  proof -
    assume "s \<noteq> []" "\<not> P (hd s)"
    then obtain c cs where s: "s = c # cs" "\<not> P c" by (cases s) auto
    then show ?thesis by (simp add: trim_right_of_def dropWhile_snoc)
  qed
qed

abbreviation hyphen :: "char \<Rightarrow> bool" where
  "hyphen c \<equiv> c = CHR ''-''"

lemma trim_of_props:
  assumes "list_all label_char s"
  shows "list_all label_char (trim_of hyphen s)"
    and "trim_of hyphen s \<noteq> [] \<Longrightarrow> alnum (hd (trim_of hyphen s)) \<and> alnum (last (trim_of hyphen s))"
proof -
  let ?d = "dropWhile hyphen s"
  show lab: "list_all label_char (trim_of hyphen s)"
    using assms trim_right_of_props(1) [of hyphen ?d]
    by (auto simp: trim_of_def list_all_iff dest: set_dropWhileD)
  assume ne: "trim_of hyphen s \<noteq> []"
  then have "?d \<noteq> []" by (metis dropWhile.simps(1) rev.simps(1) trim_of_def trim_right_of_def)
  then have "hd (trim_of hyphen s) = hd ?d" and "\<not> hyphen (hd ?d)"
    using trim_right_of_props(3) [of ?d hyphen] hd_dropWhile [of hyphen s] by (auto simp: trim_of_def)
  moreover have "\<not> hyphen (last (trim_of hyphen s))"
    using trim_right_of_props(2) [of hyphen ?d] ne by (simp add: trim_of_def)
  ultimately show "alnum (hd (trim_of hyphen s)) \<and> alnum (last (trim_of hyphen s))"
    using lab hd_in_set [OF ne] last_in_set [OF ne] by (auto simp: label_char_def list_all_iff)
qed

lemma truncateLabel_valid:
  assumes sha: "sha_ok sha" and s: "s \<noteq> []" "list_all label_char s" "alnum (hd s)" "alnum (last s)"
  shows "labelRegex (truncateLabel sha s)"
proof (cases "length s \<le> 63")
  case True
  then show ?thesis using s by (simp add: truncateLabel_def labelRegex_iff)
next
  case False
  define suffix where "suffix = CHR ''-'' # take 6 (sha s)"
  define prefix where "prefix = trim_right_of hyphen (take 56 s)"
  have l6: "length (take 6 (sha s)) = 6" using sha by (simp add: sha_ok_def)
  then have eq: "truncateLabel sha s = prefix @ suffix"
    using False by (simp add: truncateLabel_def suffix_def prefix_def Let_def)
  have hd56: "take 56 s \<noteq> []" "hd (take 56 s) = hd s" using s by (cases s; simp)+
  then have pre: "prefix \<noteq> []" "hd prefix = hd s"
    using trim_right_of_props(3) [of "take 56 s" hyphen] s(3) alnum_facts(1) by (auto simp: prefix_def)
  have suf: "list_all label_char suffix" "alnum (last suffix)" "suffix \<noteq> []"
    using sha_alnum [OF sha, of _ s] l6 last_in_set [of "take 6 (sha s)"]
    by (auto simp: suffix_def list_all_iff label_char_def)
  have "list_all label_char prefix"
    using trim_right_of_props(1) [of hyphen "take 56 s"] s(2)
    by (auto simp: prefix_def list_all_iff dest: in_set_takeD)
  moreover have "length prefix \<le> 56"
    using trim_right_of_props(4) [of hyphen "take 56 s"] by (simp add: prefix_def)
  ultimately show ?thesis using eq pre suf l6 s(3) by (simp add: labelRegex_iff suffix_def)
qed

text \<open>
  \<open>Sanitize\<close> turns any string into a valid RFC 1123 label, or into the empty string
  when nothing usable remains.
\<close>

theorem sanitize_valid:
  assumes "sha_ok sha"
  shows "sanitize low sha s = [] \<or> validateLabel (sanitize low sha s) = None"
proof -
  define b where "b = multiHyphen (map (sanitize_rune \<circ> to_lower_rune low) (runes_of s))"
  have b: "list_all label_char b"
    using multiHyphen_set sanitize_rune_label by (fastforce simp: b_def list_all_iff)
  have eq: "sanitize low sha s = truncateLabel sha (trim_of hyphen b)"
    by (simp add: sanitize_def b_def)
  show ?thesis
  proof (cases "trim_of hyphen b = []")
    case True
    then show ?thesis by (simp add: eq truncateLabel_def)
  next
    case False
    then show ?thesis using truncateLabel_valid [OF assms False] trim_of_props [OF b] eq by simp
  qed
qed

theorem sanitize_valid_witness:
  "sanitize id (\<lambda>_. replicate 64 CHR ''0'') ''Feature/Login UI!'' = ''feature-login-ui'' \<and>
   validateLabel (sanitize id (\<lambda>_. replicate 64 CHR ''0'') ''Feature/Login UI!'') = None"
proof -
  let ?sha = "\<lambda>_ :: string. replicate 64 CHR ''0''"
  have ok: "sha_ok ?sha" by (simp add: sha_ok_def in_rng_def list_all_iff)
  have "sanitize id ?sha ''Feature/Login UI!'' = ''feature-login-ui''"
    by code_simp
  then show ?thesis using sanitize_valid [OF ok, of id "''Feature/Login UI!''"] by simp
qed

lemma no_dbl_hex: "sha_ok sha \<Longrightarrow> no_dbl (CHR ''-'' # take 6 (sha s))"
proof -
  assume "sha_ok sha"
  then have al: "\<forall>c \<in> set (take 6 (sha s)). alnum c" using sha_alnum by blast
  have "no_dbl t" if "\<forall>c \<in> set t. alnum c" for t
    using that by (induction t) (auto simp: no_dbl_Cons alnum_facts(1))
  with al show ?thesis by (cases "take 6 (sha s)") (auto simp: no_dbl_Cons alnum_facts(1))
qed

lemma no_dbl_truncate:
  assumes "sha_ok sha" and "no_dbl s"
  shows "no_dbl (truncateLabel sha s)"
proof (cases "length s \<le> 63")
  case False
  let ?pre = "trim_right_of hyphen (take (63 - length (CHR ''-'' # take 6 (sha s))) s)"
  have "?pre = [] \<or> \<not> hyphen (last ?pre)" using trim_right_of_props(2) by blast
  then have "no_dbl (?pre @ CHR ''-'' # take 6 (sha s))"
    using no_dbl_hex [OF assms(1)] assms(2)
    by (auto simp: no_dbl_append no_dbl_trim_right no_dbl_take)
  then show ?thesis using False by (simp add: truncateLabel_def Let_def)
qed (simp add: truncateLabel_def assms)

lemma no_dbl_sanitize: "sha_ok sha \<Longrightarrow> no_dbl (sanitize low sha s)"
  unfolding sanitize_def Let_def trim_of_def
  by (intro no_dbl_truncate no_dbl_trim_right no_dbl_dropWhile no_dbl_multiHyphen)

lemma label_char_code: "label_char c \<Longrightarrow> (of_char c :: nat) < 128"
  by (auto simp: label_char_def alnum_def in_rng_def)

lemma runes_of_ascii: "list_all (\<lambda>c. (of_char c :: nat) < 128) s \<Longrightarrow> runes_of s = map of_char s"
  by (induction s) (simp_all add: runes_of.simps [of "_ # _"] runes_of.simps [of "[]"] decode_rune_def)

lemma sanitize_rune_id: "label_char c \<Longrightarrow> sanitize_rune (to_lower_rune low (of_char c)) = c"
  by (auto simp: label_char_def alnum_def in_rng_def sanitize_rune_def to_lower_rune_def char_of_hyphen)

text \<open>
  \<open>Sanitize\<close> is idempotent: a label it produced is left alone when it is derived again,
  so the name a project resolves to does not drift.
\<close>

theorem sanitize_idempotent:
  assumes "sha_ok sha"
  shows "sanitize low sha (sanitize low sha s) = sanitize low sha s"
proof (cases "sanitize low sha s = []")
  case True
  then show ?thesis
    by (simp add: sanitize_def [of low sha "[]"] runes_of.simps [of "[]"] trim_of_def trim_right_of_def truncateLabel_def)
next
  case False
  define t where "t = sanitize low sha s"
  have reg: "labelRegex t" and ne: "t \<noteq> []"
    using sanitize_valid [OF assms, of low s] False by (auto simp: t_def)
  then have chars: "list_all label_char t" and ends: "alnum (hd t)" "alnum (last t)" and len: "length t \<le> 63"
    by (auto simp: labelRegex_iff)
  have "map (sanitize_rune \<circ> to_lower_rune low) (runes_of t) = t"
    using chars label_char_code
    by (subst runes_of_ascii) (auto simp: list_all_iff sanitize_rune_id intro!: map_idI)
  moreover have "multiHyphen t = t"
    using no_dbl_sanitize [OF assms] by (simp add: t_def multiHyphen_id)
  moreover have "dropWhile hyphen t = t"
    using ne ends(1) alnum_facts(1) by (cases t) auto
  moreover have "trim_right_of hyphen t = t"
    using trim_right_of_props(5) [OF ne, of hyphen] alnum_facts(1) [OF ends(2)] by simp
  ultimately have "sanitize low sha t = t"
    using len by (simp add: sanitize_def trim_of_def truncateLabel_def)
  then show ?thesis by (simp add: t_def)
qed

theorem sanitize_idempotent_witness:
  "sanitize id (\<lambda>_. replicate 64 CHR ''0'') (sanitize id (\<lambda>_. replicate 64 CHR ''0'') ''My App'') = ''my-app''"
proof -
  let ?sha = "\<lambda>_ :: string. replicate 64 CHR ''0''"
  have ok: "sha_ok ?sha" by (simp add: sha_ok_def in_rng_def list_all_iff)
  have "sanitize id ?sha ''My App'' = ''my-app''" by code_simp
  then show ?thesis using sanitize_idempotent [OF ok, of id "''My App''"] by simp
qed

section \<open>Derived labels\<close>

lemma nat_str_length: "n < 10 ^ k \<Longrightarrow> 0 < k \<Longrightarrow> length (nat_str n) \<le> k"
proof (induction n arbitrary: k rule: nat_str.induct)
  case (1 n)
  show ?case
  proof (cases "n < 10")
    case True
    then show ?thesis using 1(3) by (simp add: nat_str.simps [of n])
  next
    case False
    then obtain k' where k: "k = Suc k'" "0 < k'" using 1(2,3)
      by (metis One_nat_def gr0_conv_Suc linorder_neqE_nat not_less_zero power_one_right)
    then have "n div 10 < 10 ^ k'" using 1(2) by (simp add: less_mult_imp_div_less mult.commute)
    then show ?thesis using 1(1) False k by (simp add: nat_str.simps [of n])
  qed
qed

lemma is_digit_alnum: "is_digit c \<Longrightarrow> alnum c"
  by (simp add: is_digit_def alnum_def in_rng_def)

lemma labelFromPort_valid:
  assumes "0 \<le> port" and "port < 2 ^ 63"
  shows "labelRegex (labelFromPort port)"
proof -
  have "nat port < 10 ^ 63" using assms by simp
  then have "length (nat_str (nat port)) \<le> 63" by (rule nat_str_length) simp
  moreover have "\<forall>c \<in> set (nat_str (nat port)). alnum c"
    using nat_str_digits is_digit_alnum by blast
  ultimately show ?thesis using assms
    by (simp add: labelFromPort_def itoa_def labelRegex_iff list_all_iff label_char_def)
qed

lemma worktreeLabel_valid: "worktreeLabel san absp git = Inr l \<Longrightarrow> labelRegex l"
  by (auto simp: worktreeLabel_def worktree_combined_def Let_def split: option.splits if_splits)

text \<open>
  Whatever source it is asked for, a label \<open>DeriveLabel\<close> returns for a port number Go's
  \<open>int\<close> can hold and that is not negative is a valid label, whatever \<open>git\<close> answers.
\<close>

theorem deriveLabel_valid:
  assumes "deriveLabel san absp git source port dir = Inr l" and "0 \<le> port" and "port < 2 ^ 63"
  shows "validateLabel l = None"
  using assms labelFromPort_valid [of port] worktreeLabel_valid [of san absp git l]
  by (auto simp: deriveLabel_def Let_def split: option.splits sum.splits if_splits)

theorem deriveLabel_valid_witness:
  "deriveLabel id (\<lambda>_. None) (\<lambda>_. Some ''fix-1'') ''branch'' 3001 ''/tmp'' = Inr ''fix-1'' \<and>
   validateLabel ''fix-1'' = None"
proof -
  have d: "deriveLabel id (\<lambda>_. None) (\<lambda>_. Some ''fix-1'') ''branch'' 3001 ''/tmp'' = Inr ''fix-1''"
    by code_simp
  show ?thesis using d deriveLabel_valid [OF d] by simp
qed

end
