(* ===== verification/Hostnames.thy ===== *)
theory Hostnames
  imports Naming
begin

text \<open>
  \<open>src/internal/edge/hostnames.go\<close>: the hosts a tunnel answers on. In hosted mode the edge
  asks the control plane for a scope's slugs and custom domains and caches the answer; the
  control plane is a service outside the repository, so its reply is the argument \<open>http\<close>
  of the definitions. Times and durations are nanoseconds, as \<open>int\<close>.
\<close>

type_synonym time = int

record scopeDomain =
  sd_domain :: string
  sd_primary :: bool
  sd_certMode :: string

record scopeHostnames =
  sh_primarySlug :: string
  sh_slugs :: "string list"
  sh_shape :: string
  sh_domains :: "scopeDomain list"
  sh_primaryHost :: string

record hostnamesEntry =
  he_val :: scopeHostnames
  he_at :: time

record hostnamesClient =
  hc_url :: string
  hc_secret :: string
  hc_ttl :: time
  hc_cache :: "(string, hostnamesEntry) gomap"

definition seconds :: "int \<Rightarrow> time" where
  "seconds n = n * 1000000000"

definition minutes :: "int \<Rightarrow> time" where
  "minutes n = 60 * seconds n"

text \<open>\<open>strings.Replace(s, old, new, 1)\<close> with a non-empty \<open>old\<close>.\<close>

fun replace_first :: "string \<Rightarrow> string \<Rightarrow> string \<Rightarrow> string" where
  "replace_first old new [] = []"
| "replace_first old new (c # s) =
     (if has_prefix old (c # s) then new @ drop (length old) (c # s)
      else c # replace_first old new s)"

text \<open>\<open>getenv\<close> is the value of \<open>BEAMD_AUTH_VERIFY_SECRET\<close>.\<close>

definition newHostnamesClient :: "string \<Rightarrow> string \<Rightarrow> hostnamesClient option" where
  "newHostnamesClient getenv tokenStore =
     (if \<not> has_prefix ''http://'' tokenStore \<and> \<not> has_prefix ''https://'' tokenStore then None
      else (let u = replace_first ''/verify-token'' ''/scope-hostnames'' tokenStore;
                u = (if u = tokenStore then
                       (case last_index_byte CHR ''/'' tokenStore of
                          None \<Rightarrow> u
                        | Some i \<Rightarrow> take i tokenStore @ ''/scope-hostnames'')
                     else u)
            in Some \<lparr>hc_url = u, hc_secret = getenv, hc_ttl = minutes 5, hc_cache = []\<rparr>))"

text \<open>\<open>url.QueryEscape\<close>.\<close>

definition hex_digit :: "nat \<Rightarrow> char" where
  "hex_digit n = (if n < 10 then char_of (48 + n) else char_of (55 + n))"

definition unreserved :: "char \<Rightarrow> bool" where
  "unreserved c \<longleftrightarrow> in_rng 48 57 c \<or> in_rng 65 90 c \<or> in_rng 97 122 c \<or>
     c \<in> {CHR ''-'', CHR ''_'', CHR ''.'', CHR ''~''}"

definition queryEscape :: "string \<Rightarrow> string" where
  "queryEscape s =
     concat (map (\<lambda>c. if c = CHR '' '' then ''+'' else if unreserved c then [c]
                      else [CHR ''%'', hex_digit (of_char c div 16), hex_digit (of_char c mod 16)]) s)"

text \<open>
  One HTTP exchange with the control plane: from the URL and the value of the
  \<open>Authorization\<close> header (empty when none is sent) to nothing, where the request cannot be
  built or sent, or to the status code and the decoded body (\<open>None\<close> when it does not decode).
\<close>

type_synonym 'b http = "string \<Rightarrow> string \<Rightarrow> (nat \<times> 'b option) option"

definition hn_fetch :: "scopeHostnames http \<Rightarrow> hostnamesClient \<Rightarrow> string \<Rightarrow> scopeHostnames option" where
  "hn_fetch http c slug =
     (let auth = (if hc_secret c \<noteq> [] then ''Bearer '' @ hc_secret c else [])
      in case http (hc_url c @ ''?slug='' @ queryEscape slug) auth of
           None \<Rightarrow> None
         | Some (status, body) \<Rightarrow> if status \<noteq> 200 then None else body)"

text \<open>\<open>get\<close> reads the clock when it looks at the cache and again when it stores a reply.\<close>

definition hn_get ::
    "scopeHostnames http \<Rightarrow> time \<Rightarrow> time \<Rightarrow> hostnamesClient \<Rightarrow> string \<Rightarrow>
     scopeHostnames option \<times> hostnamesClient" where
  "hn_get http now now' c slug =
     (case map_of (hc_cache c) slug of
        Some e \<Rightarrow>
          if now - he_at e < hc_ttl c then (Some (he_val e), c)
          else (case hn_fetch http c slug of
                  None \<Rightarrow> (None, c)
                | Some v \<Rightarrow> (Some v, c\<lparr>hc_cache := AList.update slug \<lparr>he_val = v, he_at = now'\<rparr> (hc_cache c)\<rparr>))
      | None \<Rightarrow>
          (case hn_fetch http c slug of
             None \<Rightarrow> (None, c)
           | Some v \<Rightarrow> (Some v, c\<lparr>hc_cache := AList.update slug \<lparr>he_val = v, he_at = now'\<rparr> (hc_cache c)\<rparr>)))"

definition add_host :: "string list \<Rightarrow> string \<Rightarrow> string list" where
  "add_host hosts h = (if h \<noteq> [] \<and> h \<notin> set hosts then hosts @ [h] else hosts)"

text \<open>The last domain marked primary wins, as the loop overwrites the variable.\<close>

definition primary_domain :: "scopeDomain list \<Rightarrow> string" where
  "primary_domain ds = foldl (\<lambda>p d. if sd_primary d then sd_domain d else p) [] ds"

definition scope_hosts :: "string \<Rightarrow> string \<Rightarrow> string \<Rightarrow> shape \<Rightarrow> scopeHostnames \<Rightarrow> string list" where
  "scope_hosts name slug base sh scope =
     (let hosts = foldl (\<lambda>hs s. add_host hs (hostname name s base sh)) [] (sh_slugs scope);
          hosts = (if hosts = [] then add_host hosts (hostname name slug base sh) else hosts)
      in foldl (\<lambda>hs d. add_host hs (name @ ''.'' @ sd_domain d)) hosts (sh_domains scope))"

definition scope_primary :: "string \<Rightarrow> string \<Rightarrow> string \<Rightarrow> shape \<Rightarrow> scopeHostnames \<Rightarrow> string" where
  "scope_primary name slug base sh scope =
     (let pd = primary_domain (sh_domains scope);
          primary = (if pd \<noteq> [] then name @ ''.'' @ pd
                     else hostname name (if sh_primarySlug scope = [] then slug else sh_primarySlug scope) base sh)
      in if primary = [] then hostname name slug base sh else primary)"

definition hostsForTunnel ::
    "scopeHostnames http \<Rightarrow> time \<Rightarrow> time \<Rightarrow> string \<Rightarrow> shape \<Rightarrow> hostnamesClient option \<Rightarrow> string \<Rightarrow> string \<Rightarrow>
     (string list \<times> string) \<times> hostnamesClient option" where
  "hostsForTunnel http now now' base sh hc name slug =
     (let defaultHost = hostname name slug base sh
      in case hc of
           None \<Rightarrow> (([defaultHost], defaultHost), None)
         | Some c \<Rightarrow>
             (case hn_get http now now' c slug of
                (None, c') \<Rightarrow> (([defaultHost], defaultHost), Some c')
              | (Some scope, c') \<Rightarrow>
                  ((scope_hosts name slug base sh scope, scope_primary name slug base sh scope), Some c')))"

section \<open>Which hosts a tunnel may claim\<close>

lemma hostname_not_Nil [simp]: "hostname n s b sh \<noteq> []"
  by (simp add: hostname_def split: shape.splits)

text \<open>The labels in front of the base domain.\<close>

definition host_labels :: "string \<Rightarrow> string \<Rightarrow> shape \<Rightarrow> string" where
  "host_labels n s sh =
     (if s = [] \<or> sh = ShapeFlat then n else if sh = ShapeHyphen then n @ CHR ''-'' # s
      else n @ CHR ''.'' # s)"

lemma hostname_labels: "hostname n s b sh = host_labels n s sh @ ''.'' @ b"
  by (simp add: hostname_def host_labels_def split: shape.splits)

lemma set_add_host: "h \<noteq> [] \<Longrightarrow> set (add_host hs h) = insert h (set hs)"
  by (auto simp: add_host_def)

lemma distinct_add_host: "distinct hs \<Longrightarrow> distinct (add_host hs h)"
  by (auto simp: add_host_def)

lemma foldl_add_host:
  assumes "\<And>x. x \<in> set xs \<Longrightarrow> f x \<noteq> []"
  shows "set (foldl (\<lambda>hs x. add_host hs (f x)) hs0 xs) = set hs0 \<union> f ` set xs"
  using assms by (induction xs arbitrary: hs0) (auto simp: set_add_host)

lemma distinct_foldl_add_host:
  "distinct hs0 \<Longrightarrow> distinct (foldl (\<lambda>hs x. add_host hs (f x)) hs0 xs)"
  by (induction xs arbitrary: hs0) (auto simp: distinct_add_host)

lemma set_scope_hosts:
  "set (scope_hosts name slug base sh scope) =
     (if sh_slugs scope = [] then {hostname name slug base sh}
      else (\<lambda>s. hostname name s base sh) ` set (sh_slugs scope)) \<union>
     (\<lambda>d. name @ ''.'' @ sd_domain d) ` set (sh_domains scope)"
proof -
  let ?h0 = "foldl (\<lambda>hs s. add_host hs (hostname name s base sh)) [] (sh_slugs scope)"
  have h0: "set ?h0 = (\<lambda>s. hostname name s base sh) ` set (sh_slugs scope)"
    by (subst foldl_add_host) auto
  then have "?h0 = [] \<longleftrightarrow> sh_slugs scope = []" by (metis image_is_empty set_empty)
  moreover have "set (foldl (\<lambda>hs d. add_host hs (name @ ''.'' @ sd_domain d)) hs1 (sh_domains scope)) =
      set hs1 \<union> (\<lambda>d. name @ ''.'' @ sd_domain d) ` set (sh_domains scope)" for hs1
    by (subst foldl_add_host) auto
  ultimately show ?thesis using h0 by (auto simp: scope_hosts_def Let_def set_add_host)
qed

lemma distinct_scope_hosts: "distinct (scope_hosts name slug base sh scope)"
  by (simp add: scope_hosts_def Let_def distinct_foldl_add_host distinct_add_host)

lemma scope_hosts_not_Nil: "scope_hosts name slug base sh scope \<noteq> []"
  using set_scope_hosts [of name slug base sh scope] by (auto split: if_splits)

text \<open>
  What the control plane promises of a scope (documented in \<open>docs/url-model.md\<close>): slugs obey
  the slug rule, a custom domain is neither the base domain nor below it, and only a scope
  with a slug has such an entry.
\<close>

definition dom_ok :: "string \<Rightarrow> string \<Rightarrow> bool" where
  "dom_ok base d \<longleftrightarrow> d \<noteq> base \<and> \<not> has_suffix (''.'' @ base) d"

definition scope_ok :: "string \<Rightarrow> string \<Rightarrow> scopeHostnames \<Rightarrow> bool" where
  "scope_ok base slug scope \<longleftrightarrow>
     slugRegex slug \<and> list_all slugRegex (sh_slugs scope) \<and>
     list_all (\<lambda>d. dom_ok base (sd_domain d)) (sh_domains scope)"

definition cache_ok :: "string \<Rightarrow> hostnamesClient option \<Rightarrow> bool" where
  "cache_ok base hc \<longleftrightarrow> (case hc of None \<Rightarrow> True | Some c \<Rightarrow>
     (\<forall>(slug, e) \<in> set (hc_cache c). scope_ok base slug (he_val e)))"

text \<open>The control plane's replies obey the promise: the hypothesis on the argument \<open>http\<close>.\<close>

definition http_ok :: "string \<Rightarrow> hostnamesClient option \<Rightarrow> scopeHostnames http \<Rightarrow> bool" where
  "http_ok base hc http \<longleftrightarrow> (case hc of None \<Rightarrow> True | Some c \<Rightarrow>
     (\<forall>slug scope. hn_fetch http c slug = Some scope \<longrightarrow> scope_ok base slug scope))"

definition host_ok :: "string \<Rightarrow> shape \<Rightarrow> string \<Rightarrow> string \<Rightarrow> string \<Rightarrow> bool" where
  "host_ok base sh slug name h \<longleftrightarrow>
     (\<exists>s. (s = slug \<or> slugRegex slug \<and> slugRegex s) \<and> h = hostname name s base sh) \<or>
     (\<exists>d. dom_ok base d \<and> labelRegex name \<and> h = name @ ''.'' @ d)"

lemma base_domain_disjoint:
  assumes n: "CHR ''.'' \<notin> set n" and d: "dom_ok base d"
  shows "x @ ''.'' @ base \<noteq> n @ ''.'' @ d"
proof
  assume eq: "x @ ''.'' @ base = n @ ''.'' @ d"
  then have "(\<exists>u. x = n @ u \<and> u @ ''.'' @ base = ''.'' @ d) \<or> (\<exists>u. n = x @ u \<and> ''.'' @ base = u @ ''.'' @ d)"
    by (auto simp: append_eq_append_conv2)
  then show False
  proof
    assume "\<exists>u. x = n @ u \<and> u @ ''.'' @ base = ''.'' @ d"
    then obtain u where u: "u @ ''.'' @ base = CHR ''.'' # d" by auto
    then show False using d by (cases u) (auto simp: dom_ok_def has_suffix_iff)
  next
    assume "\<exists>u. n = x @ u \<and> ''.'' @ base = u @ ''.'' @ d"
    then obtain u where u: "n = x @ u" "CHR ''.'' # base = u @ CHR ''.'' # d" by auto
    then show False using d n by (cases u) (auto simp: dom_ok_def)
  qed
qed

text \<open>A host belongs to one name only: what keeps two tunnels of a session apart.\<close>

lemma slug_host_inj:
  assumes s: "s = slug \<or> slugRegex slug \<and> slugRegex s" and s': "s' = slug \<or> slugRegex slug \<and> slugRegex s'"
    and eq: "hostname n s b sh = hostname n' s' b sh"
  shows "n = n'"
proof -
  have labels: "host_labels n s sh = host_labels n' s' sh" using eq by (simp add: hostname_labels)
  show ?thesis
  proof (cases "s = s'")
    case True
    then show ?thesis using labels by (auto simp: host_labels_def split: if_splits)
  next
    case False
    then have "slugRegex s" "slugRegex s'" using s s' by auto
    note nos = slug_no_special [OF this(1)] slug_no_special [OF this(2)]
    then show ?thesis
      using labels last_sep_inj [of "CHR ''-''" s s' n n'] last_sep_inj [of "CHR ''.''" s s' n n']
      by (auto simp: host_labels_def split: if_splits)
  qed
qed

lemma slug_host_not_domain: "labelRegex n' \<Longrightarrow> dom_ok b d \<Longrightarrow> hostname n s b sh \<noteq> n' @ ''.'' @ d"
  using base_domain_disjoint [OF label_no_special(1)] by (simp add: hostname_labels)

lemma domain_host_inj: "labelRegex n \<Longrightarrow> labelRegex n' \<Longrightarrow> n @ ''.'' @ d = n' @ ''.'' @ d' \<Longrightarrow> n = n'"
  using first_sep_inj [OF label_no_special(1) label_no_special(1), of n n' d d'] by simp

lemma host_ok_inj:
  assumes "host_ok b sh slug n h" and "host_ok b sh slug n' h"
  shows "n = n'"
  using assms slug_host_inj slug_host_not_domain domain_host_inj unfolding host_ok_def by metis

lemma hn_get_disj:
  "(\<exists>e. map_of (hc_cache c) slug = Some e \<and> hn_get http now now' c slug = (Some (he_val e), c)) \<or>
   (hn_fetch http c slug = None \<and> hn_get http now now' c slug = (None, c)) \<or>
   (\<exists>v. hn_fetch http c slug = Some v \<and> hn_get http now now' c slug =
      (Some v, c\<lparr>hc_cache := AList.update slug \<lparr>he_val = v, he_at = now'\<rparr> (hc_cache c)\<rparr>))"
  by (cases "map_of (hc_cache c) slug"; cases "hn_fetch http c slug") (simp_all add: hn_get_def)

lemma hn_get_ok:
  assumes "cache_ok base (Some c)" and "http_ok base (Some c) http" and "hn_get http now now' c slug = (r, c')"
  shows "cache_ok base (Some c') \<and> hc_url c' = hc_url c \<and> hc_secret c' = hc_secret c \<and>
    (\<forall>scope. r = Some scope \<longrightarrow> scope_ok base slug scope)"
  using hn_get_disj [of c slug http now now']
proof (elim disjE exE conjE)
  fix e
  assume "map_of (hc_cache c) slug = Some e" "hn_get http now now' c slug = (Some (he_val e), c)"
  then show ?thesis using assms by (auto simp: cache_ok_def dest!: map_of_SomeD)
next
  assume "hn_fetch http c slug = None" "hn_get http now now' c slug = (None, c)"
  then show ?thesis using assms by auto
next
  fix v
  assume v: "hn_fetch http c slug = Some v" "hn_get http now now' c slug =
      (Some v, c\<lparr>hc_cache := AList.update slug \<lparr>he_val = v, he_at = now'\<rparr> (hc_cache c)\<rparr>)"
  then have "scope_ok base slug v" using assms(2) by (simp add: http_ok_def)
  then show ?thesis using assms v
    by (auto simp: cache_ok_def dest!: set_update_subset [THEN subsetD])
qed

lemma scope_hosts_ok:
  assumes "scope_ok base slug scope" and "labelRegex name" and "h \<in> set (scope_hosts name slug base sh scope)"
  shows "host_ok base sh slug name h"
  using assms by (auto simp: set_scope_hosts host_ok_def scope_ok_def list_all_iff split: if_splits)

lemma hostsForTunnel_ok:
  assumes "cache_ok base hc" and "http_ok base hc http" and "labelRegex name"
    and "hostsForTunnel http now now' base sh hc name slug = ((hosts, primary), hc')"
  shows "hosts \<noteq> [] \<and> distinct hosts \<and> (\<forall>h \<in> set hosts. host_ok base sh slug name h) \<and> cache_ok base hc'"
proof (cases hc)
  case None
  then show ?thesis using assms by (auto simp: hostsForTunnel_def Let_def host_ok_def cache_ok_def)
next
  case (Some c)
  obtain r c' where get: "hn_get http now now' c slug = (r, c')" by fastforce
  note ok = hn_get_ok [OF assms(1,2) [unfolded Some] get]
  show ?thesis
  proof (cases r)
    case None
    then show ?thesis using assms(4) ok Some get
      by (auto simp: hostsForTunnel_def Let_def host_ok_def)
  next
    case (Some scope)
    then show ?thesis using assms(3,4) ok \<open>hc = Some c\<close> get
      by (auto simp: hostsForTunnel_def Let_def scope_hosts_not_Nil distinct_scope_hosts scope_hosts_ok)
  qed
qed

text \<open>The control plane lists the slug it calls primary (or leaves both to the session's slug).\<close>

definition primary_listed :: "string \<Rightarrow> scopeHostnames \<Rightarrow> bool" where
  "primary_listed slug scope \<longleftrightarrow>
     (if sh_primarySlug scope = [] then sh_slugs scope = [] \<or> slug \<in> set (sh_slugs scope)
      else sh_primarySlug scope \<in> set (sh_slugs scope))"

lemma primary_domain_listed:
  "primary_domain ds \<noteq> [] \<Longrightarrow> primary_domain ds \<in> sd_domain ` set ds"
  unfolding primary_domain_def by (induction ds rule: rev_induct) (auto split: if_splits)

lemma scope_primary_in_hosts:
  "primary_listed slug scope \<Longrightarrow> scope_primary name slug base sh scope \<in> set (scope_hosts name slug base sh scope)"
  using primary_domain_listed [of "sh_domains scope"]
  by (auto simp: scope_primary_def Let_def set_scope_hosts primary_listed_def image_iff split: if_splits)

text \<open>
  The hosts of a tunnel (\<open>hostsForTunnel\<close>): never none and never twice the same, and,
  whenever the control plane lists the slug it calls primary among the scope's slugs, the host
  rendered to the client as the tunnel's URL is one of them.
\<close>

theorem hostsForTunnel_primary:
  assumes "hostsForTunnel http now now' base sh hc name slug = ((hosts, primary), hc')"
    and "\<And>c scope. hc = Some c \<Longrightarrow> fst (hn_get http now now' c slug) = Some scope \<Longrightarrow> primary_listed slug scope"
  shows "hosts \<noteq> [] \<and> distinct hosts \<and> primary \<in> set hosts"
  using assms
  by (auto simp: hostsForTunnel_def Let_def scope_hosts_not_Nil distinct_scope_hosts
      scope_primary_in_hosts split: option.splits prod.splits)

definition ex_scope :: scopeHostnames where
  "ex_scope = \<lparr>sh_primarySlug = ''ada'', sh_slugs = [''ada'', ''old''], sh_shape = ''hyphen'',
     sh_domains = [\<lparr>sd_domain = ''ada.dev'', sd_primary = False, sd_certMode = ''on_demand''\<rparr>],
     sh_primaryHost = []\<rparr>"

definition ex_http :: "scopeHostnames http" where
  "ex_http = (\<lambda>_ _. Some (200, Some ex_scope))"

definition ex_client :: hostnamesClient where
  "ex_client = \<lparr>hc_url = ''u'', hc_secret = [], hc_ttl = 1, hc_cache = []\<rparr>"

theorem hostsForTunnel_primary_witness:
  "fst (hostsForTunnel ex_http 0 0 ''b.io'' ShapeHyphen (Some ex_client) ''api'' ''ada'') =
     ([''api-ada.b.io'', ''api-old.b.io'', ''api.ada.dev''], ''api-ada.b.io'') \<and>
   ''api-ada.b.io'' \<in> set [''api-ada.b.io'', ''api-old.b.io'', ''api.ada.dev'']"
proof -
  obtain hc' where run: "hostsForTunnel ex_http 0 0 ''b.io'' ShapeHyphen (Some ex_client) ''api'' ''ada'' =
      (([''api-ada.b.io'', ''api-old.b.io'', ''api.ada.dev''], ''api-ada.b.io''), hc')"
    by (simp add: hostsForTunnel_def hn_get_def hn_fetch_def ex_http_def ex_client_def ex_scope_def
        scope_hosts_def scope_primary_def primary_domain_def add_host_def hostname_def)
  have listed: "Some ex_client = Some c \<Longrightarrow> fst (hn_get ex_http 0 0 c ''ada'') = Some sc \<Longrightarrow>
      primary_listed ''ada'' sc" for c sc
    by (auto simp: hn_get_def hn_fetch_def ex_http_def ex_client_def ex_scope_def primary_listed_def)
  show ?thesis using run hostsForTunnel_primary [OF run listed] by simp
qed

end
