(* ===== verification/Routes.thy ===== *)
theory Routes
  imports Hostnames
begin

text \<open>
  The edge's route table (\<open>src/internal/edge/edge.go\<close>: \<open>register\<close>, \<open>unregister\<close>, the locked
  part of \<open>dropSession\<close>, \<open>hostKnownForCert\<close>): which session serves which host. A session
  is a pointer in Go, here a number; its fields are in \<open>sess\<close>. A route is a pointer too:
  \<open>rt_id\<close> is its identity, fresh at every allocation. Each definition is one critical
  section of \<open>Edge.mu\<close> (with the \<open>Session.mu\<close> sections nested in or next to it).
\<close>

section \<open>State\<close>

record session =
  s_slug :: string
  s_closed :: bool  \<comment> \<open>\<open>transport.IsClosed()\<close>\<close>
  s_names :: "string list"
  s_hosts :: "(string, string list) gomap"

record route =
  rt_session :: nat
  rt_name :: string
  rt_id :: nat

record registry =
  baseDomain :: string
  urlShape :: shape
  maxTunnelsPerToken :: int
  hostnames :: "hostnamesClient option"
  sess :: "nat \<Rightarrow> session"
  sessions :: "nat list"
  routes :: "(string, route) gomap"
  proxies :: "string list"
  nextRoute :: nat
  activeTunnels :: int

datatype register_error =
    NameTooLong string string  \<comment> \<open>\<open>invalid_name\<close>\<close>
  | NameTaken string           \<comment> \<open>\<open>name_taken\<close>\<close>
  | TunnelOverLimit int        \<comment> \<open>\<open>over_limit\<close>\<close>

definition register_code :: "register_error \<Rightarrow> string" where
  "register_code err = (case err of NameTooLong _ _ \<Rightarrow> ''invalid_name'' | NameTaken _ \<Rightarrow> ''name_taken''
                        | TunnelOverLimit _ \<Rightarrow> ''over_limit'')"

section \<open>register\<close>

text \<open>The conflict check: the first host held by a live other session, or the dead tunnels found.\<close>

fun scan_hosts :: "'a registry_scheme \<Rightarrow> nat \<Rightarrow> string list \<Rightarrow> (nat \<times> string) list \<Rightarrow>
    string + (nat \<times> string) list" where
  "scan_hosts e sid [] displaced = Inr displaced"
| "scan_hosts e sid (h # hs) displaced =
     (case map_of (routes e) h of
        None \<Rightarrow> scan_hosts e sid hs displaced
      | Some r \<Rightarrow>
          if rt_session r = sid then scan_hosts e sid hs displaced
          else if s_closed (sess e (rt_session r))
          then scan_hosts e sid hs (List.insert (rt_session r, rt_name r) displaced)
          else Inl h)"

definition owned_by :: "nat \<times> string \<Rightarrow> string \<Rightarrow> route \<Rightarrow> bool" where
  "owned_by dk h r \<longleftrightarrow> rt_session r = fst dk \<and> rt_name r = snd dk"

definition forget_tunnel :: "string \<Rightarrow> session \<Rightarrow> session" where
  "forget_tunnel name s = s\<lparr>s_names := removeAll name (s_names s), s_hosts := AList.delete name (s_hosts s)\<rparr>"

text \<open>Reclaiming one dead tunnel: all its routes, their proxies and its session's bookkeeping.\<close>

definition evict_tunnel :: "nat \<times> string \<Rightarrow> 'a registry_scheme \<Rightarrow> 'a registry_scheme" where
  "evict_tunnel dk e =
     e\<lparr>routes := del_where (owned_by dk) (routes e),
       proxies := filter (\<lambda>h. \<not> (\<exists>r. map_of (routes e) h = Some r \<and> owned_by dk h r)) (proxies e),
       sess := (sess e)(fst dk := forget_tunnel (snd dk) (sess e (fst dk)))\<rparr>"

lemma evict_tunnel_code [code]:
  "evict_tunnel dk e =
     e\<lparr>routes := del_where (owned_by dk) (routes e),
       proxies := filter (\<lambda>h. case map_of (routes e) h of None \<Rightarrow> True | Some r \<Rightarrow> \<not> owned_by dk h r) (proxies e),
       sess := (sess e)(fst dk := forget_tunnel (snd dk) (sess e (fst dk)))\<rparr>"
  unfolding evict_tunnel_def by (rule arg_cong [where f = "\<lambda>p. e\<lparr>routes := _, proxies := p, sess := _\<rparr>"])
    (auto intro!: filter_cong split: option.splits)

definition live_tunnels :: "'a registry_scheme \<Rightarrow> string \<Rightarrow> nat" where
  "live_tunnels e slug =
     sum_list (map (\<lambda>s. if s_slug (sess e s) = slug then length (s_names (sess e s)) else 0) (sessions e))"

fun put_routes :: "nat \<Rightarrow> string \<Rightarrow> string list \<Rightarrow> 'a registry_scheme \<Rightarrow> 'a registry_scheme" where
  "put_routes sid name [] e = e"
| "put_routes sid name (h # hs) e =
     put_routes sid name hs
       (e\<lparr>routes := AList.update h \<lparr>rt_session = sid, rt_name = name, rt_id = nextRoute e\<rparr> (routes e),
          nextRoute := Suc (nextRoute e)\<rparr>)"

definition remember_tunnel :: "string \<Rightarrow> string list \<Rightarrow> session \<Rightarrow> session" where
  "remember_tunnel name hosts s =
     s\<lparr>s_names := List.insert name (s_names s), s_hosts := AList.update name hosts (s_hosts s)\<rparr>"

definition commit_tunnel :: "nat \<Rightarrow> string \<Rightarrow> string list \<Rightarrow> nat \<Rightarrow> 'a registry_scheme \<Rightarrow> 'a registry_scheme" where
  "commit_tunnel sid name hosts ndisplaced e =
     (let e = put_routes sid name hosts e
      in e\<lparr>sess := (sess e)(sid := remember_tunnel name hosts (sess e sid)),
           activeTunnels := activeTunnels e + (1 - int ndisplaced)\<rparr>)"

text \<open>The section under \<open>Edge.mu\<close>, from the idempotence check to the route table's update.\<close>

definition register_locked ::
    "nat \<Rightarrow> string \<Rightarrow> string list \<Rightarrow> string \<Rightarrow> 'a registry_scheme \<Rightarrow>
     (register_error + string) \<times> 'a registry_scheme" where
  "register_locked sid name hosts primary e =
     (if name \<in> set (s_names (sess e sid)) then (Inr (''https://'' @ primary), e)
      else (case scan_hosts e sid hosts [] of
              Inl h \<Rightarrow> (Inl (NameTaken h), e)
            | Inr displaced \<Rightarrow>
                (let e1 = fold evict_tunnel displaced e;
                     mx = maxTunnelsPerToken e1
                 in if 0 < mx \<and> mx \<le> int (live_tunnels e1 (s_slug (sess e1 sid)))
                    then (Inl (TunnelOverLimit mx), e1)
                    else (Inr (''https://'' @ primary), commit_tunnel sid name hosts (length displaced) e1))))"

definition register ::
    "scopeHostnames http \<Rightarrow> time \<Rightarrow> time \<Rightarrow> nat \<Rightarrow> string \<Rightarrow> 'a registry_scheme \<Rightarrow>
     (register_error + string) \<times> 'a registry_scheme" where
  "register http now now' sid name e =
     (let slug = s_slug (sess e sid)
      in if slug \<noteq> [] \<and> urlShape e = ShapeHyphen \<and> 63 < length name + 1 + length slug
         then (Inl (NameTooLong name slug), e)
         else (case hostsForTunnel http now now' (baseDomain e) (urlShape e) (hostnames e) name slug of
                 ((hosts, primary), hc) \<Rightarrow>
                   register_locked sid name hosts primary (e\<lparr>hostnames := hc\<rparr>)))"

section \<open>unregister, dropSession, hostKnownForCert\<close>

definition unregister_hosts :: "nat \<Rightarrow> string \<Rightarrow> 'a registry_scheme \<Rightarrow> string list" where
  "unregister_hosts sid name e =
     (let hosts = get_or [] (s_hosts (sess e sid)) name
      in if hosts = [] then [hostname name (s_slug (sess e sid)) (baseDomain e) (urlShape e)] else hosts)"

definition held_by :: "nat \<Rightarrow> 'a registry_scheme \<Rightarrow> string \<Rightarrow> bool" where
  "held_by sid e h = (case map_of (routes e) h of None \<Rightarrow> False | Some r \<Rightarrow> rt_session r = sid)"

definition unregister :: "nat \<Rightarrow> string \<Rightarrow> 'a registry_scheme \<Rightarrow> 'a registry_scheme" where
  "unregister sid name e =
     (let gone = filter (held_by sid e) (unregister_hosts sid name e)
      in e\<lparr>routes := del_where (\<lambda>h r. h \<in> set gone) (routes e),
           proxies := filter (\<lambda>h. h \<notin> set gone) (proxies e),
           activeTunnels := activeTunnels e - (if gone \<noteq> [] then 1 else 0),
           sess := (sess e)(sid := forget_tunnel name (sess e sid))\<rparr>)"

text \<open>The part of \<open>dropSession\<close> under \<open>Edge.mu\<close>.\<close>

definition drop_routes :: "nat \<Rightarrow> 'a registry_scheme \<Rightarrow> 'a registry_scheme" where
  "drop_routes sid e =
     (let mine = filter (\<lambda>(h, r). rt_session r = sid) (routes e);
          removedNames = remdups (map (rt_name \<circ> snd) mine)
      in e\<lparr>sessions := removeAll sid (sessions e),
           routes := del_where (\<lambda>h r. rt_session r = sid) (routes e),
           proxies := filter (\<lambda>h. h \<notin> set (map fst mine)) (proxies e),
           activeTunnels := activeTunnels e - int (length removedNames)\<rparr>)"

text \<open>
  The session record a successful handshake allocates, entered into \<open>sessions\<close> by
  \<open>promoteAuthenticated\<close>; and the transport of a session dying.
\<close>

definition add_session :: "nat \<Rightarrow> string \<Rightarrow> bool \<Rightarrow> 'a registry_scheme \<Rightarrow> 'a registry_scheme" where
  "add_session sid slug closed e =
     e\<lparr>sessions := List.insert sid (sessions e),
       sess := (sess e)(sid := \<lparr>s_slug = slug, s_closed = closed, s_names = [], s_hosts = []\<rparr>)\<rparr>"

definition close_transport :: "nat \<Rightarrow> 'a registry_scheme \<Rightarrow> 'a registry_scheme" where
  "close_transport sid e = e\<lparr>sess := (sess e)(sid := (sess e sid)\<lparr>s_closed := True\<rparr>)\<rparr>"

definition hostKnownForCert :: "'a registry_scheme \<Rightarrow> string \<Rightarrow> bool" where
  "hostKnownForCert e name \<longleftrightarrow> equal_fold name (baseDomain e) \<or> map_of (routes e) name \<noteq> None"

definition routeCount :: "'a registry_scheme \<Rightarrow> nat" where
  "routeCount e = length (routes e)"

definition sessionCount :: "'a registry_scheme \<Rightarrow> nat" where
  "sessionCount e = length (sessions e)"

definition routeHosts :: "'a registry_scheme \<Rightarrow> string list" where
  "routeHosts e = map fst (routes e)"

lemmas [edge_defs] = register_def register_locked_def unregister_def drop_routes_def
  commit_tunnel_def evict_tunnel_def

section \<open>The abstract route table\<close>

text \<open>What the table means: the tunnel (session and name) that owns a host.\<close>

definition owner :: "'a registry_scheme \<Rightarrow> string \<Rightarrow> (nat \<times> string) option" where
  "owner e h = map_option (\<lambda>r. (rt_session r, rt_name r)) (map_of (routes e) h)"

definition tunnels :: "'a registry_scheme \<Rightarrow> (nat \<times> string) set" where
  "tunnels e = ran (owner e)"

lemma owner_frame [simp]:
  "owner (e\<lparr>hostnames := hc\<rparr>) = owner e" "owner (e\<lparr>sess := ss\<rparr>) = owner e"
  "owner (e\<lparr>activeTunnels := n\<rparr>) = owner e" "owner (e\<lparr>sessions := l\<rparr>) = owner e"
  "owner (e\<lparr>proxies := p\<rparr>) = owner e"
  by (simp_all add: owner_def fun_eq_iff)

lemma finite_tunnels [simp]: "finite (tunnels e)"
proof -
  have "tunnels e \<subseteq> (\<lambda>r. (rt_session r, rt_name r)) ` snd ` set (routes e)"
    by (force simp: tunnels_def ran_def owner_def dest: map_of_SomeD)
  then show ?thesis by (rule finite_subset) simp
qed

lemma in_tunnels: "t \<in> tunnels e \<longleftrightarrow> (\<exists>h. owner e h = Some t)"
  by (simp add: tunnels_def ran_def)

lemma owner_evict:
  "wf_map (routes e) \<Longrightarrow> owner (evict_tunnel dk e) h = (if owner e h = Some dk then None else owner e h)"
  by (cases dk) (auto simp: owner_def evict_tunnel_def map_of_del_where owned_by_def split: option.splits)

lemma evict_frame [simp]:
  "wf_map (routes e) \<Longrightarrow> wf_map (routes (evict_tunnel dk e))"
  "baseDomain (evict_tunnel dk e) = baseDomain e" "urlShape (evict_tunnel dk e) = urlShape e"
  "maxTunnelsPerToken (evict_tunnel dk e) = maxTunnelsPerToken e"
  "hostnames (evict_tunnel dk e) = hostnames e" "sessions (evict_tunnel dk e) = sessions e"
  "activeTunnels (evict_tunnel dk e) = activeTunnels e"
  "s_slug (sess (evict_tunnel dk e) s) = s_slug (sess e s)"
  "s_closed (sess (evict_tunnel dk e) s) = s_closed (sess e s)"
  by (simp_all add: evict_tunnel_def forget_tunnel_def)

lemma evicts_frame [simp]:
  "wf_map (routes e) \<Longrightarrow> wf_map (routes (fold evict_tunnel D e))"
  "baseDomain (fold evict_tunnel D e) = baseDomain e" "urlShape (fold evict_tunnel D e) = urlShape e"
  "maxTunnelsPerToken (fold evict_tunnel D e) = maxTunnelsPerToken e"
  "hostnames (fold evict_tunnel D e) = hostnames e" "sessions (fold evict_tunnel D e) = sessions e"
  "activeTunnels (fold evict_tunnel D e) = activeTunnels e"
  "s_slug (sess (fold evict_tunnel D e) s) = s_slug (sess e s)"
  "s_closed (sess (fold evict_tunnel D e) s) = s_closed (sess e s)"
  by (induction D arbitrary: e) simp_all

lemma owner_evicts:
  "wf_map (routes e) \<Longrightarrow>
   owner (fold evict_tunnel D e) h =
     (case owner e h of None \<Rightarrow> None | Some t \<Rightarrow> if t \<in> set D then None else Some t)"
  by (induction D arbitrary: e) (auto simp: owner_evict split: option.splits)

lemma put_routes_frame [simp]:
  "sess (put_routes sid n hs e) = sess e" "sessions (put_routes sid n hs e) = sessions e"
  "baseDomain (put_routes sid n hs e) = baseDomain e" "urlShape (put_routes sid n hs e) = urlShape e"
  "maxTunnelsPerToken (put_routes sid n hs e) = maxTunnelsPerToken e"
  "hostnames (put_routes sid n hs e) = hostnames e" "activeTunnels (put_routes sid n hs e) = activeTunnels e"
  "proxies (put_routes sid n hs e) = proxies e"
  "wf_map (routes e) \<Longrightarrow> wf_map (routes (put_routes sid n hs e))"
  by (induction hs arbitrary: e) simp_all

lemma owner_put_routes:
  "owner (put_routes sid n hs e) h = (if h \<in> set hs then Some (sid, n) else owner e h)"
  by (induction hs arbitrary: e) (auto simp: owner_def)

lemma evict_sess:
  "s_names (sess (evict_tunnel dk e) s) =
     (if s = fst dk then removeAll (snd dk) (s_names (sess e s)) else s_names (sess e s))"
  "s_hosts (sess (evict_tunnel dk e) s) =
     (if s = fst dk then AList.delete (snd dk) (s_hosts (sess e s)) else s_hosts (sess e s))"
  by (simp_all add: evict_tunnel_def forget_tunnel_def)

lemma evicts_names:
  "set (s_names (sess (fold evict_tunnel D e) s)) = set (s_names (sess e s)) - {n. (s, n) \<in> set D}"
  by (induction D arbitrary: e) (auto simp: evict_sess)

lemma evicts_hosts:
  "map_of (s_hosts (sess (fold evict_tunnel D e) s)) n =
     (if (s, n) \<in> set D then None else map_of (s_hosts (sess e s)) n)"
  by (induction D arbitrary: e) (auto simp: evict_sess)

lemma evicts_distinct: "distinct (s_names (sess e s)) \<Longrightarrow> distinct (s_names (sess (fold evict_tunnel D e) s))"
proof (induction D arbitrary: e)
  case (Cons dk D)
  have "distinct (s_names (sess (evict_tunnel dk e) s))"
    using Cons.prems by (auto simp: evict_sess distinct_removeAll)
  then show ?case by (simp add: Cons.IH)
qed simp

lemma evicts_wf: "wf_map (s_hosts (sess e s)) \<Longrightarrow> wf_map (s_hosts (sess (fold evict_tunnel D e) s))"
proof (induction D arbitrary: e)
  case (Cons dk D)
  have "wf_map (s_hosts (sess (evict_tunnel dk e) s))" using Cons.prems by (auto simp: evict_sess)
  then show ?case by (simp add: Cons.IH)
qed simp

lemmas evicts_sess = evicts_names evicts_hosts evicts_distinct evicts_wf

lemma scan_hosts_Inr:
  assumes "scan_hosts e sid hs D0 = Inr D"
  shows "set D = set D0 \<union> {t. \<exists>h \<in> set hs. owner e h = Some t \<and> fst t \<noteq> sid}"
    and "distinct D0 \<Longrightarrow> distinct D"
    and "\<forall>t \<in> set D - set D0. s_closed (sess e (fst t))"
proof -
  show "set D = set D0 \<union> {t. \<exists>h \<in> set hs. owner e h = Some t \<and> fst t \<noteq> sid}"
    using assms by (induction hs arbitrary: D0) (auto simp: owner_def split: option.splits if_splits)
  show "distinct D0 \<Longrightarrow> distinct D"
    using assms
  proof (induction hs arbitrary: D0)
    case (Cons h hs)
    then show ?case using Cons.IH [of "List.insert _ D0"]
      by (auto simp: distinct_insert split: option.splits if_splits)
  qed simp
  show "\<forall>t \<in> set D - set D0. s_closed (sess e (fst t))"
    using assms by (induction hs arbitrary: D0) (force split: option.splits if_splits)+
qed

lemma scan_hosts_Inl:
  assumes "scan_hosts e sid hs D0 = Inl h"
  shows "h \<in> set hs \<and> (\<exists>t. owner e h = Some t \<and> fst t \<noteq> sid \<and> \<not> s_closed (sess e (fst t)))"
  using assms by (induction hs arbitrary: D0) (auto simp: owner_def split: option.splits if_splits)

section \<open>The invariant\<close>

text \<open>
  The route table is the inverse of what the authenticated sessions remember: a host is
  routed to a tunnel exactly when the tunnel's session is in \<open>sessions\<close> and lists the host
  for the tunnel's name.
\<close>

definition serves :: "'a registry_scheme \<Rightarrow> nat \<times> string \<Rightarrow> string \<Rightarrow> bool" where
  "serves e t h \<longleftrightarrow> fst t \<in> set (sessions e) \<and>
     (\<exists>hs. map_of (s_hosts (sess e (fst t))) (snd t) = Some hs \<and> h \<in> set hs)"

definition session_inv :: "string \<Rightarrow> shape \<Rightarrow> session \<Rightarrow> bool" where
  "session_inv base sh s \<longleftrightarrow>
     distinct (s_names s) \<and> wf_map (s_hosts s) \<and> set (s_names s) = dom (map_of (s_hosts s)) \<and>
     (\<forall>n hs. map_of (s_hosts s) n = Some hs \<longrightarrow> hs \<noteq> [] \<and> (\<forall>h \<in> set hs. host_ok base sh (s_slug s) n h))"

definition registry_inv :: "'a registry_scheme \<Rightarrow> bool" where
  "registry_inv e \<longleftrightarrow>
     wf_map (routes e) \<and> distinct (sessions e) \<and> cache_ok (baseDomain e) (hostnames e) \<and>
     (\<forall>s. session_inv (baseDomain e) (urlShape e) (sess e s)) \<and>
     (\<forall>h t. owner e h = Some t \<longleftrightarrow> serves e t h)"

lemma registry_invD:
  assumes "registry_inv e"
  shows "wf_map (routes e)" "distinct (sessions e)" "cache_ok (baseDomain e) (hostnames e)"
    "session_inv (baseDomain e) (urlShape e) (sess e s)" "owner e h = Some t \<longleftrightarrow> serves e t h"
  using assms unfolding registry_inv_def by blast+

lemma session_inv_frame [simp]:
  "session_inv b sh (s\<lparr>s_closed := c\<rparr>) = session_inv b sh s"
  by (simp add: session_inv_def)

lemma session_inv_forget: "session_inv b sh s \<Longrightarrow> session_inv b sh (forget_tunnel n s)"
  by (auto simp: session_inv_def forget_tunnel_def distinct_removeAll split: if_splits)

lemma session_inv_remember:
  "session_inv b sh s \<Longrightarrow> hosts \<noteq> [] \<Longrightarrow> (\<And>h. h \<in> set hosts \<Longrightarrow> host_ok b sh (s_slug s) n h) \<Longrightarrow>
   session_inv b sh (remember_tunnel n hosts s)"
  by (auto simp: session_inv_def remember_tunnel_def distinct_insert)

lemma tunnels_eq:
  assumes "registry_inv e"
  shows "tunnels e = (SIGMA s:set (sessions e). set (s_names (sess e s)))"
proof -
  have "t \<in> tunnels e \<longleftrightarrow> fst t \<in> set (sessions e) \<and> snd t \<in> set (s_names (sess e (fst t)))" for t
    using registry_invD(4) [OF assms, of "fst t"]
    by (fastforce simp: in_tunnels registry_invD(5) [OF assms] serves_def session_inv_def neq_Nil_conv)
  then show ?thesis by auto
qed

text \<open>The cap check counts the tunnels the table serves for the slug.\<close>

lemma live_tunnels_card:
  assumes "registry_inv e"
  shows "live_tunnels e slug = card {t \<in> tunnels e. s_slug (sess e (fst t)) = slug}"
proof -
  let ?S = "{s \<in> set (sessions e). s_slug (sess e s) = slug}"
  have "{t \<in> tunnels e. s_slug (sess e (fst t)) = slug} = (SIGMA s:?S. set (s_names (sess e s)))"
    by (auto simp: tunnels_eq [OF assms])
  moreover have "card (set (s_names (sess e s))) = length (s_names (sess e s))" for s
    using registry_invD(4) [OF assms, of s] unfolding session_inv_def by (blast intro: distinct_card)
  moreover have "live_tunnels e slug = (\<Sum>s \<in> set (sessions e). if s_slug (sess e s) = slug then length (s_names (sess e s)) else 0)"
    using registry_invD(2) [OF assms] by (simp add: live_tunnels_def sum_list_distinct_conv_sum_set)
  ultimately show ?thesis by (simp add: sum.If_cases Int_def)
qed

section \<open>Every operation keeps the invariant\<close>

lemma registry_inv_hostnames:
  "registry_inv e \<Longrightarrow> cache_ok (baseDomain e) hc \<Longrightarrow> registry_inv (e\<lparr>hostnames := hc\<rparr>)"
  by (simp add: registry_inv_def serves_def)

lemma serves_evicts: "serves (fold evict_tunnel D e) t h \<longleftrightarrow> serves e t h \<and> t \<notin> set D"
  by (auto simp: serves_def evicts_sess)

lemma session_inv_evicts:
  "session_inv b sh (sess e s) \<Longrightarrow> session_inv b sh (sess (fold evict_tunnel D e) s)"
  by (auto simp: session_inv_def evicts_sess split: if_splits)

lemma owner_evicts_Some:
  "wf_map (routes e) \<Longrightarrow> owner (fold evict_tunnel D e) h = Some t \<longleftrightarrow> owner e h = Some t \<and> t \<notin> set D"
  by (auto simp: owner_evicts split: option.splits)

lemma registry_inv_evicts: "registry_inv e \<Longrightarrow> registry_inv (fold evict_tunnel D e)"
  unfolding registry_inv_def by (simp add: owner_evicts_Some serves_evicts session_inv_evicts)

text \<open>A session's new tunnel can never collide with a tunnel of its own: names determine hosts.\<close>

lemma own_host_free:
  assumes "registry_inv e" and "owner e h = Some (sid, n)"
    and "host_ok (baseDomain e) (urlShape e) (s_slug (sess e sid)) name h"
  shows "n = name \<and> name \<in> set (s_names (sess e sid))"
proof -
  obtain hs where hs: "map_of (s_hosts (sess e sid)) n = Some hs" "h \<in> set hs"
    using assms(1,2) registry_invD(5) [of e h "(sid, n)"] by (auto simp: serves_def)
  have inv: "session_inv (baseDomain e) (urlShape e) (sess e sid)" by (rule registry_invD(4) [OF assms(1)])
  then have "host_ok (baseDomain e) (urlShape e) (s_slug (sess e sid)) n h"
    using hs by (auto simp: session_inv_def)
  then have "n = name" using assms(3) by (rule host_ok_inj)
  moreover have "n \<in> set (s_names (sess e sid))" using inv hs(1) by (auto simp: session_inv_def)
  ultimately show ?thesis by simp
qed

lemma serves_commit:
  assumes "registry_inv e" and "sid \<in> set (sessions e)" and "name \<notin> set (s_names (sess e sid))"
  shows "serves (commit_tunnel sid name hosts k e) t h \<longleftrightarrow> serves e t h \<or> t = (sid, name) \<and> h \<in> set hosts"
proof -
  have "map_of (s_hosts (sess e sid)) name = None"
    using assms(3) registry_invD(4) [OF assms(1), of sid] by (auto simp: session_inv_def domIff)
  then show ?thesis using assms(2)
    by (cases t) (auto simp: serves_def commit_tunnel_def Let_def remember_tunnel_def)
qed

lemma owner_commit:
  "owner (commit_tunnel sid name hosts k e) h = (if h \<in> set hosts then Some (sid, name) else owner e h)"
  by (simp add: commit_tunnel_def Let_def owner_put_routes)

lemma registry_inv_commit:
  assumes inv: "registry_inv e" and sid: "sid \<in> set (sessions e)"
    and fresh: "name \<notin> set (s_names (sess e sid))" and ne: "hosts \<noteq> []"
    and ok: "\<And>h. h \<in> set hosts \<Longrightarrow> host_ok (baseDomain e) (urlShape e) (s_slug (sess e sid)) name h"
    and free: "\<And>h t. h \<in> set hosts \<Longrightarrow> owner e h = Some t \<Longrightarrow> fst t = sid"
  shows "registry_inv (commit_tunnel sid name hosts k e)"
proof -
  have none: "owner e h = None" if "h \<in> set hosts" for h
    using own_host_free [OF inv _ ok [OF that]] free [OF that] fresh by (cases "owner e h") auto
  have own: "owner (commit_tunnel sid name hosts k e) h = Some t \<longleftrightarrow>
      serves (commit_tunnel sid name hosts k e) t h" for h t
    using none [of h] registry_invD(5) [OF inv, of h t]
    by (auto simp: serves_commit [OF inv sid fresh] owner_commit)
  have "session_inv (baseDomain e) (urlShape e) (remember_tunnel name hosts (sess e sid))"
    using registry_invD(4) [OF inv] ne ok by (rule session_inv_remember)
  then show ?thesis using own registry_invD [OF inv]
    unfolding registry_inv_def by (simp add: commit_tunnel_def Let_def)
qed

lemma register_locked_cases [consumes 1, case_names again taken over commit]:
  assumes run: "register_locked sid name hosts primary e = (r, e')"
  obtains (again) "name \<in> set (s_names (sess e sid))" "r = Inr (''https://'' @ primary)" "e' = e"
  | (taken) h where "name \<notin> set (s_names (sess e sid))" "scan_hosts e sid hosts [] = Inl h"
      "r = Inl (NameTaken h)" "e' = e"
  | (over) D where "name \<notin> set (s_names (sess e sid))" "scan_hosts e sid hosts [] = Inr D"
      "r = Inl (TunnelOverLimit (maxTunnelsPerToken e))" "e' = fold evict_tunnel D e"
      "0 < maxTunnelsPerToken e" "maxTunnelsPerToken e \<le> int (live_tunnels e' (s_slug (sess e sid)))"
  | (commit) D where "name \<notin> set (s_names (sess e sid))" "scan_hosts e sid hosts [] = Inr D"
      "r = Inr (''https://'' @ primary)"
      "e' = commit_tunnel sid name hosts (length D) (fold evict_tunnel D e)"
      "0 < maxTunnelsPerToken e \<Longrightarrow>
       int (live_tunnels (fold evict_tunnel D e) (s_slug (sess e sid))) < maxTunnelsPerToken e"
proof (cases "name \<in> set (s_names (sess e sid))")
  case True
  show ?thesis by (rule again [OF True]) (use run True in \<open>simp_all add: register_locked_def\<close>)
next
  case fresh: False
  show ?thesis
  proof (cases "scan_hosts e sid hosts []")
    case (Inl h)
    show ?thesis by (rule taken [OF fresh Inl]) (use run fresh Inl in \<open>simp_all add: register_locked_def\<close>)
  next
    case (Inr D)
    let ?e = "fold evict_tunnel D e"
    show ?thesis
    proof (cases "0 < maxTunnelsPerToken e \<and> maxTunnelsPerToken e \<le> int (live_tunnels ?e (s_slug (sess e sid)))")
      case True
      show ?thesis by (rule over [OF fresh Inr]) (use True run fresh Inr in \<open>simp_all add: register_locked_def Let_def\<close>)
    next
      case False
      show ?thesis by (rule commit [OF fresh Inr]) (use False run fresh Inr in \<open>auto simp: register_locked_def Let_def\<close>)
    qed
  qed
qed

text \<open>After the reclaim no other session is left on a host of the new tunnel.\<close>

lemma evicts_free:
  assumes "wf_map (routes e)" and "scan_hosts e sid hosts [] = Inr D" and "h \<in> set hosts"
    and "owner (fold evict_tunnel D e) h = Some t"
  shows "fst t = sid"
  using assms scan_hosts_Inr(1) [OF assms(2)] by (auto simp: owner_evicts_Some)

lemma evicts_own_names:
  assumes "scan_hosts e sid hosts [] = Inr D"
  shows "set (s_names (sess (fold evict_tunnel D e) sid)) = set (s_names (sess e sid))"
  using scan_hosts_Inr(1) [OF assms] by (auto simp: evicts_sess)

lemma registry_inv_locked:
  assumes inv: "registry_inv e" and sid: "sid \<in> set (sessions e)" and ne: "hosts \<noteq> []"
    and ok: "\<And>h. h \<in> set hosts \<Longrightarrow> host_ok (baseDomain e) (urlShape e) (s_slug (sess e sid)) name h"
    and run: "register_locked sid name hosts primary e = (r, e')"
  shows "registry_inv e'"
  using run
proof (cases rule: register_locked_cases)
  case (commit D)
  show ?thesis unfolding commit(4)
  proof (rule registry_inv_commit [OF registry_inv_evicts [OF inv] _ _ ne])
    show "name \<notin> set (s_names (sess (fold evict_tunnel D e) sid))"
      using commit(1) by (simp add: evicts_own_names [OF commit(2)])
    show "fst t = sid" if "h \<in> set hosts" "owner (fold evict_tunnel D e) h = Some t" for h t
      using evicts_free [OF registry_invD(1) [OF inv] commit(2)] that by blast
  qed (use sid ok in simp_all)
qed (use inv registry_inv_evicts in auto)

lemma registry_inv_register:
  assumes "registry_inv e" and "sid \<in> set (sessions e)" and "labelRegex name"
    and "http_ok (baseDomain e) (hostnames e) http"
  shows "registry_inv (snd (register http now now' sid name e))"
proof -
  let ?slug = "s_slug (sess e sid)"
  obtain hosts primary hc where h: "hostsForTunnel http now now' (baseDomain e) (urlShape e) (hostnames e) name ?slug =
      ((hosts, primary), hc)" by (metis surj_pair)
  note ok = hostsForTunnel_ok [OF registry_invD(3) [OF assms(1)] assms(4,3) h]
  let ?e = "e\<lparr>hostnames := hc\<rparr>"
  obtain r e' where run: "register_locked sid name hosts primary ?e = (r, e')" by fastforce
  have "registry_inv ?e" using assms(1) ok by (simp add: registry_inv_hostnames)
  then have "registry_inv e'"
    by (rule registry_inv_locked [OF _ _ _ _ run]) (use assms(2) ok in auto)
  then show ?thesis using assms(1) h run by (simp add: register_def Let_def)
qed

lemma unregister_hosts_known:
  "session_inv b sh (sess e sid) \<Longrightarrow> map_of (s_hosts (sess e sid)) name = Some hs \<Longrightarrow> unregister_hosts sid name e = hs"
  by (simp add: unregister_hosts_def get_or_def session_inv_def Let_def)

lemma unregister_hosts_unknown:
  "map_of (s_hosts (sess e sid)) name = None \<Longrightarrow>
   unregister_hosts sid name e = [hostname name (s_slug (sess e sid)) (baseDomain e) (urlShape e)]"
  by (simp add: unregister_hosts_def get_or_def)

text \<open>\<open>unregister\<close> removes the hosts of its own tunnel and no other, whatever the session sends.\<close>

lemma unregister_gone:
  assumes inv: "registry_inv e"
  shows "h \<in> set (unregister_hosts sid name e) \<and> held_by sid e h \<longleftrightarrow> owner e h = Some (sid, name)"
proof (cases "map_of (s_hosts (sess e sid)) name")
  case None
  have no: "name \<notin> set (s_names (sess e sid))"
    using registry_invD(4) [OF inv, of sid] None by (auto simp: session_inv_def)
  have "owner e h \<noteq> Some (sid, n)" if "h = hostname name (s_slug (sess e sid)) (baseDomain e) (urlShape e)" for n
    using own_host_free [OF inv, of h sid n name] no that by (auto simp: host_ok_def)
  moreover have "owner e h \<noteq> Some (sid, name)" using None registry_invD(5) [OF inv] by (auto simp: serves_def)
  ultimately show ?thesis
    by (auto simp: unregister_hosts_unknown [OF None] held_by_def owner_def split: option.splits)
next
  case (Some hs)
  have "owner e h = Some (sid, n) \<Longrightarrow> h \<in> set hs \<Longrightarrow> n = name" for n
  proof -
    assume h: "owner e h = Some (sid, n)" "h \<in> set hs"
    then have "host_ok (baseDomain e) (urlShape e) (s_slug (sess e sid)) name h"
      using registry_invD(4) [OF inv, of sid] Some by (auto simp: session_inv_def)
    then show "n = name" using own_host_free [OF inv h(1)] by blast
  qed
  moreover have "owner e h = Some (sid, name) \<Longrightarrow> h \<in> set hs"
    using registry_invD(5) [OF inv] Some by (auto simp: serves_def)
  moreover have "h \<in> set hs \<Longrightarrow> held_by sid e h \<Longrightarrow> \<exists>n. owner e h = Some (sid, n)"
    by (auto simp: held_by_def owner_def split: option.splits)
  ultimately show ?thesis
    by (auto simp: unregister_hosts_known [OF registry_invD(4) [OF inv] Some] held_by_def owner_def
        split: option.splits)
qed

lemma owner_unregister:
  assumes "registry_inv e"
  shows "owner (unregister sid name e) h = (if owner e h = Some (sid, name) then None else owner e h)"
  using unregister_gone [OF assms, of h sid name] registry_invD(1) [OF assms]
  by (auto simp: owner_def unregister_def Let_def map_of_del_where split: option.splits)

lemma owner_unregister_Some:
  "registry_inv e \<Longrightarrow> owner (unregister sid name e) h = Some t \<longleftrightarrow> owner e h = Some t \<and> t \<noteq> (sid, name)"
  by (auto simp: owner_unregister split: if_splits)

lemma registry_inv_unregister:
  assumes inv: "registry_inv e"
  shows "registry_inv (unregister sid name e)"
proof -
  have "serves (unregister sid name e) t h \<longleftrightarrow> serves e t h \<and> t \<noteq> (sid, name)" for t h
    by (cases t) (auto simp: serves_def unregister_def Let_def forget_tunnel_def)
  then have "owner (unregister sid name e) h = Some t \<longleftrightarrow> serves (unregister sid name e) t h" for t h
    by (simp add: owner_unregister_Some [OF inv] registry_invD(5) [OF inv])
  then show ?thesis using registry_invD(1-4) [OF inv] session_inv_forget
    unfolding registry_inv_def by (simp add: unregister_def Let_def)
qed

lemma owner_drop:
  "wf_map (routes e) \<Longrightarrow> owner (drop_routes sid e) h =
     (case owner e h of None \<Rightarrow> None | Some t \<Rightarrow> if fst t = sid then None else Some t)"
  by (auto simp: owner_def drop_routes_def Let_def map_of_del_where split: option.splits)

lemma owner_drop_Some:
  "wf_map (routes e) \<Longrightarrow> owner (drop_routes sid e) h = Some t \<longleftrightarrow> owner e h = Some t \<and> fst t \<noteq> sid"
  by (auto simp: owner_drop split: option.splits if_splits)

lemma registry_inv_drop:
  assumes inv: "registry_inv e"
  shows "registry_inv (drop_routes sid e)"
proof -
  have "serves (drop_routes sid e) t h \<longleftrightarrow> serves e t h \<and> fst t \<noteq> sid" for t h
    by (auto simp: serves_def drop_routes_def Let_def)
  then have "owner (drop_routes sid e) h = Some t \<longleftrightarrow> serves (drop_routes sid e) t h" for t h
    by (simp add: owner_drop_Some [OF registry_invD(1) [OF inv]] registry_invD(5) [OF inv])
  then show ?thesis using registry_invD(1-4) [OF inv]
    unfolding registry_inv_def by (simp add: drop_routes_def Let_def distinct_removeAll)
qed

lemma owner_add_session [simp]: "owner (add_session sid slug c e) = owner e"
  and owner_close_transport [simp]: "owner (close_transport sid e) = owner e"
  by (simp_all add: add_session_def close_transport_def)

lemma registry_inv_add_session:
  assumes inv: "registry_inv e" and "sid \<notin> set (sessions e)"
  shows "registry_inv (add_session sid slug c e)"
proof -
  have "serves (add_session sid slug c e) t h \<longleftrightarrow> serves e t h" for t h
    using assms(2) by (auto simp: serves_def add_session_def)
  then have "owner (add_session sid slug c e) h = Some t \<longleftrightarrow> serves (add_session sid slug c e) t h" for t h
    using registry_invD(5) [OF inv] by simp
  then show ?thesis using registry_invD(1-4) [OF inv]
    unfolding registry_inv_def by (simp add: add_session_def distinct_insert) (simp add: session_inv_def)
qed

lemma registry_inv_close_transport:
  assumes inv: "registry_inv e"
  shows "registry_inv (close_transport sid e)"
proof -
  have "serves (close_transport sid e) t h \<longleftrightarrow> serves e t h" for t h
    by (simp add: serves_def close_transport_def)
  then have "owner (close_transport sid e) h = Some t \<longleftrightarrow> serves (close_transport sid e) t h" for t h
    using registry_invD(5) [OF inv] by simp
  then show ?thesis using registry_invD(1-4) [OF inv]
    unfolding registry_inv_def by (simp add: close_transport_def)
qed

section \<open>Steps of the edge on its route table\<close>

text \<open>
  Who may call what: a handshake allocates a new session; the control loop of a session in
  \<open>sessions\<close> registers (after \<open>handleControlMsg\<close> has validated the label) and unregisters;
  its deferred \<open>dropSession\<close> ends it; a transport may die at any moment.
\<close>

inductive edge_step_of :: "nat \<Rightarrow> registry \<Rightarrow> registry \<Rightarrow> bool" for sid :: nat where
  step_open: "sid \<notin> set (sessions e) \<Longrightarrow> edge_step_of sid e (add_session sid slug c e)"
| step_register: "sid \<in> set (sessions e) \<Longrightarrow> labelRegex name \<Longrightarrow> http_ok (baseDomain e) (hostnames e) http \<Longrightarrow>
    edge_step_of sid e (snd (register http now now' sid name e))"
| step_unregister: "sid \<in> set (sessions e) \<Longrightarrow> edge_step_of sid e (unregister sid name e)"
| step_drop: "sid \<in> set (sessions e) \<Longrightarrow> edge_step_of sid e (drop_routes sid e)"
| step_close: "edge_step_of sid e (close_transport sid e)"

abbreviation edge_step :: "registry \<Rightarrow> registry \<Rightarrow> bool" where
  "edge_step e e' \<equiv> \<exists>sid. edge_step_of sid e e'"

definition edge_init :: "string \<Rightarrow> shape \<Rightarrow> int \<Rightarrow> hostnamesClient option \<Rightarrow> registry" where
  "edge_init base sh mx hc =
     \<lparr>baseDomain = base, urlShape = sh, maxTunnelsPerToken = mx, hostnames = hc,
      sess = (\<lambda>_. \<lparr>s_slug = [], s_closed = True, s_names = [], s_hosts = []\<rparr>), sessions = [],
      routes = [], proxies = [], nextRoute = 0, activeTunnels = 0\<rparr>"

lemma edge_init_inv: "cache_ok base hc \<Longrightarrow> registry_inv (edge_init base sh mx hc)"
  by (simp add: registry_inv_def edge_init_def session_inv_def owner_def serves_def)

lemma tunnels_init [simp]: "tunnels (edge_init base sh mx hc) = {}"
  by (auto simp: in_tunnels owner_def edge_init_def)

lemma edge_step_inv: "edge_step_of sid e e' \<Longrightarrow> registry_inv e \<Longrightarrow> registry_inv e'"
  by (induction rule: edge_step_of.induct)
    (simp_all add: registry_inv_add_session registry_inv_register registry_inv_unregister
      registry_inv_drop registry_inv_close_transport)

lemma edge_steps_inv: "edge_step\<^sup>*\<^sup>* e e' \<Longrightarrow> registry_inv e \<Longrightarrow> registry_inv e'"
  by (induction rule: rtranclp_induct) (auto intro: edge_step_inv)

section \<open>The tunnel gauge and the per-token cap\<close>

definition drift :: "'a registry_scheme \<Rightarrow> int" where
  "drift e = activeTunnels e - int (card (tunnels e))"

lemma tunnels_evicts: "wf_map (routes e) \<Longrightarrow> tunnels (fold evict_tunnel D e) = tunnels e - set D"
  by (auto simp: in_tunnels owner_evicts_Some)

lemma tunnels_commit:
  assumes "hosts \<noteq> []" and "\<And>h. h \<in> set hosts \<Longrightarrow> owner e h = None"
  shows "tunnels (commit_tunnel sid name hosts k e) = insert (sid, name) (tunnels e)"
proof -
  have own: "owner (commit_tunnel sid name hosts k e) h = Some t \<longleftrightarrow>
      owner e h = Some t \<or> t = (sid, name) \<and> h \<in> set hosts" for h t
    using assms(2) by (auto simp: owner_commit)
  have "\<exists>h. h \<in> set hosts" using assms(1) by (auto simp: neq_Nil_conv)
  then have "t \<in> tunnels (commit_tunnel sid name hosts k e) \<longleftrightarrow> t \<in> insert (sid, name) (tunnels e)" for t
    unfolding in_tunnels own by (auto simp: in_tunnels)
  then show ?thesis by blast
qed

lemma tunnels_unregister: "registry_inv e \<Longrightarrow> tunnels (unregister sid name e) = tunnels e - {(sid, name)}"
  by (auto simp: in_tunnels owner_unregister_Some)

lemma tunnels_drop: "wf_map (routes e) \<Longrightarrow> tunnels (drop_routes sid e) = tunnels e - {t. fst t = sid}"
  by (auto simp: in_tunnels owner_drop_Some)

lemma tunnels_frame [simp]:
  "tunnels (add_session sid slug c e) = tunnels e" "tunnels (close_transport sid e) = tunnels e"
  "tunnels (e\<lparr>hostnames := hc\<rparr>) = tunnels e"
  by (simp_all add: tunnels_def)

lemma drift_unregister:
  assumes inv: "registry_inv e"
  shows "drift (unregister sid name e) = drift e"
proof -
  have "filter (held_by sid e) (unregister_hosts sid name e) \<noteq> [] \<longleftrightarrow> (sid, name) \<in> tunnels e"
    using unregister_gone [OF inv, of _ sid name] by (auto simp: in_tunnels filter_empty_conv)
  then have "activeTunnels (unregister sid name e) = activeTunnels e - (if (sid, name) \<in> tunnels e then 1 else 0)"
    by (simp add: unregister_def Let_def)
  then show ?thesis
    using card_remove_subset [OF finite_tunnels, of "{(sid, name)}" e]
    by (auto simp: drift_def tunnels_unregister [OF inv])
qed

lemma drift_drop:
  assumes wf: "wf_map (routes e)"
  shows "drift (drop_routes sid e) = drift e"
proof -
  let ?mine = "filter (\<lambda>(h, r). rt_session r = sid) (routes e)"
  let ?T = "tunnels e \<inter> {t. fst t = sid}"
  have "t \<in> ?T \<longleftrightarrow> t \<in> Pair sid ` set (map (rt_name \<circ> snd) ?mine)" for t
  proof -
    have "t \<in> ?T \<longleftrightarrow> (\<exists>h r. (h, r) \<in> set (routes e) \<and> t = (rt_session r, rt_name r) \<and> rt_session r = sid)"
      by (auto simp: in_tunnels owner_def map_of_in_set [OF wf]) metis
    also have "\<dots> \<longleftrightarrow> t \<in> (\<lambda>p. (sid, rt_name (snd p))) ` {p \<in> set (routes e). rt_session (snd p) = sid}"
      by force
    finally show ?thesis by (simp add: image_comp comp_def case_prod_unfold)
  qed
  then have "?T = Pair sid ` set (map (rt_name \<circ> snd) ?mine)" by blast
  then have "card ?T = length (remdups (map (rt_name \<circ> snd) ?mine))"
    by (simp add: length_remdups_card card_image inj_on_def)
  moreover have "tunnels e - {t. fst t = sid} = tunnels e - ?T" by auto
  ultimately show ?thesis
    using card_remove_subset [OF finite_tunnels, of ?T e]
    by (simp add: drift_def tunnels_drop [OF wf]) (simp add: drop_routes_def Let_def)
qed

lemma scan_hosts_tunnels: "scan_hosts e sid hosts [] = Inr D \<Longrightarrow> set D \<subseteq> tunnels e \<and> distinct D"
  using scan_hosts_Inr(1,2) [of e sid hosts "[]" D] by (auto simp: in_tunnels)

lemma drift_evicts:
  "wf_map (routes e) \<Longrightarrow> set D \<subseteq> tunnels e \<Longrightarrow> distinct D \<Longrightarrow>
   drift (fold evict_tunnel D e) = drift e + int (length D)"
  by (simp add: drift_def tunnels_evicts card_remove_subset distinct_card)

text \<open>What a session's \<open>register\<close> does once its hosts are known, in one place for all that follows.\<close>

definition reg_run :: "nat \<Rightarrow> string \<Rightarrow> string list \<Rightarrow> string \<Rightarrow> registry \<Rightarrow> register_error + string \<Rightarrow> registry \<Rightarrow> bool" where
  "reg_run sid name hosts primary e r e' \<longleftrightarrow>
     registry_inv e \<and> sid \<in> set (sessions e) \<and> hosts \<noteq> [] \<and>
     (\<forall>h \<in> set hosts. host_ok (baseDomain e) (urlShape e) (s_slug (sess e sid)) name h) \<and>
     register_locked sid name hosts primary e = (r, e')"

lemma reg_runD:
  assumes "reg_run sid name hosts primary e r e'"
  shows "registry_inv e" "wf_map (routes e)" "sid \<in> set (sessions e)" "hosts \<noteq> []"
    "h \<in> set hosts \<Longrightarrow> host_ok (baseDomain e) (urlShape e) (s_slug (sess e sid)) name h"
    "register_locked sid name hosts primary e = (r, e')"
  using assms registry_invD(1) unfolding reg_run_def by blast+

lemma reclaimed_free:
  assumes R: "reg_run sid name hosts primary e r e'"
    and "name \<notin> set (s_names (sess e sid))" and D: "scan_hosts e sid hosts [] = Inr D" and h: "h \<in> set hosts"
  shows "owner (fold evict_tunnel D e) h = None"
proof (rule ccontr)
  assume "owner (fold evict_tunnel D e) h \<noteq> None"
  then obtain t where t: "owner (fold evict_tunnel D e) h = Some t" by auto
  then have "fst t = sid" using evicts_free [OF reg_runD(2) [OF R] D h] by blast
  moreover have "owner e h = Some t" using t by (simp add: owner_evicts_Some reg_runD(2) [OF R])
  ultimately show False using own_host_free [OF reg_runD(1) [OF R] _ reg_runD(5) [OF R h], of "snd t"] assms(2) by (cases t) auto
qed

lemma drift_run:
  assumes R: "reg_run sid name hosts primary e r e'"
  shows "drift e' = drift e + (case r of Inl (TunnelOverLimit _) \<Rightarrow>
     (case scan_hosts e sid hosts [] of Inr D \<Rightarrow> int (length D) | Inl _ \<Rightarrow> 0) | _ \<Rightarrow> 0)"
  using reg_runD(6) [OF R]
proof (cases rule: register_locked_cases)
  case (over D)
  then show ?thesis using drift_evicts [OF reg_runD(2) [OF R]] scan_hosts_tunnels [OF over(2)] by simp
next
  case (commit D)
  let ?e = "fold evict_tunnel D e"
  have tuns: "tunnels e' = insert (sid, name) (tunnels ?e)"
    unfolding commit(4) using reg_runD(4) [OF R] reclaimed_free [OF R commit(1,2)] by (rule tunnels_commit)
  have "(sid, name) \<notin> tunnels ?e"
    using commit(1) by (simp add: tunnels_eq [OF registry_inv_evicts [OF reg_runD(1) [OF R]]] evicts_own_names [OF commit(2)])
  moreover have "activeTunnels e' = activeTunnels e + (1 - int (length D))"
    unfolding commit(4) by (simp add: commit_tunnel_def Let_def)
  moreover have "drift ?e = drift e + int (length D)"
    using drift_evicts [OF reg_runD(2) [OF R]] scan_hosts_tunnels [OF commit(2)] by simp
  ultimately show ?thesis using commit(3) by (simp add: drift_def tuns)
qed simp_all

lemma other_live_kept:
  assumes R: "reg_run sid name hosts primary e r e'" and "owner e h = Some t" and "fst t \<noteq> sid" and "\<not> s_closed (sess e (fst t))"
  shows "owner e' h = Some t"
proof -
  have keep: "owner (fold evict_tunnel D e) h = Some t" if "scan_hosts e sid hosts [] = Inr D" for D
    using scan_hosts_Inr(3) [OF that] assms by (auto simp: owner_evicts_Some reg_runD(2) [OF R])
  show ?thesis using reg_runD(6) [OF R]
  proof (cases rule: register_locked_cases)
    case (commit D)
    then have "h \<notin> set hosts" using reclaimed_free [OF R commit(1,2)] keep [OF commit(2)] by auto
    then show ?thesis using commit(4) keep [OF commit(2)] by (simp add: owner_commit)
  qed (use assms(2) keep in auto)
qed

lemma other_kept_or_dead:
  assumes R: "reg_run sid name hosts primary e r e'" and "fst t \<noteq> sid" and "owner e' h = Some t"
  shows "owner e h = Some t"
  using reg_runD(6) [OF R] assms(2,3) by (cases rule: register_locked_cases)
    (auto simp: owner_commit owner_evicts_Some reg_runD(2) [OF R] split: if_splits)

lemma own_kept:
  assumes R: "reg_run sid name hosts primary e r e'" and "owner e h = Some (sid, n)"
  shows "owner e' h = Some (sid, n)"
proof -
  have keep: "owner (fold evict_tunnel D e) h = Some (sid, n)" if "scan_hosts e sid hosts [] = Inr D" for D
    using scan_hosts_Inr(1) [OF that] assms by (auto simp: owner_evicts_Some reg_runD(2) [OF R])
  show ?thesis using reg_runD(6) [OF R]
  proof (cases rule: register_locked_cases)
    case (commit D)
    then have "h \<notin> set hosts" using reclaimed_free [OF R commit(1,2)] keep [OF commit(2)] by auto
    then show ?thesis using commit(4) keep [OF commit(2)] by (simp add: owner_commit)
  qed (use assms(2) keep in auto)
qed

text \<open>From \<open>register\<close> to its locked section.\<close>

lemma register_cases [consumes 5, case_names long locked]:
  assumes inv: "registry_inv e" "sid \<in> set (sessions e)" "labelRegex name"
    "http_ok (baseDomain e) (hostnames e) http" and run: "register http now now' sid name e = (r, e')"
  obtains (long) "r = Inl (NameTooLong name (s_slug (sess e sid)))" "e' = e"
  | (locked) hosts primary hc where
      "hostsForTunnel http now now' (baseDomain e) (urlShape e) (hostnames e) name (s_slug (sess e sid)) =
         ((hosts, primary), hc)"
      "reg_run sid name hosts primary (e\<lparr>hostnames := hc\<rparr>) r e'"
proof -
  let ?slug = "s_slug (sess e sid)"
  obtain hosts primary hc where h: "hostsForTunnel http now now' (baseDomain e) (urlShape e) (hostnames e) name ?slug =
      ((hosts, primary), hc)" by (metis surj_pair)
  note ok = hostsForTunnel_ok [OF registry_invD(3) [OF inv(1)] inv(4,3) h]
  have "registry_inv (e\<lparr>hostnames := hc\<rparr>)" using inv(1) ok by (simp add: registry_inv_hostnames)
  then have "reg_run sid name hosts primary (e\<lparr>hostnames := hc\<rparr>) r e'"
    if "register_locked sid name hosts primary (e\<lparr>hostnames := hc\<rparr>) = (r, e')"
    using that inv(2) ok by (simp add: reg_run_def)
  then have locked': "reg_run sid name hosts primary (e\<lparr>hostnames := hc\<rparr>) r e'"
    if "\<not> (?slug \<noteq> [] \<and> urlShape e = ShapeHyphen \<and> 63 < length name + 1 + length ?slug)"
    using that run h by (simp only: register_def Let_def if_False prod.case)
  show thesis
  proof (cases "?slug \<noteq> [] \<and> urlShape e = ShapeHyphen \<and> 63 < length name + 1 + length ?slug")
    case True
    show thesis by (rule long) (use True run in \<open>auto simp: register_def\<close>)
  next
    case False
    show thesis using h locked' [OF False] by (rule locked)
  qed
qed

lemma drift_frame [simp]:
  "drift (e\<lparr>hostnames := hc\<rparr>) = drift e" "drift (add_session sid slug c e) = drift e"
  "drift (close_transport sid e) = drift e"
  by (simp_all add: drift_def) (simp_all add: add_session_def close_transport_def)

lemma drift_register_mono:
  fixes e :: registry
  assumes "registry_inv e" "sid \<in> set (sessions e)" "labelRegex name" "http_ok (baseDomain e) (hostnames e) http"
  shows "drift e \<le> drift (snd (register http now now' sid name e))"
proof -
  obtain r e' where run: "register http now now' sid name e = (r, e')" by fastforce
  from assms run have "drift e \<le> drift e'"
  proof (cases rule: register_cases)
    case (locked hosts primary hc)
    then show ?thesis by (auto simp: drift_run split: sum.splits register_error.splits)
  qed simp
  then show ?thesis by (simp add: run)
qed

lemma edge_step_drift: "edge_step_of sid e e' \<Longrightarrow> registry_inv e \<Longrightarrow> drift e \<le> drift e'"
  by (induction rule: edge_step_of.induct)
    (simp_all add: drift_register_mono drift_unregister drift_drop registry_invD(1))

definition cap_ok :: "'a registry_scheme \<Rightarrow> bool" where
  "cap_ok e \<longleftrightarrow> (\<forall>slug. 0 < maxTunnelsPerToken e \<longrightarrow> int (live_tunnels e slug) \<le> maxTunnelsPerToken e)"

lemma live_tunnels_mono:
  assumes "registry_inv e" "registry_inv e'" "tunnels e' \<subseteq> tunnels e"
    and "\<And>t. t \<in> tunnels e' \<Longrightarrow> s_slug (sess e' (fst t)) = s_slug (sess e (fst t))"
  shows "live_tunnels e' slug \<le> live_tunnels e slug"
  unfolding live_tunnels_card [OF assms(1)] live_tunnels_card [OF assms(2)]
  using assms(3,4) by (intro card_mono) auto

lemma cap_ok_mono:
  assumes "cap_ok e" "registry_inv e" "registry_inv e'" "tunnels e' \<subseteq> tunnels e"
    and "\<And>t. t \<in> tunnels e' \<Longrightarrow> s_slug (sess e' (fst t)) = s_slug (sess e (fst t))"
    and "maxTunnelsPerToken e' = maxTunnelsPerToken e"
  shows "cap_ok e'"
proof -
  have "int (live_tunnels e' slug) \<le> int (live_tunnels e slug)" for slug
    using live_tunnels_mono [OF assms(2-5)] by simp
  then show ?thesis using assms(1,6) unfolding cap_ok_def by (metis order.trans)
qed

lemma cap_ok_evicts: "registry_inv e \<Longrightarrow> cap_ok e \<Longrightarrow> cap_ok (fold evict_tunnel D e)"
  by (rule cap_ok_mono [of e]) (auto simp: registry_inv_evicts tunnels_evicts registry_invD(1))

lemma cap_ok_run:
  assumes R: "reg_run sid name hosts primary e r e'" and cap: "cap_ok e"
  shows "cap_ok e'"
  using reg_runD(6) [OF R]
proof (cases rule: register_locked_cases)
  case (commit D)
  let ?e = "fold evict_tunnel D e" and ?mx = "maxTunnelsPerToken e"
  have inv': "registry_inv e'"
    using reg_runD(5) [OF R] by (intro registry_inv_locked [OF reg_runD(1,3,4) [OF R] _ reg_runD(6) [OF R]])
  have tuns: "tunnels e' = insert (sid, name) (tunnels ?e)"
    unfolding commit(4) using reg_runD(4) [OF R] reclaimed_free [OF R commit(1,2)] by (rule tunnels_commit)
  have slug: "s_slug (sess e' s) = s_slug (sess e s)" for s
    unfolding commit(4) by (simp add: commit_tunnel_def Let_def remember_tunnel_def)
  have "int (live_tunnels e' slug) \<le> ?mx" if pos: "0 < ?mx" for slug
  proof -
    let ?L = "{t \<in> tunnels ?e. s_slug (sess ?e (fst t)) = slug}"
    have before: "int (card ?L) \<le> ?mx"
      using cap_ok_evicts [OF reg_runD(1) [OF R] cap, of D] pos
      by (simp add: cap_ok_def live_tunnels_card [OF registry_inv_evicts [OF reg_runD(1) [OF R]]])
    have "live_tunnels e' slug \<le> (if slug = s_slug (sess e sid) then Suc (card ?L) else card ?L)"
    proof -
      have "{t \<in> tunnels e'. s_slug (sess e' (fst t)) = slug} \<subseteq>
          (if slug = s_slug (sess e sid) then insert (sid, name) ?L else ?L)"
        by (auto simp: tuns slug)
      then have "live_tunnels e' slug \<le> card (if slug = s_slug (sess e sid) then insert (sid, name) ?L else ?L)"
        unfolding live_tunnels_card [OF inv'] by (intro card_mono) auto
      then show ?thesis by (auto split: if_splits intro: order.trans [OF _ card_insert_le_m1] simp: card_insert_if)
    qed
    moreover have "int (card ?L) < ?mx" if "slug = s_slug (sess e sid)"
      using commit(5) [OF pos] that
      by (simp add: live_tunnels_card [OF registry_inv_evicts [OF reg_runD(1) [OF R]]])
    ultimately show ?thesis using before by (auto split: if_splits)
  qed
  moreover have "maxTunnelsPerToken e' = ?mx"
    unfolding commit(4) by (simp add: commit_tunnel_def Let_def)
  ultimately show ?thesis by (simp add: cap_ok_def)
qed (use cap cap_ok_evicts [OF reg_runD(1) [OF R] cap] in auto)

lemma cap_ok_hostnames [simp]: "cap_ok (e\<lparr>hostnames := hc\<rparr>) = cap_ok e"
  by (simp add: cap_ok_def live_tunnels_def cong: if_cong)

lemma cap_ok_register:
  fixes e :: registry
  assumes "registry_inv e" "sid \<in> set (sessions e)" "labelRegex name" "http_ok (baseDomain e) (hostnames e) http" "cap_ok e"
  shows "cap_ok (snd (register http now now' sid name e))"
proof -
  obtain r e' where run: "register http now now' sid name e = (r, e')" by fastforce
  from assms(1-4) run have "cap_ok e'"
  proof (cases rule: register_cases)
    case (locked hosts primary hc)
    then show ?thesis using cap_ok_run assms(5) by fastforce
  qed (use assms(5) in simp)
  then show ?thesis by (simp add: run)
qed

lemma cap_ok_add_session:
  assumes "registry_inv e" "sid \<notin> set (sessions e)" "cap_ok e"
  shows "cap_ok (add_session sid slug c e)"
proof (rule cap_ok_mono [OF assms(3,1) registry_inv_add_session [OF assms(1,2)]])
  fix t
  assume "t \<in> tunnels (add_session sid slug c e)"
  then have "fst t \<noteq> sid" using assms(2) by (auto simp: tunnels_eq [OF assms(1)])
  then show "s_slug (sess (add_session sid slug c e) (fst t)) = s_slug (sess e (fst t))"
    by (simp add: add_session_def)
qed (simp_all, simp add: add_session_def)

lemma slug_frame [simp]:
  "s_slug (sess (unregister sid name e) s) = s_slug (sess e s)" "s_slug (sess (drop_routes sid e) s) = s_slug (sess e s)"
  "s_slug (sess (close_transport sid e) s) = s_slug (sess e s)"
  by (simp_all add: unregister_def drop_routes_def close_transport_def Let_def forget_tunnel_def)

lemma max_frame [simp]:
  "maxTunnelsPerToken (unregister sid name e) = maxTunnelsPerToken e"
  "maxTunnelsPerToken (drop_routes sid e) = maxTunnelsPerToken e"
  "maxTunnelsPerToken (close_transport sid e) = maxTunnelsPerToken e"
  by (simp_all add: unregister_def drop_routes_def close_transport_def Let_def)

lemma edge_step_cap: "edge_step_of sid e e' \<Longrightarrow> registry_inv e \<Longrightarrow> cap_ok e \<Longrightarrow> cap_ok e'"
proof (induction rule: edge_step_of.induct)
  case (step_unregister e name)
  show ?case
    by (rule cap_ok_mono [OF step_unregister(3,2) registry_inv_unregister [OF step_unregister(2)]])
      (simp_all add: tunnels_unregister [OF step_unregister(2)])
next
  case (step_drop e)
  show ?case
    by (rule cap_ok_mono [OF step_drop(3,2) registry_inv_drop [OF step_drop(2)]])
      (simp_all add: tunnels_drop [OF registry_invD(1) [OF step_drop(2)]])
next
  case (step_close e)
  show ?case
    by (rule cap_ok_mono [OF step_close(2,1) registry_inv_close_transport [OF step_close(1)]]) simp_all
qed (simp_all add: cap_ok_add_session cap_ok_register)

lemma edge_steps_good:
  "edge_step\<^sup>*\<^sup>* e e' \<Longrightarrow> registry_inv e \<Longrightarrow> cap_ok e \<Longrightarrow> 0 \<le> drift e \<Longrightarrow>
   registry_inv e' \<and> cap_ok e' \<and> 0 \<le> drift e'"
  by (induction rule: rtranclp_induct) (auto intro: edge_step_inv edge_step_cap dest: edge_step_drift)

lemma edge_step_max: "edge_step_of sid e e' \<Longrightarrow> maxTunnelsPerToken e' = maxTunnelsPerToken e"
  by (induction rule: edge_step_of.induct)
    (simp_all add: add_session_def register_def register_locked_def commit_tunnel_def Let_def
      split: prod.splits sum.splits)

lemma edge_steps_max: "edge_step\<^sup>*\<^sup>* e e' \<Longrightarrow> maxTunnelsPerToken e' = maxTunnelsPerToken e"
  by (induction rule: rtranclp_induct) (auto dest: edge_step_max)

lemma edge_init_good: "cap_ok (edge_init base sh mx hc)" "drift (edge_init base sh mx hc) = 0"
  by (simp_all add: drift_def) (simp_all add: edge_init_def cap_ok_def live_tunnels_def)

lemma reachable_good:
  assumes "edge_step\<^sup>*\<^sup>* (edge_init base sh mx hc) e" and "cache_ok base hc"
  shows "registry_inv e \<and> cap_ok e \<and> 0 \<le> drift e"
  using edge_steps_good [OF assms(1) edge_init_inv [OF assms(2)]] by (simp add: edge_init_good)

section \<open>The directory's contract\<close>

text \<open>
  What the edge's request path may rely on: a table of owners that changes by steps taken on
  behalf of one session at a time, and that keeps every host of every other live session.
\<close>

locale tunnel_directory =
  fixes owned :: "'s \<Rightarrow> string \<Rightarrow> (nat \<times> string) option"
    and alive :: "'s \<Rightarrow> nat \<Rightarrow> bool"
    and good :: "'s \<Rightarrow> bool"
    and step :: "nat \<Rightarrow> 's \<Rightarrow> 's \<Rightarrow> bool"
  assumes step_good: "step sid s s' \<Longrightarrow> good s \<Longrightarrow> good s'"
    and step_alive: "step sid s s' \<Longrightarrow> sid' \<noteq> sid \<Longrightarrow> alive s' sid' = alive s sid'"
    and step_keeps: "step sid s s' \<Longrightarrow> good s \<Longrightarrow> owned s h = Some t \<Longrightarrow> fst t \<noteq> sid \<Longrightarrow> alive s (fst t) \<Longrightarrow>
      owned s' h = Some t"
begin

definition others :: "nat \<Rightarrow> 's \<Rightarrow> 's \<Rightarrow> bool" where
  "others sid s s' \<longleftrightarrow> (\<exists>sid'. sid' \<noteq> sid \<and> step sid' s s')"

lemma others_keep:
  "(others sid)\<^sup>*\<^sup>* s s' \<Longrightarrow> good s \<Longrightarrow> alive s sid \<Longrightarrow> owned s h = Some (sid, n) \<Longrightarrow>
   good s' \<and> alive s' sid \<and> owned s' h = Some (sid, n)"
proof (induction rule: rtranclp_induct)
  case (step s1 s2)
  then obtain sid' where "sid' \<noteq> sid" "step sid' s1 s2" by (auto simp: others_def)
  then show ?case using step step_good step_alive step_keeps [of sid' s1 s2 h "(sid, n)"] by auto
qed auto

end

lemma closed_frame [simp]:
  "s_closed (sess (unregister sid name e) s) = s_closed (sess e s)" "s_closed (sess (drop_routes sid e) s) = s_closed (sess e s)"
  "s_closed (sess (commit_tunnel sid name hosts k e) s) = s_closed (sess e s)"
  by (simp_all add: unregister_def drop_routes_def Let_def forget_tunnel_def commit_tunnel_def remember_tunnel_def)

lemma closed_register [simp]: "s_closed (sess (snd (register http now now' sid name e)) s) = s_closed (sess e s)"
  by (simp add: register_def register_locked_def Let_def split: prod.splits sum.splits)

lemma register_other_live_kept:
  fixes e :: registry
  assumes "registry_inv e" "sid \<in> set (sessions e)" "labelRegex name" "http_ok (baseDomain e) (hostnames e) http"
    and t: "owner e h = Some t" "fst t \<noteq> sid" "\<not> s_closed (sess e (fst t))"
  shows "owner (snd (register http now now' sid name e)) h = Some t"
proof -
  obtain r e' where run: "register http now now' sid name e = (r, e')" by fastforce
  from assms(1-4) run have "owner e' h = Some t"
  proof (cases rule: register_cases)
    case (locked hosts primary hc)
    then show ?thesis using other_live_kept t by fastforce
  qed (use t in simp)
  then show ?thesis by (simp add: run)
qed

interpretation directory: tunnel_directory owner "\<lambda>e s. \<not> s_closed (sess e s)" registry_inv edge_step_of
proof
  fix sid sid' :: nat and e e' :: registry and h :: string and t :: "nat \<times> string"
  assume st: "edge_step_of sid e e'"
  show "registry_inv e \<Longrightarrow> registry_inv e'" using st by (rule edge_step_inv)
  show "sid' \<noteq> sid \<Longrightarrow> (\<not> s_closed (sess e' sid')) = (\<not> s_closed (sess e sid'))"
    using st by (induction rule: edge_step_of.induct) (simp_all add: add_session_def close_transport_def)
  show "registry_inv e \<Longrightarrow> owner e h = Some t \<Longrightarrow> fst t \<noteq> sid \<Longrightarrow> \<not> s_closed (sess e (fst t)) \<Longrightarrow> owner e' h = Some t"
    using st by (induction rule: edge_step_of.induct)
      (auto simp: register_other_live_kept owner_unregister_Some owner_drop_Some registry_invD(1))
qed

section \<open>An example run\<close>

text \<open>
  Two sessions on a flat edge with one tunnel per token: session 1 (slug \<open>b\<close>) serves \<open>x\<close> and
  dies; session 0 (slug \<open>a\<close>) serves \<open>y\<close> and then asks for \<open>x\<close>.
\<close>

abbreviation no_http :: "scopeHostnames http" where
  "no_http \<equiv> \<lambda>_ _. None"

definition run_open :: registry where
  "run_open = add_session 1 ''b'' False (add_session 0 ''a'' False (edge_init ''b.io'' ShapeFlat 1 None))"

definition run_serving :: registry where
  "run_serving = snd (register no_http 0 0 0 ''y'' (snd (register no_http 0 0 1 ''x'' run_open)))"

definition run_asks :: registry where
  "run_asks = snd (register no_http 0 0 0 ''x'' (close_transport 1 run_serving))"

lemmas run_defs = run_open_def run_serving_def run_asks_def edge_init_def

lemma run_sessions [simp]: "sessions run_open = [1, 0]" "sessions run_serving = [1, 0]" "sessions run_asks = [1, 0]"
  by code_simp+

lemma run_hostnames [simp]: "hostnames run_open = None" "hostnames run_serving = None"
  by code_simp+

lemma run_base [simp]: "baseDomain run_open = ''b.io''" "baseDomain run_serving = ''b.io''"
  by code_simp+

lemma http_ok_None [simp]: "http_ok base None http"
  by (simp add: http_ok_def)

lemma cache_ok_None [simp]: "cache_ok base None"
  by (simp add: cache_ok_def)

lemma edge_step_open:
  "sid \<notin> set (sessions e) \<Longrightarrow> edge_step\<^sup>*\<^sup>* e0 e \<Longrightarrow> edge_step\<^sup>*\<^sup>* e0 (add_session sid slug c e)"
  by (rule rtranclp.rtrancl_into_rtrancl) (auto intro: step_open)

lemma edge_step_register:
  "sid \<in> set (sessions e) \<Longrightarrow> labelRegex name \<Longrightarrow> hostnames e = None \<Longrightarrow> edge_step\<^sup>*\<^sup>* e0 e \<Longrightarrow>
   edge_step\<^sup>*\<^sup>* e0 (snd (register no_http 0 0 sid name e))"
  by (erule rtranclp.rtrancl_into_rtrancl) (rule exI [of _ sid], rule step_register, simp_all)

lemma edge_step_close: "edge_step\<^sup>*\<^sup>* e0 e \<Longrightarrow> edge_step\<^sup>*\<^sup>* e0 (close_transport sid e)"
  by (rule rtranclp.rtrancl_into_rtrancl) (auto intro: step_close)

lemma edge_step_drop: "sid \<in> set (sessions e) \<Longrightarrow> edge_step\<^sup>*\<^sup>* e0 e \<Longrightarrow> edge_step\<^sup>*\<^sup>* e0 (drop_routes sid e)"
  by (rule rtranclp.rtrancl_into_rtrancl) (auto intro: step_drop)

lemma run_labels: "labelRegex ''x''" "labelRegex ''y''"
  by code_simp+

lemma run_open_reach: "edge_step\<^sup>*\<^sup>* (edge_init ''b.io'' ShapeFlat 1 None) run_open"
  unfolding run_open_def by (intro edge_step_open rtranclp.rtrancl_refl; code_simp)

lemma run_serving_reach: "edge_step\<^sup>*\<^sup>* (edge_init ''b.io'' ShapeFlat 1 None) run_serving"
proof -
  have "1 \<in> set (sessions run_open)" by simp
  then have s1: "edge_step\<^sup>*\<^sup>* (edge_init ''b.io'' ShapeFlat 1 None) (snd (register no_http 0 0 1 ''x'' run_open))"
    by (intro edge_step_register run_open_reach run_labels) simp_all
  have "0 \<in> set (sessions (snd (register no_http 0 0 1 ''x'' run_open)))"
    "hostnames (snd (register no_http 0 0 1 ''x'' run_open)) = None" by code_simp+
  then show ?thesis unfolding run_serving_def by (intro edge_step_register s1 run_labels) simp_all
qed

lemma run_asks_reach: "edge_step\<^sup>*\<^sup>* (edge_init ''b.io'' ShapeFlat 1 None) run_asks"
  unfolding run_asks_def
  by (intro edge_step_register edge_step_close run_serving_reach run_labels) (simp_all add: close_transport_def)

lemma run_serving_inv: "registry_inv run_serving"
  using edge_steps_inv [OF run_serving_reach] edge_init_inv by simp

section \<open>Properties\<close>

text \<open>
  C2. In every state the edge reaches, whatever its sessions open, register, unregister, drop
  and lose, the route table maps each host at most once and maps it to a tunnel exactly when
  that tunnel's session is authenticated and lists the host for the tunnel's name: no stale,
  missing or cross-wired route.
\<close>

theorem reachable_routes_exact:
  assumes "edge_step\<^sup>*\<^sup>* (edge_init base sh mx hc) e" and "cache_ok base hc"
  shows "wf_map (routes e) \<and> (owner e h = Some t \<longleftrightarrow> serves e t h)"
  using edge_steps_inv [OF assms(1) edge_init_inv [OF assms(2)]] by (blast dest: registry_invD)

theorem reachable_routes_exact_witness:
  "(owner run_serving ''x.b.io'' = Some (1, ''x'') \<longleftrightarrow> serves run_serving (1, ''x'') ''x.b.io'') \<and>
   owner run_serving ''x.b.io'' = Some (1, ''x'')"
proof -
  have "owner run_serving ''x.b.io'' = Some (1, ''x'')" by code_simp
  then show ?thesis using reachable_routes_exact [OF run_serving_reach] by simp
qed

text \<open>
  C5. The per-token cap: in every state the edge reaches, no slug has more tunnels served than
  \<open>MaxTunnelsPerToken\<close> (when it is positive), counted over all sessions of the slug.
\<close>

theorem reachable_cap:
  assumes "edge_step\<^sup>*\<^sup>* (edge_init base sh mx hc) e" and "cache_ok base hc" and "0 < mx"
  shows "int (card {t \<in> tunnels e. s_slug (sess e (fst t)) = slug}) \<le> mx"
proof -
  note good = reachable_good [OF assms(1,2)]
  have "maxTunnelsPerToken e = mx" using edge_steps_max [OF assms(1)] by (simp add: edge_init_def)
  then show ?thesis using good assms(3) by (auto simp: cap_ok_def simp flip: live_tunnels_card)
qed

theorem reachable_cap_witness:
  "int (card {t \<in> tunnels run_serving. s_slug (sess run_serving (fst t)) = ''a''}) \<le> 1"
  by (rule reachable_cap [OF run_serving_reach]) simp_all

text \<open>
  The tunnel gauge never reads low: in every state the edge reaches, \<open>activeTunnels\<close> is at
  least the number of tunnels the table serves.
\<close>

theorem gauge_never_low:
  assumes "edge_step\<^sup>*\<^sup>* (edge_init base sh mx hc) e" and "cache_ok base hc"
  shows "int (card (tunnels e)) \<le> activeTunnels e"
  using reachable_good [OF assms] by (simp add: drift_def)

theorem gauge_never_low_witness: "int (card (tunnels run_serving)) \<le> activeTunnels run_serving \<and> activeTunnels run_serving = 2"
proof -
  have "activeTunnels run_serving = 2" by code_simp
  then show ?thesis using gauge_never_low [OF run_serving_reach] by simp
qed

text \<open>
  The tunnel gauge can read high for ever: \<open>register\<close> reclaims the dead tunnel of another
  slug, then answers \<open>over_limit\<close> without taking the reclaimed tunnel off \<open>activeTunnels\<close>.
  There is a run that ends with no session and no tunnel, and the gauge at one.
\<close>

theorem gauge_can_stay_high:
  "\<exists>e. edge_step\<^sup>*\<^sup>* (edge_init ''b.io'' ShapeFlat 1 None) e \<and> sessions e = [] \<and> tunnels e = {} \<and> activeTunnels e = 1"
proof (intro exI conjI)
  let ?e = "drop_routes 0 (drop_routes 1 run_asks)"
  have "0 \<in> set (sessions (drop_routes 1 run_asks))" by code_simp
  then show "edge_step\<^sup>*\<^sup>* (edge_init ''b.io'' ShapeFlat 1 None) ?e"
    by (intro edge_step_drop run_asks_reach) simp_all
  show "sessions ?e = []" by code_simp
  have "routes ?e = []" by code_simp
  then show "tunnels ?e = {}" by (auto simp: in_tunnels owner_def)
  show "activeTunnels ?e = 1" by code_simp
qed

lemma over_same_slug:
  assumes R: "reg_run sid name hosts primary e r e'" and cap: "cap_ok e"
    and D: "scan_hosts e sid hosts [] = Inr D" and r: "r = Inl (TunnelOverLimit k)"
    and same: "\<And>t. t \<in> set D \<Longrightarrow> s_slug (sess e (fst t)) = s_slug (sess e sid)"
  shows "D = []"
  using reg_runD(6) [OF R]
proof (cases rule: register_locked_cases)
  case (over D')
  have [simp]: "D' = D" using over(2) D by simp
  let ?slug = "s_slug (sess e sid)"
  let ?L = "{t \<in> tunnels e. s_slug (sess e (fst t)) = ?slug}"
  have inv': "registry_inv e'" unfolding over(4) using reg_runD(1) [OF R] by (rule registry_inv_evicts)
  have "{t \<in> tunnels e'. s_slug (sess e' (fst t)) = ?slug} = ?L - set D"
    unfolding over(4) by (auto simp: tunnels_evicts reg_runD(2) [OF R])
  moreover have "set D \<subseteq> ?L" using same scan_hosts_tunnels [OF D] by auto
  ultimately have "int (live_tunnels e' ?slug) = int (card ?L) - int (length D)"
    using scan_hosts_tunnels [OF D] card_remove_subset [of ?L "set D"]
    by (simp add: live_tunnels_card [OF inv'] distinct_card)
  moreover have "int (card ?L) \<le> maxTunnelsPerToken e"
    using cap over(5) by (simp add: cap_ok_def flip: live_tunnels_card [OF reg_runD(1) [OF R]])
  ultimately have "int (length D) = 0" using over(6) by linarith
  then show ?thesis by simp
qed (use r in simp_all)

lemma drift_one_tenant:
  assumes st: "edge_step_of sid e e'" and inv: "registry_inv e" "cap_ok e"
    and one: "\<And>s. s \<in> set (sessions e) \<Longrightarrow> s_slug (sess e s) = slug"
  shows "drift e' = drift e"
  using st inv one
proof (induction rule: edge_step_of.induct)
  case (step_register e name http now now')
  obtain r e' where run: "register http now now' sid name e = (r, e')" by fastforce
  from step_register(4,1-3) run have "drift e' = drift e"
  proof (cases rule: register_cases)
    case (locked hosts primary hc)
    have "D = []" if "scan_hosts (e\<lparr>hostnames := hc\<rparr>) sid hosts [] = Inr D" "r = Inl (TunnelOverLimit k)" for D k
    proof (rule over_same_slug [OF locked(2) _ that])
      show "cap_ok (e\<lparr>hostnames := hc\<rparr>)" using step_register(5) by simp
      fix t
      assume "t \<in> set D"
      then have "fst t \<in> set (sessions e)"
        using scan_hosts_tunnels [OF that(1)] tunnels_eq [OF step_register(4)] by auto
      then show "s_slug (sess (e\<lparr>hostnames := hc\<rparr>) (fst t)) = s_slug (sess (e\<lparr>hostnames := hc\<rparr>) sid)"
        using step_register(1,6) by simp
    qed
    then show ?thesis
      by (auto simp: drift_run [OF locked(2)] split: sum.splits register_error.splits)
  qed simp
  then show ?case by (simp add: run)
qed (simp_all add: drift_unregister drift_drop registry_invD(1))

text \<open>
  On an edge whose sessions all carry one slug (a self-hosted edge with a single token or
  with the flat shape's empty slug) the gauge is exact in every reachable state: the tunnels
  \<open>register\<close> reclaims make room under the cap, so it never stops between reclaim and commit.
\<close>

theorem gauge_exact_one_slug:
  assumes "(\<lambda>e e'. edge_step e e' \<and> (\<forall>s \<in> set (sessions e'). s_slug (sess e' s) = slug))\<^sup>*\<^sup>* (edge_init base sh mx hc) e"
    and "cache_ok base hc"
  shows "activeTunnels e = int (card (tunnels e))"
proof -
  have "registry_inv e \<and> cap_ok e \<and> drift e = 0 \<and> (\<forall>s \<in> set (sessions e). s_slug (sess e s) = slug)"
    using assms(1)
  proof (induction rule: rtranclp_induct)
    case base
    show ?case using edge_init_inv [OF assms(2)] edge_init_good by (simp add: edge_init_def)
  next
    case (step e1 e2)
    then show ?case using edge_step_inv edge_step_cap drift_one_tenant by metis
  qed
  then show ?thesis by (simp add: drift_def)
qed

theorem gauge_exact_one_slug_witness:
  "activeTunnels (add_session 0 ''a'' False (edge_init ''b.io'' ShapeFlat 1 None)) =
   int (card (tunnels (add_session 0 ''a'' False (edge_init ''b.io'' ShapeFlat 1 None))))"
proof (rule gauge_exact_one_slug [of "''a''" "''b.io''" ShapeFlat 1 None])
  have "edge_step_of 0 (edge_init ''b.io'' ShapeFlat 1 None) (add_session 0 ''a'' False (edge_init ''b.io'' ShapeFlat 1 None))"
    by (rule step_open) (simp add: edge_init_def)
  then show "(\<lambda>e e'. edge_step e e' \<and> (\<forall>s \<in> set (sessions e'). s_slug (sess e' s) = ''a''))\<^sup>*\<^sup>*
     (edge_init ''b.io'' ShapeFlat 1 None) (add_session 0 ''a'' False (edge_init ''b.io'' ShapeFlat 1 None))"
    by (intro r_into_rtranclp) (auto simp: add_session_def edge_init_def)
qed simp

lemma run_owner:
  assumes R: "reg_run sid name hosts primary e (Inr url) e'" and fresh: "name \<notin> set (s_names (sess e sid))"
  shows "url = ''https://'' @ primary \<and> (h \<in> set hosts \<longrightarrow> owner e' h = Some (sid, name))"
  using reg_runD(6) [OF R] by (cases rule: register_locked_cases) (use fresh in \<open>simp_all add: owner_commit\<close>)

text \<open>
  C4. A successful \<open>register\<close> of a name the session does not have yet routes every host of the
  tunnel to it, the default host and the custom domains alike, and returns the primary host's
  URL; a failed one reports the reason and gives no host to the session.
\<close>

theorem register_routes_all_hosts:
  fixes e :: registry
  assumes "registry_inv e" and "sid \<in> set (sessions e)" and "labelRegex name"
    and "http_ok (baseDomain e) (hostnames e) http" and "name \<notin> set (s_names (sess e sid))"
    and run: "register http now now' sid name e = (r, e')"
  shows "case r of
      Inr url \<Rightarrow> \<exists>hosts primary hc.
        hostsForTunnel http now now' (baseDomain e) (urlShape e) (hostnames e) name (s_slug (sess e sid)) =
          ((hosts, primary), hc) \<and>
        url = ''https://'' @ primary \<and> (\<forall>h \<in> set hosts. owner e' h = Some (sid, name))
    | Inl err \<Rightarrow> \<forall>h. owner e' h \<noteq> Some (sid, name)"
proof -
  have none: "owner e h \<noteq> Some (sid, name)" for h
    using assms(5) registry_invD(4) [OF assms(1), of sid] registry_invD(5) [OF assms(1)]
    by (auto simp: serves_def session_inv_def)
  from assms(1-4) run show ?thesis
  proof (cases rule: register_cases)
    case long
    then show ?thesis using none by simp
  next
    case (locked hosts primary hc)
    have fresh: "name \<notin> set (s_names (sess (e\<lparr>hostnames := hc\<rparr>) sid))" using assms(5) by simp
    show ?thesis
    proof (cases r)
      case (Inr url)
      then show ?thesis using locked(1) run_owner [OF locked(2) [unfolded Inr] fresh] by auto
    next
      case (Inl err)
      have "owner e' h \<noteq> Some (sid, name)" for h
        using reg_runD(6) [OF locked(2)]
        by (cases rule: register_locked_cases)
          (use Inl none [of h] reg_runD(2) [OF locked(2)] in \<open>auto simp: owner_evicts_Some\<close>)
      then show ?thesis by (simp add: Inl)
    qed
  qed
qed

theorem register_routes_all_hosts_witness:
  "\<exists>hosts primary hc.
     hostsForTunnel no_http 0 0 ''b.io'' ShapeFlat None ''x'' ''b'' = ((hosts, primary), hc) \<and>
     ''https://x.b.io'' = ''https://'' @ primary \<and>
     (\<forall>h \<in> set hosts. owner (snd (register no_http 0 0 1 ''x'' run_open)) h = Some (1, ''x''))"
proof -
  have "registry_inv run_open" using edge_steps_inv [OF run_open_reach] edge_init_inv by simp
  moreover have "''x'' \<notin> set (s_names (sess run_open 1))" "1 \<in> set (sessions run_open)" by code_simp+
  moreover have "fst (register no_http 0 0 1 ''x'' run_open) = Inr ''https://x.b.io''" by code_simp
  then have "register no_http 0 0 1 ''x'' run_open =
      (Inr ''https://x.b.io'', snd (register no_http 0 0 1 ''x'' run_open))" by (metis prod.collapse)
  moreover have "s_slug (sess run_open 1) = ''b''" "urlShape run_open = ShapeFlat" by code_simp+
  ultimately show ?thesis
    using register_routes_all_hosts [of run_open 1 "''x''" no_http 0 0 "Inr ''https://x.b.io''"
        "snd (register no_http 0 0 1 ''x'' run_open)"] run_labels(1) by simp
qed

text \<open>
  C3. No hijacking: as long as a session's transport lives, its host keeps routing to its
  tunnel through any sequence of steps of other sessions, however they register, unregister,
  die and drop.
\<close>

theorem service_uninterrupted:
  assumes "registry_inv e" and "owner e h = Some (sid, n)" and "\<not> s_closed (sess e sid)"
    and "(\<lambda>e1 e2. \<exists>other. other \<noteq> sid \<and> edge_step_of other e1 e2)\<^sup>*\<^sup>* e e'"
  shows "owner e' h = Some (sid, n)"
  using directory.others_keep [of sid e e' h n] assms unfolding directory.others_def by blast

theorem service_uninterrupted_witness:
  "owner (snd (register no_http 0 0 0 ''x'' run_serving)) ''x.b.io'' = Some (1, ''x'')"
proof (rule service_uninterrupted [OF run_serving_inv])
  show "owner run_serving ''x.b.io'' = Some (1, ''x'')" by code_simp
  show "\<not> s_closed (sess run_serving 1)" by code_simp
  have "edge_step_of 0 run_serving (snd (register no_http 0 0 0 ''x'' run_serving))"
    by (rule step_register [OF _ run_labels(1)]) simp_all
  then show "(\<lambda>e1 e2. \<exists>other. other \<noteq> 1 \<and> edge_step_of other e1 e2)\<^sup>*\<^sup>* run_serving
      (snd (register no_http 0 0 0 ''x'' run_serving))"
    by (intro r_into_rtranclp) auto
qed

text \<open>
  C6. \<open>unregister\<close> and \<open>dropSession\<close> remove exactly what is theirs: the first the hosts of the
  named tunnel of its session, the second every host of the session, and all other hosts keep
  their owner.
\<close>

theorem unregister_drop_exact:
  fixes e :: registry
  assumes "registry_inv e"
  shows "owner (unregister sid name e) h = (if owner e h = Some (sid, name) then None else owner e h) \<and>
    owner (drop_routes sid e) h = (if \<exists>n. owner e h = Some (sid, n) then None else owner e h) \<and>
    drift (unregister sid name e) = drift e \<and> drift (drop_routes sid e) = drift e"
  using owner_unregister [OF assms] drift_unregister [OF assms] drift_drop [OF registry_invD(1) [OF assms]]
  by (auto simp: owner_drop [OF registry_invD(1) [OF assms]] split: option.splits)

theorem unregister_drop_exact_witness:
  "owner (unregister 1 ''x'' run_serving) ''x.b.io'' = None \<and> owner (drop_routes 1 run_serving) ''y.b.io'' = Some (0, ''y'')"
proof -
  have "owner run_serving ''x.b.io'' = Some (1, ''x'')" "owner run_serving ''y.b.io'' = Some (0, ''y'')" by code_simp+
  then show ?thesis
    using unregister_drop_exact [OF run_serving_inv, of 1 "''x''" "''x.b.io''"]
      unregister_drop_exact [OF run_serving_inv, of 1 "''x''" "''y.b.io''"] by simp
qed

end
