(* ===== verification/Ttl_Cache.thy ===== *)
theory Ttl_Cache
  imports Hostnames
begin

text \<open>
  The contract of the two bounded caches of the program (\<open>HTTPStore\<close>'s verify cache and
  \<open>decisionGate\<close>'s verdict cache): an eviction routine that only removes entries and makes
  room, and, from that alone, that storing keeps the cache bounded and sound. Go's
  random iteration order over a map is an argument: \<open>range_over order m\<close> visits every key of
  \<open>m\<close> once, those named in \<open>order\<close> first.
\<close>

definition range_over :: "'k list \<Rightarrow> ('k, 'v) gomap \<Rightarrow> 'k list" where
  "range_over order m =
     (let pre = remdups (filter (\<lambda>k. k \<in> keys_of m) order)
      in pre @ filter (\<lambda>k. k \<notin> set pre) (map fst m))"

lemma set_range_over [simp]: "set (range_over order m) = keys_of m"
  by (auto simp: range_over_def Let_def)

lemma distinct_range_over: "wf_map m \<Longrightarrow> distinct (range_over order m)"
  by (auto simp: range_over_def Let_def wf_map_def)

text \<open>Every order Go may choose is covered.\<close>

lemma range_over_any: "distinct ks \<Longrightarrow> set ks = keys_of m \<Longrightarrow> range_over ks m = ks"
  by (simp add: range_over_def Let_def distinct_remdups_id filter_id_conv filter_empty_conv)

text \<open>\<open>for k := range m { if len(m) <= half { break }; delete(m, k) }\<close>\<close>

fun delete_down :: "nat \<Rightarrow> 'k list \<Rightarrow> ('k, 'v) gomap \<Rightarrow> ('k, 'v) gomap" where
  "delete_down half [] m = m"
| "delete_down half (k # ks) m = (if length m \<le> half then m else delete_down half ks (AList.delete k m))"

lemma set_delete_down: "set (delete_down half ks m) \<subseteq> set m"
proof (induction ks arbitrary: m)
  case (Cons k ks)
  then show ?case using Cons [of "AList.delete k m"] by (auto simp: set_delete)
qed simp

lemma wf_delete_down: "wf_map m \<Longrightarrow> wf_map (delete_down half ks m)"
  by (induction ks arbitrary: m) auto

lemma length_delete_down: "keys_of m \<subseteq> set ks \<Longrightarrow> length (delete_down half ks m) \<le> half"
proof (induction ks arbitrary: m)
  case (Cons k ks)
  have "keys_of (AList.delete k m) \<subseteq> set ks" unfolding keys_of_delete using Cons.prems by auto
  then show ?case by (simp add: Cons.IH)
qed simp

locale bounded_cache =
  fixes evict :: "time \<Rightarrow> 'k list \<Rightarrow> ('k, 'e) gomap \<Rightarrow> ('k, 'e) gomap"
    and bound :: nat
    and store :: "time \<Rightarrow> 'k list \<Rightarrow> 'k \<Rightarrow> 'e \<Rightarrow> ('k, 'e) gomap \<Rightarrow> ('k, 'e) gomap"
  assumes bound_pos: "0 < bound"
    and evict_subset: "set (evict now order m) \<subseteq> set m"
    and evict_wf: "wf_map m \<Longrightarrow> wf_map (evict now order m)"
    and evict_room: "length (evict now order m) \<le> bound div 2"
    and store_eq: "store now order k e m = AList.update k e (if bound \<le> length m then evict now order m else m)"
begin

lemma store_bounded: "length m \<le> bound \<Longrightarrow> length (store now order k e m) \<le> bound"
proof -
  have "Suc (bound div 2) \<le> bound" using bound_pos by simp
  then have "Suc (length (evict now order m)) \<le> bound" using evict_room [of now order m] by linarith
  then show "length m \<le> bound \<Longrightarrow> ?thesis"
    using length_update_le [of k e m] length_update_le [of k e "evict now order m"] by (auto simp: store_eq)
qed

lemma store_wf: "wf_map m \<Longrightarrow> wf_map (store now order k e m)"
  by (simp add: store_eq evict_wf)

lemma store_get [simp]: "map_of (store now order k e m) k = Some e"
  by (simp add: store_eq)

lemma store_sound:
  assumes "(k', e') \<in> set (store now order k e m)"
  shows "(k', e') = (k, e) \<or> (k', e') \<in> set m"
  using assms set_update_subset [of k e m] set_update_subset [of k e "evict now order m"] evict_subset [of now order m]
  by (auto simp: store_eq split: if_splits)

text \<open>Any sequence of stores, by any number of callers, stays within the bound.\<close>

lemma stores_bounded:
  assumes "length m \<le> bound" and "wf_map m"
  shows "length (fold (\<lambda>(now, order, k, e). store now order k e) reqs m) \<le> bound \<and>
    wf_map (fold (\<lambda>(now, order, k, e). store now order k e) reqs m)"
  using assms by (induction reqs arbitrary: m) (auto simp: store_bounded store_wf)

end

end
