(* ===== verification/Auth.thy ===== *)
theory Auth
  imports Ttl_Cache
begin

text \<open>
  Token stores (\<open>src/internal/auth/auth.go\<close>, \<open>http_store.go\<close>): from a bearer token and a
  requested scope to the slug a tunnel registers under. \<open>memory_resolve\<close> is the in-memory and
  the file store, \<open>http_resolve\<close> the hosted store with its verify cache. The verify
  endpoint is a service outside the repository: its reply is the argument \<open>post\<close>. Both stores
  obey the contract \<open>token_store\<close> the handshake relies on.
\<close>

section \<open>MemoryStore, FileStore, Open\<close>

type_synonym memoryStore = "(string, string) gomap"

definition memory_resolve :: "memoryStore \<Rightarrow> string \<Rightarrow> string \<Rightarrow> string option" where
  "memory_resolve tokens token requestedScope =
     (case map_of tokens token of
        None \<Rightarrow> None
      | Some slug \<Rightarrow> if requestedScope \<noteq> [] \<and> requestedScope \<noteq> slug then None else Some slug)"

datatype open_error =
    ReadTokenStore string | ParseTokenStore string | SecretRequired | UnsupportedSpec string

text \<open>\<open>readFile\<close> is the file system, \<open>parse\<close> the JSON decoder into \<open>map[string]string\<close>.\<close>

definition newFileStore ::
    "(string \<Rightarrow> string option) \<Rightarrow> (string \<Rightarrow> memoryStore option) \<Rightarrow> string \<Rightarrow> open_error + memoryStore" where
  "newFileStore readFile parse path =
     (case readFile path of
        None \<Rightarrow> Inl (ReadTokenStore path)
      | Some b \<Rightarrow> (case parse b of None \<Rightarrow> Inl (ParseTokenStore path) | Some m \<Rightarrow> Inr m))"

section \<open>HTTPStore\<close>

record httpStoreResult =
  r_kind :: string
  r_slug :: string
  r_scopeSet :: "(string, bool) gomap"
  r_scopeList :: "string list"
  r_ok :: bool

record httpStoreCacheEntry =
  ce_result :: httpStoreResult
  ce_expires :: time

record verifyTokenResponse =
  v_kind :: string
  v_slug :: string
  v_user :: string
  v_scopes :: "(string \<times> string) list"  \<comment> \<open>slug and role\<close>

record httpStore =
  hs_url :: string
  hs_secret :: string
  hs_ttl :: time
  hs_negTTL :: time
  hs_cache :: "(string, httpStoreCacheEntry) gomap"

definition httpStoreCacheMax :: nat where
  "httpStoreCacheMax = 4096"

definition newHTTPStore :: "string \<Rightarrow> string \<Rightarrow> httpStore" where
  "newHTTPStore url secret =
     \<lparr>hs_url = url, hs_secret = secret, hs_ttl = seconds 60, hs_negTTL = seconds 5, hs_cache = []\<rparr>"

definition setTTLs :: "time \<Rightarrow> time \<Rightarrow> httpStore \<Rightarrow> httpStore" where
  "setTTLs positive negative s = s\<lparr>hs_ttl := positive, hs_negTTL := negative\<rparr>"

datatype store = Memory memoryStore | File memoryStore | HTTP httpStore

definition open_store ::
    "(string \<Rightarrow> string option) \<Rightarrow> (string \<Rightarrow> memoryStore option) \<Rightarrow> string \<Rightarrow> string \<Rightarrow> open_error + store" where
  "open_store readFile parse getenv spec =
     (if has_prefix ''file:'' spec then map_sum id File (newFileStore readFile parse (drop 5 spec))
      else if spec = ''memory:'' then Inr (Memory [])
      else if has_prefix ''http://'' spec \<or> has_prefix ''https://'' spec then
        (if getenv = [] then Inl SecretRequired else Inr (HTTP (newHTTPStore spec getenv)))
      else Inl (UnsupportedSpec spec))"

abbreviation rejected :: httpStoreResult where
  "rejected \<equiv> \<lparr>r_kind = [], r_slug = [], r_scopeSet = [], r_scopeList = [], r_ok = False\<rparr>"

text \<open>The loop over the scopes of a session: skip empty and repeated slugs.\<close>

fun add_scopes :: "(string \<times> string) list \<Rightarrow> (string, bool) gomap \<Rightarrow> string list \<Rightarrow> (string, bool) gomap \<times> string list" where
  "add_scopes [] st l = (st, l)"
| "add_scopes (sc # scs) st l =
     (if fst sc = [] \<or> get_or False st (fst sc) then add_scopes scs st l
      else add_scopes scs (AList.update (fst sc) True st) (l @ [fst sc]))"

definition result_of :: "verifyTokenResponse \<Rightarrow> httpStoreResult" where
  "result_of out =
     (if v_kind out = ''session'' \<or> 0 < length (v_scopes out) then
        (case add_scopes (v_scopes out) [] [] of
           (st, l) \<Rightarrow> \<lparr>r_kind = ''session'', r_slug = [], r_scopeSet = st, r_scopeList = l, r_ok = 0 < length l\<rparr>)
      else if v_slug out = [] then rejected
      else \<lparr>r_kind = ''key'', r_slug = v_slug out, r_scopeSet = [], r_scopeList = [], r_ok = True\<rparr>)"

datatype fetch_error = RequestFailed | BadStatus nat | DecodeFailed

text \<open>From URL, \<open>Authorization\<close> header (empty when not sent) and token to the reply, if any.\<close>

type_synonym verify_post = "string \<Rightarrow> string \<Rightarrow> string \<Rightarrow> (nat \<times> verifyTokenResponse option) option"

definition store_fetch :: "verify_post \<Rightarrow> httpStore \<Rightarrow> string \<Rightarrow> fetch_error + httpStoreResult" where
  "store_fetch post s token =
     (case post (hs_url s) (if hs_secret s \<noteq> [] then ''Bearer '' @ hs_secret s else []) token of
        None \<Rightarrow> Inl RequestFailed
      | Some (status, body) \<Rightarrow>
          if status = 401 then Inr rejected
          else if status = 404 then Inr rejected
          else if status \<noteq> 200 then Inl (BadStatus status)
          else (case body of None \<Rightarrow> Inl DecodeFailed | Some out \<Rightarrow> Inr (result_of out)))"

definition store_evict :: "time \<Rightarrow> string list \<Rightarrow> (string, httpStoreCacheEntry) gomap \<Rightarrow> (string, httpStoreCacheEntry) gomap" where
  "store_evict now order cache =
     (let cache = del_where (\<lambda>tok e. ce_expires e < now) cache
      in delete_down (httpStoreCacheMax div 2) (range_over order cache) cache)"

text \<open>The two critical sections of \<open>lookup\<close>: reading the cache, and storing a verdict.\<close>

definition lookup_cached :: "time \<Rightarrow> httpStore \<Rightarrow> string \<Rightarrow> httpStoreResult option" where
  "lookup_cached now s token =
     (case map_of (hs_cache s) token of
        Some e \<Rightarrow> if now < ce_expires e then Some (ce_result e) else None
      | None \<Rightarrow> None)"

definition cache_put :: "time \<Rightarrow> string list \<Rightarrow> string \<Rightarrow> httpStoreCacheEntry \<Rightarrow>
    (string, httpStoreCacheEntry) gomap \<Rightarrow> (string, httpStoreCacheEntry) gomap" where
  "cache_put now order token e cache =
     (let cache = (if httpStoreCacheMax \<le> length cache then store_evict now order cache else cache)
      in AList.update token e cache)"

definition lookup_store :: "time \<Rightarrow> time \<Rightarrow> string list \<Rightarrow> string \<Rightarrow> httpStoreResult \<Rightarrow> httpStore \<Rightarrow> httpStore" where
  "lookup_store now now' order token res s =
     (let ttl = (if r_ok res then hs_ttl s else hs_negTTL s)
      in s\<lparr>hs_cache := cache_put now order token \<lparr>ce_result = res, ce_expires = now' + ttl\<rparr> (hs_cache s)\<rparr>)"

text \<open>The clock readings of one call (cache check, eviction, expiry) and the map's order.\<close>

record moment =
  m_check :: time
  m_evict :: time
  m_store :: time
  m_order :: "string list"

definition lookup :: "verify_post \<Rightarrow> moment \<Rightarrow> httpStore \<Rightarrow> string \<Rightarrow> httpStoreResult \<times> httpStore" where
  "lookup post m s token =
     (case lookup_cached (m_check m) s token of
        Some res \<Rightarrow> (res, s)
      | None \<Rightarrow>
          (case store_fetch post s token of
             Inl err \<Rightarrow> (rejected, s)
           | Inr res \<Rightarrow> (res, lookup_store (m_evict m) (m_store m) (m_order m) token res s)))"

text \<open>What \<open>Resolve\<close> decides from a verdict.\<close>

definition authorize_scope :: "httpStoreResult \<Rightarrow> string \<Rightarrow> string option" where
  "authorize_scope res requestedScope =
     (if \<not> r_ok res then None
      else if r_kind res = ''session'' then
        (if requestedScope = [] then
           (case r_scopeList res of [] \<Rightarrow> None | slug # _ \<Rightarrow> Some slug)
         else if get_or False (r_scopeSet res) requestedScope then Some requestedScope else None)
      else if requestedScope = [] \<or> requestedScope = r_slug res then Some (r_slug res) else None)"

definition http_resolve :: "verify_post \<Rightarrow> moment \<Rightarrow> httpStore \<Rightarrow> string \<Rightarrow> string \<Rightarrow> string option \<times> httpStore" where
  "http_resolve post m s token requestedScope =
     (case lookup post m s token of (res, s') \<Rightarrow> (authorize_scope res requestedScope, s'))"

section \<open>The verify cache\<close>

interpretation verify_cache: bounded_cache store_evict httpStoreCacheMax cache_put
proof
  fix now order and m :: "(string, httpStoreCacheEntry) gomap"
  show "0 < httpStoreCacheMax" by (simp add: httpStoreCacheMax_def)
  show "set (store_evict now order m) \<subseteq> set m"
    using set_delete_down by (fastforce simp: store_evict_def Let_def)
  show "wf_map m \<Longrightarrow> wf_map (store_evict now order m)"
    by (simp add: store_evict_def Let_def wf_delete_down)
  show "length (store_evict now order m) \<le> httpStoreCacheMax div 2"
    unfolding store_evict_def Let_def by (rule length_delete_down) simp
qed (simp add: cache_put_def Let_def)

definition store_inv :: "(string \<Rightarrow> httpStoreResult \<Rightarrow> bool) \<Rightarrow> httpStore \<Rightarrow> bool" where
  "store_inv G s \<longleftrightarrow> wf_map (hs_cache s) \<and> length (hs_cache s) \<le> httpStoreCacheMax \<and>
     (\<forall>(tok, e) \<in> set (hs_cache s). G tok (ce_result e))"

lemma store_inv_new: "store_inv G (newHTTPStore url secret)"
  by (simp add: store_inv_def newHTTPStore_def)

lemma store_inv_store:
  assumes "store_inv G s" and "G token res"
  shows "store_inv G (lookup_store now now' order token res s)"
  using assms verify_cache.store_sound [of _ _ now order token _ "hs_cache s"]
  by (fastforce simp: store_inv_def lookup_store_def Let_def verify_cache.store_wf verify_cache.store_bounded)

text \<open>\<open>G\<close> holds of every verdict the endpoint gives for a token, whenever it is asked.\<close>

lemma lookup_ok:
  assumes "store_inv G s" and "\<And>tok res. store_fetch post s tok = Inr res \<Longrightarrow> G tok res"
    and "lookup post m s token = (res, s')"
  shows "store_inv G s' \<and> (r_ok res \<longrightarrow> G token res)"
proof (cases "lookup_cached (m_check m) s token")
  case None
  then show ?thesis using assms by (auto simp: lookup_def store_inv_store split: sum.splits)
next
  case (Some r)
  then have "G token r" using assms(1)
    by (auto simp: lookup_cached_def store_inv_def dest!: map_of_SomeD split: option.splits if_splits)
  then show ?thesis using Some assms by (auto simp: lookup_def)
qed

lemma lookup_fetch_same:
  "hs_url s' = hs_url s \<Longrightarrow> hs_secret s' = hs_secret s \<Longrightarrow> store_fetch post s' = store_fetch post s"
  by (simp add: store_fetch_def fun_eq_iff)

section \<open>Verdicts\<close>

text \<open>What a reply grants: the slugs a token may register under.\<close>

definition grants :: "verifyTokenResponse \<Rightarrow> string set" where
  "grants out = (if v_kind out = ''session'' \<or> v_scopes out \<noteq> [] then fst ` set (v_scopes out) - {[]} else {v_slug out} - {[]})"

lemma add_scopes_spec:
  assumes "add_scopes scs st l = (st', l')" and "\<And>k. get_or False st k \<longleftrightarrow> k \<in> set l" and "[] \<notin> set l"
  shows "(get_or False st' k \<longleftrightarrow> k \<in> set l') \<and> (k \<in> set l' \<longleftrightarrow> k \<in> set l \<or> k \<noteq> [] \<and> k \<in> fst ` set scs)"
  using assms
proof (induction scs arbitrary: st l)
  case (Cons sc scs)
  show ?case
  proof (cases "fst sc = [] \<or> get_or False st (fst sc)")
    case True
    then show ?thesis using Cons.IH [of st l] Cons.prems by auto
  next
    case False
    have "get_or False (AList.update (fst sc) True st) k \<longleftrightarrow> k \<in> set (l @ [fst sc])" for k
      using Cons.prems(2) by auto
    moreover have "add_scopes scs (AList.update (fst sc) True st) (l @ [fst sc]) = (st', l')"
      using Cons.prems(1) False by simp
    moreover have "[] \<notin> set (l @ [fst sc])" using Cons.prems(3) False by auto
    ultimately have "(get_or False st' k \<longleftrightarrow> k \<in> set l') \<and>
        (k \<in> set l' \<longleftrightarrow> k \<in> set (l @ [fst sc]) \<or> k \<noteq> [] \<and> k \<in> fst ` set scs)" by (intro Cons.IH)
    then show ?thesis using False by auto
  qed
qed auto

definition verdict_for :: "string set \<Rightarrow> httpStoreResult \<Rightarrow> bool" where
  "verdict_for S res \<longleftrightarrow>
     (r_ok res \<longleftrightarrow> S \<noteq> {}) \<and>
     (r_ok res \<longrightarrow> (if r_kind res = ''session'' then (\<forall>k. get_or False (r_scopeSet res) k \<longleftrightarrow> k \<in> S) \<and> set (r_scopeList res) = S
                   else S = {r_slug res}))"

lemma result_of_verdict: "verdict_for (grants out) (result_of out)"
proof (cases "v_kind out = ''session'' \<or> 0 < length (v_scopes out)")
  case True
  obtain st l where a: "add_scopes (v_scopes out) [] [] = (st, l)" by fastforce
  have spec: "(get_or False st k \<longleftrightarrow> k \<in> set l) \<and> (k \<in> set l \<longleftrightarrow> k \<noteq> [] \<and> k \<in> fst ` set (v_scopes out))" for k
    using add_scopes_spec [OF a, of k] by (simp add: get_or_def)
  then have l: "set l = grants out" using True by (auto simp: grants_def)
  then have "0 < length l \<longleftrightarrow> grants out \<noteq> {}" by (metis length_greater_0_conv set_empty)
  then show ?thesis using True a spec l by (simp add: result_of_def verdict_for_def)
next
  case False
  then show ?thesis by (auto simp: result_of_def verdict_for_def grants_def)
qed

lemma authorize_verdict:
  assumes "verdict_for S res" and "[] \<notin> S"
  shows "(case authorize_scope res sc of None \<Rightarrow> S = {} \<or> sc \<noteq> [] \<and> sc \<notin> S
          | Some slug \<Rightarrow> slug \<in> S \<and> (sc \<noteq> [] \<longrightarrow> slug = sc))"
proof (cases "r_ok res \<and> r_kind res = ''session''")
  case True
  then show ?thesis using assms by (cases "r_scopeList res") (auto simp: authorize_scope_def verdict_for_def)
next
  case False
  then show ?thesis using assms by (auto simp: authorize_scope_def verdict_for_def)
qed

lemma grants_nonempty: "[] \<notin> grants out"
  by (simp add: grants_def)

section \<open>The contract of a token store\<close>

text \<open>
  What the handshake relies on: a store answers for a token with a slug of the set the token is
  entitled to, exactly the requested one when one is requested, and keeps its invariant.
\<close>

locale token_store =
  fixes resolve :: "'m \<Rightarrow> 's \<Rightarrow> string \<Rightarrow> string \<Rightarrow> string option \<times> 's"
    and entitled :: "string \<Rightarrow> string set"
    and good :: "'s \<Rightarrow> bool"
  assumes resolve_good: "good s \<Longrightarrow> good (snd (resolve m s tok sc))"
    and resolve_entitled: "good s \<Longrightarrow> fst (resolve m s tok sc) = Some slug \<Longrightarrow> slug \<in> entitled tok"
    and resolve_scope: "good s \<Longrightarrow> fst (resolve m s tok sc) = Some slug \<Longrightarrow> sc \<noteq> [] \<Longrightarrow> slug = sc"
begin

text \<open>Any sequence of handshakes, each at a moment of its own: an accepted request is entitled, a stranger is never accepted.\<close>

fun serve :: "('m \<times> string \<times> string) list \<Rightarrow> 's \<Rightarrow> string option list \<times> 's" where
  "serve [] s = ([], s)"
| "serve ((m, tok, sc) # reqs) s =
     (let (r, s1) = resolve m s tok sc; (rs, s2) = serve reqs s1 in (r # rs, s2))"

lemma serve_sound:
  assumes "good s" and "serve reqs s = (rs, s')"
  shows "good s' \<and> length rs = length reqs \<and>
    (\<forall>i < length reqs. \<forall>slug. rs ! i = Some slug \<longrightarrow>
       slug \<in> entitled (fst (snd (reqs ! i))) \<and>
       (snd (snd (reqs ! i)) \<noteq> [] \<longrightarrow> slug = snd (snd (reqs ! i))))"
  using assms
proof (induction reqs arbitrary: s rs)
  case (Cons req reqs)
  obtain m tok sc where req: "req = (m, tok, sc)" by (cases req)
  obtain r s1 where r: "resolve m s tok sc = (r, s1)" by fastforce
  obtain rs1 s2 where rs1: "serve reqs s1 = (rs1, s2)" by fastforce
  have eq: "rs = r # rs1" "s2 = s'" using Cons.prems(2) req r rs1 by auto
  have "good s1" using resolve_good [OF Cons.prems(1), of m tok sc] r by simp
  note IH = Cons.IH [OF this rs1 [unfolded eq(2)]]
  have "slug \<in> entitled tok \<and> (sc \<noteq> [] \<longrightarrow> slug = sc)" if "r = Some slug" for slug
    using resolve_entitled [OF Cons.prems(1), of m tok sc slug] resolve_scope [OF Cons.prems(1), of m tok sc slug] r that by auto
  then show ?case using IH by (auto simp: eq req nth_Cons split: nat.splits)
qed auto

end

definition memory_entitled :: "memoryStore \<Rightarrow> string \<Rightarrow> string set" where
  "memory_entitled tokens tok = (case map_of tokens tok of None \<Rightarrow> {} | Some slug \<Rightarrow> {slug})"

interpretation memory_store: token_store "\<lambda>(_ :: unit) s tok sc. (memory_resolve s tok sc, s)" "memory_entitled tokens" "\<lambda>s. s = tokens"
  for tokens :: memoryStore
  by unfold_locales (auto simp: memory_resolve_def memory_entitled_def split: option.splits if_splits)

text \<open>The slugs the verify endpoint grants a token.\<close>

definition endpoint_grants :: "verify_post \<Rightarrow> string \<Rightarrow> string \<Rightarrow> string \<Rightarrow> string set" where
  "endpoint_grants post url secret tok =
     (case post url (if secret \<noteq> [] then ''Bearer '' @ secret else []) tok of
        Some (status, Some out) \<Rightarrow> if status = 200 then grants out else {}
      | _ \<Rightarrow> {})"

definition http_good :: "verify_post \<Rightarrow> string \<Rightarrow> string \<Rightarrow> httpStore \<Rightarrow> bool" where
  "http_good post url secret s \<longleftrightarrow> hs_url s = url \<and> hs_secret s = secret \<and>
     store_inv (\<lambda>tok res. verdict_for (endpoint_grants post url secret tok) res) s"

lemma fetch_verdict:
  assumes "store_fetch post s tok = Inr res"
  shows "verdict_for (endpoint_grants post (hs_url s) (hs_secret s) tok) res"
  using assms result_of_verdict
  by (fastforce simp: store_fetch_def endpoint_grants_def verdict_for_def split: option.splits if_splits prod.splits)

lemma endpoint_grants_nonempty: "[] \<notin> endpoint_grants post url secret tok"
  by (auto simp: endpoint_grants_def grants_nonempty split: option.splits if_splits prod.splits)

lemma http_good_lookup:
  assumes "http_good post url secret s" and "lookup post m s tok = (res, s')"
  shows "http_good post url secret s'"
    and "r_ok res \<Longrightarrow> verdict_for (endpoint_grants post url secret tok) res"
proof -
  let ?G = "\<lambda>tok res. verdict_for (endpoint_grants post url secret tok) res"
  have inv: "store_inv ?G s" "hs_url s = url" "hs_secret s = secret" using assms(1) by (simp_all add: http_good_def)
  have fetch: "store_fetch post s tok = Inr res \<Longrightarrow> ?G tok res" for tok res
    using fetch_verdict [of post s tok res] inv(2,3) by simp
  note ok = lookup_ok [where G = ?G, OF inv(1) fetch assms(2)]
  have "hs_url s' = hs_url s \<and> hs_secret s' = hs_secret s"
    using assms(2) by (auto simp: lookup_def lookup_store_def Let_def split: option.splits sum.splits)
  then show "http_good post url secret s'" using ok inv by (simp add: http_good_def)
  show "r_ok res \<Longrightarrow> ?G tok res" using ok by simp
qed

lemma http_resolve_sound:
  assumes "http_good post url secret s" and "http_resolve post m s tok sc = (r, s')"
  shows "http_good post url secret s'"
    and "r = Some slug \<Longrightarrow> slug \<in> endpoint_grants post url secret tok \<and> (sc \<noteq> [] \<longrightarrow> slug = sc)"
proof -
  obtain res where l: "lookup post m s tok = (res, s')" and r: "r = authorize_scope res sc"
    using assms(2) by (auto simp: http_resolve_def split: prod.splits)
  show "http_good post url secret s'" using http_good_lookup(1) [OF assms(1) l] .
  assume s: "r = Some slug"
  then have "r_ok res" using r by (auto simp: authorize_scope_def split: if_splits)
  then show "slug \<in> endpoint_grants post url secret tok \<and> (sc \<noteq> [] \<longrightarrow> slug = sc)"
    using authorize_verdict [OF http_good_lookup(2) [OF assms(1) l] endpoint_grants_nonempty, of sc] s r by simp
qed

interpretation http_store: token_store "http_resolve post" "endpoint_grants post url secret" "http_good post url secret"
  for post url secret
proof
  fix m s tok sc slug
  assume good: "http_good post url secret s"
  obtain r s' where run: "http_resolve post m s tok sc = (r, s')" by fastforce
  note sound = http_resolve_sound [OF good run]
  show "http_good post url secret (snd (http_resolve post m s tok sc))" using sound(1) run by simp
  show "fst (http_resolve post m s tok sc) = Some slug \<Longrightarrow> slug \<in> endpoint_grants post url secret tok"
    using sound(2) run by simp
  show "fst (http_resolve post m s tok sc) = Some slug \<Longrightarrow> sc \<noteq> [] \<Longrightarrow> slug = sc"
    using sound(2) run by simp
qed

section \<open>Properties\<close>


definition ex_post :: verify_post where
  "ex_post = (\<lambda>url hdr tok. if tok = ''t'' then
     Some (200, Some \<lparr>v_kind = ''session'', v_slug = [], v_user = ''u'', v_scopes = [(''ada'', ''owner''), (''lab'', ''member'')]\<rparr>)
     else Some (404, None))"

definition ex_moment :: moment where
  "ex_moment = \<lparr>m_check = 10, m_evict = 11, m_store = 12, m_order = []\<rparr>"


text \<open>
  Completeness and freshness of a verdict: with an empty cache entry the store accepts
  exactly the granted scopes (all of them, and a default when any is granted); a stored verdict
  is used until it expires, \<open>ttl\<close> after a positive and \<open>negTTL\<close> after a negative answer, and a
  transient failure (no reply, an unexpected status, an undecodable body) denies and changes
  nothing in the store.
\<close>

theorem http_lookup_fresh:
  assumes "lookup_cached (m_check m) s tok = None"
  shows "case store_fetch post s tok of
      Inl err \<Rightarrow> http_resolve post m s tok sc = (None, s)
    | Inr res \<Rightarrow>
        (fst (http_resolve post m s tok sc) = None \<longleftrightarrow>
           (let S = endpoint_grants post (hs_url s) (hs_secret s) tok in S = {} \<or> sc \<noteq> [] \<and> sc \<notin> S)) \<and>
        (\<forall>now. lookup_cached now (snd (http_resolve post m s tok sc)) tok =
           (if now < m_store m + (if r_ok res then hs_ttl s else hs_negTTL s) then Some res else None))"
proof (cases "store_fetch post s tok")
  case (Inl err)
  then show ?thesis using assms by (simp add: http_resolve_def lookup_def authorize_scope_def)
next
  case (Inr res)
  note v = authorize_verdict [OF fetch_verdict [OF Inr] endpoint_grants_nonempty, of sc]
  show ?thesis using assms Inr v
    by (auto simp: http_resolve_def lookup_def lookup_store_def Let_def lookup_cached_def split: option.splits)
qed

theorem http_lookup_fresh_witness:
  "fst (http_resolve ex_post ex_moment (newHTTPStore ''u'' ''s'') ''t'' ''x'') = None \<and>
   \<not> (let S = endpoint_grants ex_post ''u'' ''s'' ''t'' in S = {} \<or> ''lab'' \<noteq> [] \<and> ''lab'' \<notin> S)"
proof -
  let ?s = "newHTTPStore ''u'' ''s''"
  have miss: "lookup_cached (m_check ex_moment) ?s ''t'' = None"
    by (simp add: lookup_cached_def newHTTPStore_def)
  have hit: "store_fetch ex_post ?s ''t'' = Inr (result_of \<lparr>v_kind = ''session'', v_slug = [], v_user = ''u'',
      v_scopes = [(''ada'', ''owner''), (''lab'', ''member'')]\<rparr>)"
    by (simp add: store_fetch_def ex_post_def newHTTPStore_def)
  have g: "endpoint_grants ex_post ''u'' ''s'' ''t'' = {''ada'', ''lab''}"
    by (auto simp: endpoint_grants_def ex_post_def grants_def)
  show ?thesis using http_lookup_fresh [OF miss, of ex_post "''x''"] hit g by (simp add: newHTTPStore_def)
qed

end
