(* ===== verification/Config.thy ===== *)
theory Config
  imports Naming
begin

text \<open>
  The edge's configuration (\<open>src/internal/config/server.go\<close>, \<open>window.go\<close>, \<open>transport.go\<close>):
  compiled defaults, the YAML decode (an argument, the decoder is a third-party package), the
  environment overrides, and the validation that bounds the receive-window exposure of the
  process. The environment is a partial map; \<open>resolveUDP\<close> stands for \<open>net.ResolveUDPAddr\<close>.
  Go's \<open>int\<close> and \<open>int64\<close> are 64-bit: products are taken with the wrap written out (\<open>wrap64\<close>).
\<close>

definition wrap64 :: "int \<Rightarrow> int" where
  "wrap64 x = (x + 2 ^ 63) mod 2 ^ 64 - 2 ^ 63"

lemma wrap64_id: "- (2 ^ 63) \<le> x \<Longrightarrow> x < 2 ^ 63 \<Longrightarrow> wrap64 x = x"
  by (simp add: wrap64_def)

section \<open>Data\<close>

record authDiscovery =
  deviceCodeURL :: string
  tokenURL :: string
  verificationURI :: string

record captureConfig =
  cap_path :: "bool option"
  cap_clientIP :: "bool option"
  cap_userAgent :: "bool option"
  cap_referer :: "bool option"

record requestLogConfig =
  rl_enabled :: "bool option"
  rl_path :: string
  rl_maxSizeMB :: int
  rl_fsyncMs :: int
  rl_heartbeatSeconds :: int
  rl_ipMode :: string
  rl_capture :: captureConfig

record requestReporterConfig =
  rr_webhookURL :: string
  rr_secretEnv :: string
  rr_batchSize :: int
  rr_flushMs :: int
  rr_cursorFile :: string

record server =
  c_baseDomain :: string
  c_urlShape :: string
  c_edgeIPv4 :: string
  c_edgeIPv6 :: string
  c_listenHTTPS :: string
  c_listenQUIC :: string
  c_disableQUIC :: bool
  c_acmeEmail :: string
  c_acmeCA :: string
  c_dnsProvider :: string
  c_dnsProviderCreds :: string
  c_dnsZone :: string
  c_tokenStore :: string
  c_maxTunnelsPerToken :: int
  c_maxStreamsPerSession :: int
  c_maxStreamsTotal :: int
  c_maxPreAuthSessions :: int
  c_maxSessionsTotal :: int
  c_metricsToken :: string
  c_dataDir :: string
  c_maxRequestBodyBytes :: int
  c_yamuxStreamWindowBytes :: int
  c_previewEmbed :: bool
  c_authDiscovery :: authDiscovery
  c_requestLog :: requestLogConfig
  c_requestReporter :: requestReporterConfig

datatype config_error =
    Required string
  | UnsupportedShape string
  | UnsupportedIPMode string
  | WindowOutOfRange int
  | OutOfRange string int
  | BadListenQUIC string string
  | YamuxExposure int
  | QuicExposure int
  | MustNotBeZero string
  | PresentButEmpty string
  | NotABool string string
  | NotAnInt string string
  | UnsupportedTransport string string
  | AgentExposure int
  | ReadConfig string
  | ParseConfig string

section \<open>Constants\<close>

definition DefaultMaxStreamsPerSession :: int where "DefaultMaxStreamsPerSession = 64"
definition DefaultMaxStreamsTotal :: int where "DefaultMaxStreamsTotal = 128"
definition DefaultMaxPreAuthSessions :: int where "DefaultMaxPreAuthSessions = 32"
definition DefaultMaxSessionsTotal :: int where "DefaultMaxSessionsTotal = 8"
definition MaxStreamsPerSession :: int where "MaxStreamsPerSession = 128"
definition MaxStreamsTotal :: int where "MaxStreamsTotal = 256"
definition MaxPreAuthSessions :: int where "MaxPreAuthSessions = 128"
definition MaxSessionsTotal :: int where "MaxSessionsTotal = 8"
definition MaxYamuxWindowExposureBytes :: int where "MaxYamuxWindowExposureBytes = 2 ^ 30"
definition MaxQUICConnectionWindowBytes :: int where "MaxQUICConnectionWindowBytes = 64 * 2 ^ 20"
definition MaxQUICWindowExposureBytes :: int where "MaxQUICWindowExposureBytes = 512 * 2 ^ 20"
definition DefaultYamuxStreamWindowBytes :: int where "DefaultYamuxStreamWindowBytes = 4 * 2 ^ 20"
definition MinYamuxStreamWindowBytes :: int where "MinYamuxStreamWindowBytes = 256 * 2 ^ 10"
definition MaxYamuxStreamWindowBytes :: int where "MaxYamuxStreamWindowBytes = 16 * 2 ^ 20"
definition AgentMaxStreams :: int where "AgentMaxStreams = 128"
definition MaxAgentYamuxExposureBytes :: int where "MaxAgentYamuxExposureBytes = 2 * 2 ^ 30"

lemmas capacity_consts = DefaultMaxStreamsPerSession_def DefaultMaxStreamsTotal_def DefaultMaxPreAuthSessions_def
  DefaultMaxSessionsTotal_def MaxStreamsPerSession_def MaxStreamsTotal_def MaxPreAuthSessions_def
  MaxSessionsTotal_def MaxYamuxWindowExposureBytes_def MaxQUICConnectionWindowBytes_def
  MaxQUICWindowExposureBytes_def DefaultYamuxStreamWindowBytes_def MinYamuxStreamWindowBytes_def
  MaxYamuxStreamWindowBytes_def AgentMaxStreams_def MaxAgentYamuxExposureBytes_def

section \<open>Toggles and defaults\<close>

definition boolOr :: "bool option \<Rightarrow> bool \<Rightarrow> bool" where
  "boolOr p d = (case p of None \<Rightarrow> d | Some b \<Rightarrow> b)"

definition requestLogEnabled :: "server \<Rightarrow> bool" where
  "requestLogEnabled s = boolOr (rl_enabled (c_requestLog s)) True"

definition captures :: "captureConfig \<Rightarrow> bool \<times> bool \<times> bool \<times> bool" where
  "captures c = (boolOr (cap_path c) True, boolOr (cap_clientIP c) True,
                 boolOr (cap_userAgent c) True, boolOr (cap_referer c) True)"

definition zero_server :: server where
  "zero_server =
     \<lparr>c_baseDomain = [], c_urlShape = [], c_edgeIPv4 = [], c_edgeIPv6 = [], c_listenHTTPS = [], c_listenQUIC = [],
      c_disableQUIC = False, c_acmeEmail = [], c_acmeCA = [], c_dnsProvider = [], c_dnsProviderCreds = [], c_dnsZone = [],
      c_tokenStore = [], c_maxTunnelsPerToken = 0, c_maxStreamsPerSession = 0, c_maxStreamsTotal = 0,
      c_maxPreAuthSessions = 0, c_maxSessionsTotal = 0, c_metricsToken = [], c_dataDir = [], c_maxRequestBodyBytes = 0,
      c_yamuxStreamWindowBytes = 0, c_previewEmbed = False,
      c_authDiscovery = \<lparr>deviceCodeURL = [], tokenURL = [], verificationURI = []\<rparr>,
      c_requestLog = \<lparr>rl_enabled = None, rl_path = [], rl_maxSizeMB = 0, rl_fsyncMs = 0, rl_heartbeatSeconds = 0, rl_ipMode = [],
        rl_capture = \<lparr>cap_path = None, cap_clientIP = None, cap_userAgent = None, cap_referer = None\<rparr>\<rparr>,
      c_requestReporter = \<lparr>rr_webhookURL = [], rr_secretEnv = [], rr_batchSize = 0, rr_flushMs = 0, rr_cursorFile = []\<rparr>\<rparr>"

definition defaultServer :: server where
  "defaultServer = zero_server
     \<lparr>c_disableQUIC := True, c_maxStreamsPerSession := DefaultMaxStreamsPerSession,
      c_maxStreamsTotal := DefaultMaxStreamsTotal, c_maxPreAuthSessions := DefaultMaxPreAuthSessions,
      c_maxSessionsTotal := DefaultMaxSessionsTotal\<rparr>"

section \<open>Validation\<close>

definition validateYamuxWindow :: "int \<Rightarrow> config_error option" where
  "validateYamuxWindow n =
     (if n < MinYamuxStreamWindowBytes \<or> n > MaxYamuxStreamWindowBytes then Some (WindowOutOfRange n) else None)"

definition validateUDPListenAddress :: "(string \<Rightarrow> bool) \<Rightarrow> string \<Rightarrow> string option" where
  "validateUDPListenAddress resolveUDP addr =
     (case split_host_port addr of
        None \<Rightarrow> Some ''invalid UDP listen address''
      | Some (host, port) \<Rightarrow>
          if port = [] then Some ''UDP listen port is required''
          else if parse_uint 16 port = None then Some ''UDP listen port must be numeric''
          else if \<not> resolveUDP addr then Some ''invalid UDP listen address''
          else None)"

definition or_default :: "int \<Rightarrow> int \<Rightarrow> int" where
  "or_default d n = (if n = 0 then d else n)"

text \<open>\<open>FinalizeRuntime\<close>: every assignment comes before the first check.\<close>

definition finalize_defaults :: "server \<Rightarrow> server" where
  "finalize_defaults s =
     (let allZero = c_maxStreamsPerSession s = 0 \<and> c_maxStreamsTotal s = 0 \<and>
                    c_maxPreAuthSessions s = 0 \<and> c_maxSessionsTotal s = 0
      in s\<lparr>c_maxRequestBodyBytes := or_default (32 * 2 ^ 20) (c_maxRequestBodyBytes s),
           c_disableQUIC := allZero \<or> c_disableQUIC s,
           c_maxStreamsPerSession := or_default DefaultMaxStreamsPerSession (c_maxStreamsPerSession s),
           c_maxStreamsTotal := or_default DefaultMaxStreamsTotal (c_maxStreamsTotal s),
           c_maxPreAuthSessions := or_default DefaultMaxPreAuthSessions (c_maxPreAuthSessions s),
           c_maxSessionsTotal := or_default DefaultMaxSessionsTotal (c_maxSessionsTotal s),
           c_listenQUIC := (if c_listenQUIC s = [] then c_listenHTTPS s else c_listenQUIC s),
           c_yamuxStreamWindowBytes := or_default DefaultYamuxStreamWindowBytes (c_yamuxStreamWindowBytes s)\<rparr>)"

definition capacity_check :: "server \<Rightarrow> config_error option" where
  "capacity_check s =
     (if c_maxStreamsPerSession s < 1 \<or> c_maxStreamsPerSession s > MaxStreamsPerSession
      then Some (OutOfRange ''max_streams_per_session'' (c_maxStreamsPerSession s))
      else if c_maxStreamsTotal s < c_maxStreamsPerSession s \<or> c_maxStreamsTotal s > MaxStreamsTotal
      then Some (OutOfRange ''max_streams_total'' (c_maxStreamsTotal s))
      else if c_maxPreAuthSessions s < 1 \<or> c_maxPreAuthSessions s > MaxPreAuthSessions
      then Some (OutOfRange ''max_pre_auth_sessions'' (c_maxPreAuthSessions s))
      else if c_maxSessionsTotal s < 1 \<or> c_maxSessionsTotal s > MaxSessionsTotal
      then Some (OutOfRange ''max_sessions_total'' (c_maxSessionsTotal s))
      else None)"

definition exposure_check :: "server \<Rightarrow> config_error option" where
  "exposure_check s =
     (let yamuxExposure = wrap64 (c_yamuxStreamWindowBytes s * c_maxStreamsTotal s);
          quicExposure = wrap64 (MaxQUICConnectionWindowBytes * c_maxSessionsTotal s)
      in if yamuxExposure > MaxYamuxWindowExposureBytes then Some (YamuxExposure yamuxExposure)
         else if quicExposure > MaxQUICWindowExposureBytes then Some (QuicExposure quicExposure)
         else None)"

definition first_error :: "config_error option list \<Rightarrow> config_error option" where
  "first_error es = foldr (\<lambda>e rest. case e of None \<Rightarrow> rest | Some err \<Rightarrow> Some err) es None"

definition finalize_check :: "(string \<Rightarrow> bool) \<Rightarrow> server \<Rightarrow> config_error option" where
  "finalize_check resolveUDP s =
     first_error
       [validateYamuxWindow (c_yamuxStreamWindowBytes s),
        capacity_check s,
        (if c_disableQUIC s then None
         else map_option (BadListenQUIC (c_listenQUIC s)) (validateUDPListenAddress resolveUDP (c_listenQUIC s))),
        exposure_check s]"

definition finalizeRuntime :: "(string \<Rightarrow> bool) \<Rightarrow> server \<Rightarrow> config_error option \<times> server" where
  "finalizeRuntime resolveUDP s = (let s = finalize_defaults s in (finalize_check resolveUDP s, s))"

definition validate_required :: "server \<Rightarrow> config_error option" where
  "validate_required s =
     (if c_baseDomain s = [] then Some (Required ''base_domain'')
      else if c_listenHTTPS s = [] then Some (Required ''listen_https'')
      else if c_acmeEmail s = [] then Some (Required ''acme_email'')
      else if c_dnsProvider s = [] then Some (Required ''dns_provider'')
      else if c_tokenStore s = [] then Some (Required ''token_store'')
      else None)"

definition validate_defaults :: "server \<Rightarrow> server" where
  "validate_defaults s =
     s\<lparr>c_maxTunnelsPerToken := (if c_maxTunnelsPerToken s \<le> 0 then 25 else c_maxTunnelsPerToken s),
       c_dataDir := (if c_dataDir s = [] then ''/var/lib/beamd'' else c_dataDir s),
       c_maxRequestBodyBytes := or_default (32 * 2 ^ 20) (c_maxRequestBodyBytes s)\<rparr>"

definition validate :: "(string \<Rightarrow> bool) \<Rightarrow> server \<Rightarrow> config_error option \<times> server" where
  "validate resolveUDP s =
     (case validate_required s of
        Some err \<Rightarrow> (Some err, s)
      | None \<Rightarrow>
          (let s = validate_defaults s
           in if c_urlShape s \<notin> {[], ''hyphen'', ''subdomain'', ''flat''}
              then (Some (UnsupportedShape (c_urlShape s)), s)
              else (let s = s\<lparr>c_urlShape := (if c_urlShape s = [] then shape_string ShapeHyphen else c_urlShape s)\<rparr>
                    in if rl_ipMode (c_requestLog s) \<notin> {[], ''truncate'', ''off''}
                       then (Some (UnsupportedIPMode (rl_ipMode (c_requestLog s))), s)
                       else finalizeRuntime resolveUDP s)))"

definition validateConfiguredPartBCapacities :: "server \<Rightarrow> config_error option" where
  "validateConfiguredPartBCapacities s =
     (if c_maxStreamsPerSession s = 0 then Some (MustNotBeZero ''max_streams_per_session'')
      else if c_maxStreamsTotal s = 0 then Some (MustNotBeZero ''max_streams_total'')
      else if c_maxPreAuthSessions s = 0 then Some (MustNotBeZero ''max_pre_auth_sessions'')
      else if c_maxSessionsTotal s = 0 then Some (MustNotBeZero ''max_sessions_total'')
      else None)"

definition config_shape :: "server \<Rightarrow> shape" where
  "config_shape s = parseShape (c_urlShape s)"

section \<open>Environment overrides\<close>

type_synonym env = "string \<Rightarrow> string option"

definition getenv :: "env \<Rightarrow> string \<Rightarrow> string" where
  "getenv env n = (case env n of None \<Rightarrow> [] | Some v \<Rightarrow> v)"

text \<open>The older settings: an unset and an empty variable are the same.\<close>

definition legacy_env :: "env \<Rightarrow> string \<Rightarrow> (string \<Rightarrow> server \<Rightarrow> server) \<Rightarrow> server \<Rightarrow> server" where
  "legacy_env env name dst s = (let v = getenv env name in if v \<noteq> [] then dst v s else s)"

definition legacyStringEnvs :: "env \<Rightarrow> server \<Rightarrow> server" where
  "legacyStringEnvs env s =
     fold (\<lambda>(name, dst). legacy_env env name dst)
       [(''BEAMD_BASE_DOMAIN'', \<lambda>v. c_baseDomain_update (\<lambda>_. v)), (''BEAMD_URL_SHAPE'', \<lambda>v. c_urlShape_update (\<lambda>_. v)),
        (''BEAMD_EDGE_IPV4'', \<lambda>v. c_edgeIPv4_update (\<lambda>_. v)), (''BEAMD_EDGE_IPV6'', \<lambda>v. c_edgeIPv6_update (\<lambda>_. v)),
        (''BEAMD_LISTEN_HTTPS'', \<lambda>v. c_listenHTTPS_update (\<lambda>_. v)), (''BEAMD_ACME_EMAIL'', \<lambda>v. c_acmeEmail_update (\<lambda>_. v)),
        (''BEAMD_ACME_CA'', \<lambda>v. c_acmeCA_update (\<lambda>_. v)), (''BEAMD_DNS_PROVIDER'', \<lambda>v. c_dnsProvider_update (\<lambda>_. v)),
        (''BEAMD_DNS_PROVIDER_CREDS'', \<lambda>v. c_dnsProviderCreds_update (\<lambda>_. v)), (''BEAMD_DNS_ZONE'', \<lambda>v. c_dnsZone_update (\<lambda>_. v)),
        (''BEAMD_TOKEN_STORE'', \<lambda>v. c_tokenStore_update (\<lambda>_. v)), (''BEAMD_DATA_DIR'', \<lambda>v. c_dataDir_update (\<lambda>_. v)),
        (''BEAMD_METRICS_TOKEN'', \<lambda>v. c_metricsToken_update (\<lambda>_. v))] s"

definition preview_env :: "env \<Rightarrow> server \<Rightarrow> server" where
  "preview_env env s =
     (let v = getenv env ''BEAMD_PREVIEW_EMBED''
      in if v \<noteq> [] then (case parse_bool v of Some b \<Rightarrow> s\<lparr>c_previewEmbed := b\<rparr> | None \<Rightarrow> s) else s)"

text \<open>The newer settings: a variable that is present must be non-empty and must parse.\<close>

definition strict_env ::
    "env \<Rightarrow> (string \<Rightarrow> config_error + 'v) \<Rightarrow> string \<Rightarrow> ('v \<Rightarrow> server \<Rightarrow> server) \<Rightarrow> server \<Rightarrow> config_error + server" where
  "strict_env env parse name dst s =
     (case env name of
        None \<Rightarrow> Inr s
      | Some v \<Rightarrow> if v = [] then Inl (PresentButEmpty name)
                  else (case parse v of Inl err \<Rightarrow> Inl err | Inr x \<Rightarrow> Inr (dst x s)))"

fun chain :: "(server \<Rightarrow> config_error + server) list \<Rightarrow> server \<Rightarrow> config_error + server" where
  "chain [] s = Inr s"
| "chain (f # fs) s = (case f s of Inl err \<Rightarrow> Inl err | Inr s' \<Rightarrow> chain fs s')"

definition env_bool :: "string \<Rightarrow> string \<Rightarrow> config_error + bool" where
  "env_bool name v = (case parse_bool v of None \<Rightarrow> Inl (NotABool name v) | Some b \<Rightarrow> Inr b)"

definition env_int :: "string \<Rightarrow> string \<Rightarrow> config_error + int" where
  "env_int name v = (case parse_int 64 v of None \<Rightarrow> Inl (NotAnInt name v) | Some n \<Rightarrow> Inr n)"

definition applyServerEnvOverrides :: "env \<Rightarrow> server \<Rightarrow> config_error + server" where
  "applyServerEnvOverrides env s =
     chain
       [strict_env env Inr ''BEAMD_LISTEN_QUIC'' (\<lambda>v. c_listenQUIC_update (\<lambda>_. v)),
        strict_env env (env_bool ''BEAMD_DISABLE_QUIC'') ''BEAMD_DISABLE_QUIC'' (\<lambda>v. c_disableQUIC_update (\<lambda>_. v)),
        strict_env env (env_int ''BEAMD_MAX_STREAMS_PER_SESSION'') ''BEAMD_MAX_STREAMS_PER_SESSION''
          (\<lambda>v. c_maxStreamsPerSession_update (\<lambda>_. v)),
        strict_env env (env_int ''BEAMD_MAX_STREAMS_TOTAL'') ''BEAMD_MAX_STREAMS_TOTAL'' (\<lambda>v. c_maxStreamsTotal_update (\<lambda>_. v)),
        strict_env env (env_int ''BEAMD_MAX_PRE_AUTH_SESSIONS'') ''BEAMD_MAX_PRE_AUTH_SESSIONS''
          (\<lambda>v. c_maxPreAuthSessions_update (\<lambda>_. v)),
        strict_env env (env_int ''BEAMD_MAX_SESSIONS_TOTAL'') ''BEAMD_MAX_SESSIONS_TOTAL'' (\<lambda>v. c_maxSessionsTotal_update (\<lambda>_. v))]
       (preview_env env (legacyStringEnvs env s))"

text \<open>\<open>unmarshal\<close> is the YAML decoder: it writes the file's keys over the given value.\<close>

definition loadServer ::
    "(string \<Rightarrow> string option) \<Rightarrow> (string \<Rightarrow> server \<Rightarrow> server option) \<Rightarrow> env \<Rightarrow> (string \<Rightarrow> bool) \<Rightarrow> string \<Rightarrow> config_error + server" where
  "loadServer readFile unmarshal env resolveUDP path =
     (case readFile path of
        None \<Rightarrow> Inl (ReadConfig path)
      | Some b \<Rightarrow>
          (case unmarshal b defaultServer of
             None \<Rightarrow> Inl (ParseConfig path)
           | Some cfg \<Rightarrow>
               (case applyServerEnvOverrides env cfg of
                  Inl err \<Rightarrow> Inl err
                | Inr cfg \<Rightarrow>
                    (case validateConfiguredPartBCapacities cfg of
                       Some err \<Rightarrow> Inl err
                     | None \<Rightarrow>
                         (case validate resolveUDP cfg of
                            (Some err, _) \<Rightarrow> Inl err
                          | (None, cfg) \<Rightarrow> Inr cfg)))))"

section \<open>The stream window and the client's transport\<close>

definition resolveYamuxWindow :: "env \<Rightarrow> config_error + int" where
  "resolveYamuxWindow env =
     (case env ''BEAMD_YAMUX_STREAM_WINDOW_BYTES'' of
        None \<Rightarrow> Inr DefaultYamuxStreamWindowBytes
      | Some v \<Rightarrow>
          (case parse_int 64 v of
             None \<Rightarrow> Inl (NotAnInt ''BEAMD_YAMUX_STREAM_WINDOW_BYTES'' v)
           | Some n \<Rightarrow> (case validateYamuxWindow n of Some err \<Rightarrow> Inl err | None \<Rightarrow> Inr n)))"

definition resolveTransport :: "env \<Rightarrow> string \<Rightarrow> config_error + string" where
  "resolveTransport env configured =
     (case env ''BEAMD_TRANSPORT'' of
        Some [] \<Rightarrow> Inl (PresentButEmpty ''BEAMD_TRANSPORT'')
      | v \<Rightarrow>
          (let effective = (case v of Some t \<Rightarrow> t | None \<Rightarrow> configured);
               source = (case v of Some t \<Rightarrow> ''BEAMD_TRANSPORT'' | None \<Rightarrow> ''transport'');
               effective = (if effective = [] then ''tcp'' else effective)
           in if effective \<in> {''tcp'', ''auto'', ''quic''} then Inr effective
              else Inl (UnsupportedTransport source effective)))"

record clientConfig =
  cl_server :: string
  cl_token :: string
  cl_kind :: string
  cl_transport :: string
  cl_insecureSkipVerify :: bool
  cl_agentSocket :: string

definition resolveClientTransport :: "env \<Rightarrow> clientConfig option \<Rightarrow> config_error + string" where
  "resolveClientTransport env client =
     resolveTransport env
       (case client of
          None \<Rightarrow> []
        | Some c \<Rightarrow> if cl_transport c = [] \<and> cl_kind c = ''session'' then ''auto'' else cl_transport c)"

definition validateAgentYamuxWindow :: "int \<Rightarrow> config_error option" where
  "validateAgentYamuxWindow windowBytes =
     (case validateYamuxWindow windowBytes of
        Some err \<Rightarrow> Some err
      | None \<Rightarrow>
          (let exposure = wrap64 (windowBytes * AgentMaxStreams)
           in if exposure > MaxAgentYamuxExposureBytes then Some (AgentExposure exposure) else None))"

lemmas [conf_defs] = validate_def validate_required_def validate_defaults_def finalizeRuntime_def
  finalize_defaults_def finalize_check_def first_error_def capacity_check_def exposure_check_def
  validateYamuxWindow_def or_default_def

section \<open>What an accepted configuration guarantees\<close>

definition capacities_ok :: "server \<Rightarrow> bool" where
  "capacities_ok s \<longleftrightarrow>
     1 \<le> c_maxStreamsPerSession s \<and> c_maxStreamsPerSession s \<le> c_maxStreamsTotal s \<and>
     c_maxStreamsPerSession s \<le> 128 \<and> c_maxStreamsTotal s \<le> 256 \<and>
     1 \<le> c_maxPreAuthSessions s \<and> c_maxPreAuthSessions s \<le> 128 \<and>
     1 \<le> c_maxSessionsTotal s \<and> c_maxSessionsTotal s \<le> 8"

definition exposure_ok :: "server \<Rightarrow> bool" where
  "exposure_ok s \<longleftrightarrow>
     2 ^ 18 \<le> c_yamuxStreamWindowBytes s \<and> c_yamuxStreamWindowBytes s \<le> 2 ^ 24 \<and>
     c_yamuxStreamWindowBytes s * c_maxStreamsTotal s \<le> 2 ^ 30 \<and>
     MaxQUICConnectionWindowBytes * c_maxSessionsTotal s \<le> 2 ^ 29"

lemma first_error_None: "first_error es = None \<longleftrightarrow> (\<forall>e \<in> set es. e = None)"
  by (induction es) (auto simp: first_error_def split: option.splits)

lemma validateYamuxWindow_None: "validateYamuxWindow n = None \<longleftrightarrow> 2 ^ 18 \<le> n \<and> n \<le> 2 ^ 24"
  by (auto simp: validateYamuxWindow_def capacity_consts)

lemma capacity_check_None: "capacity_check s = None \<longleftrightarrow> capacities_ok s"
  by (auto simp: capacity_check_def capacities_ok_def capacity_consts)

text \<open>Within the ranges the products cannot wrap, so the exposure check is exact.\<close>

lemma window_product:
  fixes w n :: int
  assumes "0 \<le> w" "w \<le> 2 ^ 24" "0 \<le> n" "n \<le> 256"
  shows "wrap64 (w * n) = w * n"
proof (rule wrap64_id)
  have "w * n \<le> 2 ^ 24 * 256" using assms by (intro mult_mono) simp_all
  then show "w * n < 2 ^ 63" by simp
  have "0 \<le> w * n" using assms by simp
  then show "- (2 ^ 63) \<le> w * n" by (rule order.trans [rotated]) simp
qed

lemma quic_product:
  assumes "1 \<le> n" "n \<le> 8"
  shows "wrap64 (MaxQUICConnectionWindowBytes * n) = MaxQUICConnectionWindowBytes * n"
  by (rule wrap64_id) (use assms in \<open>simp_all add: capacity_consts\<close>)

lemma exposure_check_None:
  assumes "capacities_ok s" and "validateYamuxWindow (c_yamuxStreamWindowBytes s) = None"
  shows "exposure_check s = None \<longleftrightarrow> exposure_ok s"
proof -
  have w: "2 ^ 18 \<le> c_yamuxStreamWindowBytes s" "c_yamuxStreamWindowBytes s \<le> 2 ^ 24"
    using assms(2) by (simp_all add: validateYamuxWindow_None)
  have y: "wrap64 (c_yamuxStreamWindowBytes s * c_maxStreamsTotal s) = c_yamuxStreamWindowBytes s * c_maxStreamsTotal s"
    using w assms(1) by (intro window_product) (simp_all add: capacities_ok_def)
  have q: "wrap64 (MaxQUICConnectionWindowBytes * c_maxSessionsTotal s) = MaxQUICConnectionWindowBytes * c_maxSessionsTotal s"
    using assms(1) by (intro quic_product) (simp_all add: capacities_ok_def)
  show ?thesis using w
    by (auto simp: exposure_check_def exposure_ok_def Let_def y q MaxYamuxWindowExposureBytes_def MaxQUICWindowExposureBytes_def)
qed

definition quic_ok :: "(string \<Rightarrow> bool) \<Rightarrow> server \<Rightarrow> bool" where
  "quic_ok resolveUDP s \<longleftrightarrow> c_disableQUIC s \<or> validateUDPListenAddress resolveUDP (c_listenQUIC s) = None"

lemma finalize_check_None:
  "finalize_check resolveUDP s = None \<longleftrightarrow> capacities_ok s \<and> exposure_ok s \<and> quic_ok resolveUDP s"
proof -
  have "finalize_check resolveUDP s = None \<longleftrightarrow>
      validateYamuxWindow (c_yamuxStreamWindowBytes s) = None \<and> capacities_ok s \<and> quic_ok resolveUDP s \<and> exposure_check s = None"
    by (auto simp: finalize_check_def first_error_None capacity_check_None quic_ok_def)
  also have "\<dots> \<longleftrightarrow> capacities_ok s \<and> exposure_ok s \<and> quic_ok resolveUDP s"
    using exposure_check_None [of s] by (auto simp: validateYamuxWindow_None exposure_ok_def)
  finally show ?thesis .
qed

lemma finalize_defaults_fix: "capacities_ok s \<Longrightarrow> exposure_ok s \<Longrightarrow> c_maxRequestBodyBytes s \<noteq> 0 \<Longrightarrow> c_listenQUIC s \<noteq> [] \<Longrightarrow>
  finalize_defaults s = s"
  by (auto simp: finalize_defaults_def Let_def or_default_def capacities_ok_def exposure_ok_def)

lemma finalize_defaults_idem: "finalize_defaults (finalize_defaults s) = finalize_defaults s"
  by (auto simp: finalize_defaults_def Let_def or_default_def capacity_consts)

definition required_ok :: "server \<Rightarrow> bool" where
  "required_ok s \<longleftrightarrow> c_baseDomain s \<noteq> [] \<and> c_listenHTTPS s \<noteq> [] \<and> c_acmeEmail s \<noteq> [] \<and> c_dnsProvider s \<noteq> [] \<and>
     c_tokenStore s \<noteq> [] \<and> 0 < c_maxTunnelsPerToken s \<and> c_dataDir s \<noteq> [] \<and> c_maxRequestBodyBytes s \<noteq> 0 \<and>
     c_listenQUIC s \<noteq> [] \<and> c_urlShape s \<in> {''hyphen'', ''subdomain'', ''flat''} \<and>
     rl_ipMode (c_requestLog s) \<in> {[], ''truncate'', ''off''}"

lemma validate_required_None:
  "validate_required s = None \<longleftrightarrow>
     c_baseDomain s \<noteq> [] \<and> c_listenHTTPS s \<noteq> [] \<and> c_acmeEmail s \<noteq> [] \<and> c_dnsProvider s \<noteq> [] \<and> c_tokenStore s \<noteq> []"
  by (simp add: validate_required_def)

lemma finalize_defaults_frame [simp]:
  "c_baseDomain (finalize_defaults s) = c_baseDomain s" "c_listenHTTPS (finalize_defaults s) = c_listenHTTPS s"
  "c_acmeEmail (finalize_defaults s) = c_acmeEmail s" "c_dnsProvider (finalize_defaults s) = c_dnsProvider s"
  "c_tokenStore (finalize_defaults s) = c_tokenStore s" "c_maxTunnelsPerToken (finalize_defaults s) = c_maxTunnelsPerToken s"
  "c_dataDir (finalize_defaults s) = c_dataDir s" "c_urlShape (finalize_defaults s) = c_urlShape s"
  "c_requestLog (finalize_defaults s) = c_requestLog s"
  "c_maxRequestBodyBytes (finalize_defaults s) \<noteq> 0"
  "c_listenHTTPS s \<noteq> [] \<Longrightarrow> c_listenQUIC (finalize_defaults s) \<noteq> []"
  by (simp_all add: finalize_defaults_def Let_def or_default_def)

lemma validate_accepts:
  assumes "validate resolveUDP s = (None, s')"
  shows "required_ok s' \<and> capacities_ok s' \<and> exposure_ok s' \<and> quic_ok resolveUDP s'"
proof -
  define s1 where "s1 = validate_defaults s"
  define s2 where "s2 = s1\<lparr>c_urlShape := (if c_urlShape s1 = [] then shape_string ShapeHyphen else c_urlShape s1)\<rparr>"
  have req: "validate_required s = None" using assms by (auto simp: validate_def split: option.splits)
  have eq: "validate resolveUDP s =
      (if c_urlShape s1 \<notin> {[], ''hyphen'', ''subdomain'', ''flat''} then (Some (UnsupportedShape (c_urlShape s1)), s1)
       else if rl_ipMode (c_requestLog s2) \<notin> {[], ''truncate'', ''off''}
       then (Some (UnsupportedIPMode (rl_ipMode (c_requestLog s2))), s2) else finalizeRuntime resolveUDP s2)"
    by (simp only: validate_def req option.case Let_def s1_def s2_def)
  then have shape: "c_urlShape s1 \<in> {[], ''hyphen'', ''subdomain'', ''flat''}"
    and ip: "rl_ipMode (c_requestLog s2) \<in> {[], ''truncate'', ''off''}"
    and fin: "finalizeRuntime resolveUDP s2 = (None, s')"
    using assms by (auto split: if_splits)
  from fin have s': "s' = finalize_defaults s2" and chk: "finalize_check resolveUDP s' = None"
    by (auto simp: finalizeRuntime_def Let_def)
  have "required_ok s'"
    using req shape ip unfolding s' validate_required_None
    by (auto simp: required_ok_def s2_def s1_def validate_defaults_def shape_string_def)
  then show ?thesis using chk by (simp add: finalize_check_None)
qed

section \<open>Properties\<close>

text \<open>
  C11. A configuration the edge starts with is within its limits: whatever the file and the
  environment say, \<open>LoadServer\<close> either fails or returns a value with every required field set,
  every capacity within its range, a supported URL shape and IP mode, a usable QUIC listen
  address unless QUIC is off, and the receive-window exposure (a product of 64-bit integers
  that does not wrap) at most 1 GiB for yamux and 512 MiB for QUIC.
\<close>

theorem loadServer_bounds:
  assumes "loadServer readFile unmarshal env resolveUDP path = Inr cfg"
  shows "required_ok cfg \<and> capacities_ok cfg \<and> exposure_ok cfg \<and> quic_ok resolveUDP cfg"
  using assms validate_accepts
  by (auto simp: loadServer_def split: option.splits sum.splits prod.splits)

definition ex_server :: server where
  "ex_server = defaultServer
     \<lparr>c_baseDomain := ''b.io'', c_listenHTTPS := '':443'', c_acmeEmail := ''a@b.io'', c_dnsProvider := ''stub'',
      c_tokenStore := ''memory:''\<rparr>"

definition ex_env :: env where
  "ex_env = [''BEAMD_MAX_STREAMS_TOTAL'' \<mapsto> ''200'', ''BEAMD_URL_SHAPE'' \<mapsto> ''flat'']"

definition ex_loaded :: "config_error + server" where
  "ex_loaded = loadServer (\<lambda>_. Some []) (\<lambda>_ s. Some ex_server) ex_env (\<lambda>_. True) ''f''"

lemma ex_loaded_ok: "\<exists>cfg. ex_loaded = Inr cfg \<and> c_maxStreamsTotal cfg = 200"
proof -
  have "case ex_loaded of Inr cfg \<Rightarrow> c_maxStreamsTotal cfg = 200 | Inl _ \<Rightarrow> False" by code_simp
  then show ?thesis by (auto split: sum.splits)
qed

theorem loadServer_bounds_witness:
  "\<exists>cfg. ex_loaded = Inr cfg \<and> exposure_ok cfg \<and> c_maxStreamsTotal cfg = 200"
proof -
  obtain cfg where cfg: "ex_loaded = Inr cfg" "c_maxStreamsTotal cfg = 200" using ex_loaded_ok by blast
  show ?thesis using loadServer_bounds [OF cfg(1) [unfolded ex_loaded_def]] cfg by blast
qed

text \<open>
  \<open>FinalizeRuntime\<close> is idempotent, as its comment promises: a second call changes nothing
  and gives the same verdict, also when the process-wide window has been injected in between
  into a configuration that was accepted; then it accepts exactly the windows that keep the
  exposure within its bound.
\<close>

theorem finalizeRuntime_idempotent:
  "finalizeRuntime resolveUDP (snd (finalizeRuntime resolveUDP s)) = finalizeRuntime resolveUDP s \<and>
   (fst (finalizeRuntime resolveUDP s) = None \<and> c_listenHTTPS s \<noteq> [] \<and> w \<noteq> 0 \<longrightarrow>
      (let s1 = snd (finalizeRuntime resolveUDP s); s2 = s1\<lparr>c_yamuxStreamWindowBytes := w\<rparr>
       in snd (finalizeRuntime resolveUDP s2) = s2 \<and>
          (fst (finalizeRuntime resolveUDP s2) = None \<longleftrightarrow>
             2 ^ 18 \<le> w \<and> w \<le> 2 ^ 24 \<and> w * c_maxStreamsTotal s1 \<le> 2 ^ 30)))"
proof (intro conjI impI)
  show "finalizeRuntime resolveUDP (snd (finalizeRuntime resolveUDP s)) = finalizeRuntime resolveUDP s"
    by (simp add: finalizeRuntime_def Let_def finalize_defaults_idem)
next
  assume a: "fst (finalizeRuntime resolveUDP s) = None \<and> c_listenHTTPS s \<noteq> [] \<and> w \<noteq> 0"
  define s1 where "s1 = finalize_defaults s"
  define s2 where "s2 = s1\<lparr>c_yamuxStreamWindowBytes := w\<rparr>"
  have ok: "capacities_ok s1" "exposure_ok s1" "quic_ok resolveUDP s1"
    using a by (auto simp: finalizeRuntime_def Let_def finalize_check_None s1_def)
  have body: "c_maxRequestBodyBytes s1 \<noteq> 0" "c_listenQUIC s1 \<noteq> []"
    using a unfolding s1_def by simp_all
  have fix2: "finalize_defaults s2 = s2"
    using ok(1) a body by (auto simp: s2_def finalize_defaults_def Let_def or_default_def capacities_ok_def)
  have "finalize_check resolveUDP s2 = None \<longleftrightarrow> 2 ^ 18 \<le> w \<and> w \<le> 2 ^ 24 \<and> w * c_maxStreamsTotal s1 \<le> 2 ^ 30"
    using ok by (auto simp: finalize_check_None s2_def capacities_ok_def exposure_ok_def quic_ok_def)
  then show "let s1 = snd (finalizeRuntime resolveUDP s); s2 = s1\<lparr>c_yamuxStreamWindowBytes := w\<rparr>
      in snd (finalizeRuntime resolveUDP s2) = s2 \<and> (fst (finalizeRuntime resolveUDP s2) = None \<longleftrightarrow>
           2 ^ 18 \<le> w \<and> w \<le> 2 ^ 24 \<and> w * c_maxStreamsTotal s1 \<le> 2 ^ 30)"
    using fix2 by (simp add: finalizeRuntime_def Let_def flip: s1_def s2_def)
qed

theorem finalizeRuntime_idempotent_witness:
  "fst (finalizeRuntime (\<lambda>_. True) ((snd (finalizeRuntime (\<lambda>_. True) ex_server))\<lparr>c_yamuxStreamWindowBytes := 2 ^ 23\<rparr>)) = None"
proof -
  have "fst (finalizeRuntime (\<lambda>_. True) ex_server) = None" by code_simp
  moreover have "c_listenHTTPS ex_server \<noteq> []" by code_simp
  moreover have "c_maxStreamsTotal (snd (finalizeRuntime (\<lambda>_. True) ex_server)) = 128" by code_simp
  ultimately show ?thesis using finalizeRuntime_idempotent [of "\<lambda>_. True" ex_server "2 ^ 23"]
    by (simp add: Let_def)
qed

end
