(* ===== verification/Accounts.thy ===== *)
theory Accounts
  imports Config "HOL-Library.List_Lexorder" "HOL-Library.Char_ord"
begin

text \<open>
  The client's files (\<open>src/internal/config/client.go\<close>, \<open>accounts.go\<close>, \<open>project.go\<close>): one account
  per server under \<open>~/.beamd/accounts\<close>, the global file, and the project context found by
  walking up from the working directory. The file system is a map from paths to contents with
  a set of paths that cannot be accessed; YAML coding is an argument (a third-party package).
\<close>

section \<open>Files\<close>

record fs =
  fs_home :: "string option"  \<comment> \<open>\<open>os.UserHomeDir\<close>\<close>
  fs_files :: "(string, string) gomap"
  fs_denied :: "string list"  \<comment> \<open>paths on which an operation fails\<close>

datatype fs_error = NoHome | ReadFailed string | ParseFailed string | WriteFailed string | RemoveFailed string

datatype read_result = Contents string | NotExist | Failed

definition readFile :: "fs \<Rightarrow> string \<Rightarrow> read_result" where
  "readFile f p = (if p \<in> set (fs_denied f) then Failed
     else (case map_of (fs_files f) p of None \<Rightarrow> NotExist | Some b \<Rightarrow> Contents b))"

definition writeFile :: "string \<Rightarrow> string \<Rightarrow> fs \<Rightarrow> fs_error + fs" where
  "writeFile p b f = (if p \<in> set (fs_denied f) then Inl (WriteFailed p)
     else Inr (f\<lparr>fs_files := AList.update p b (fs_files f)\<rparr>))"

definition removeFile :: "string \<Rightarrow> fs \<Rightarrow> fs_error + fs" where
  "removeFile p f = (if p \<in> set (fs_denied f) then Inl (RemoveFailed p)
     else Inr (f\<lparr>fs_files := AList.delete p (fs_files f)\<rparr>))"

section \<open>Paths\<close>

definition beamdDir :: "fs \<Rightarrow> fs_error + string" where
  "beamdDir f = (case fs_home f of None \<Rightarrow> Inl NoHome | Some h \<Rightarrow> Inr (h @ ''/.beamd''))"

definition under :: "string \<Rightarrow> fs_error + string \<Rightarrow> fs_error + string" where
  "under name d = map_sum id (\<lambda>d. d @ ''/'' @ name) d"

definition defaultClientPath :: "fs \<Rightarrow> fs_error + string" where
  "defaultClientPath f = (case fs_home f of None \<Rightarrow> Inl NoHome | Some h \<Rightarrow> Inr (h @ ''/.beamd/config''))"

definition defaultAgentSocket :: "fs \<Rightarrow> fs_error + string" where
  "defaultAgentSocket f = (case fs_home f of None \<Rightarrow> Inl NoHome | Some h \<Rightarrow> Inr (h @ ''/.beamd/agent.sock''))"

definition accountsDir :: "fs \<Rightarrow> fs_error + string" where
  "accountsDir f = under ''accounts'' (beamdDir f)"

definition agentsDir :: "fs \<Rightarrow> fs_error + string" where
  "agentsDir f = under ''agents'' (beamdDir f)"

definition filename_char :: "char \<Rightarrow> bool" where
  "filename_char c \<longleftrightarrow> in_rng 97 122 c \<or> in_rng 65 90 c \<or> in_rng 48 57 c \<or> c \<in> {CHR ''.'', CHR ''_'', CHR ''-''}"

text \<open>
  \<open>nonFilenameChars.ReplaceAllString(server, "_")\<close>: one underscore for each rune outside
  the class (for a host name and a port all runes are single bytes).
\<close>

definition accountKey :: "string \<Rightarrow> string" where
  "accountKey server = map (\<lambda>r. if r < 128 \<and> filename_char (char_of r) then char_of r else CHR ''_'') (runes_of server)"

definition accountPath :: "fs \<Rightarrow> string \<Rightarrow> fs_error + string" where
  "accountPath f server = under (accountKey server @ ''.yaml'') (accountsDir f)"

definition agentSocketFor :: "fs \<Rightarrow> string \<Rightarrow> fs_error + string" where
  "agentSocketFor f server = under (accountKey server @ ''.sock'') (agentsDir f)"

section \<open>Accounts\<close>

record account =
  a_server :: string
  a_token :: string
  a_transport :: string
  a_kind :: string
  a_insecureSkipVerify :: bool
  a_slug :: string
  a_scopes :: "(string \<times> string) list"  \<comment> \<open>\<open>ScopeRef\<close>: slug and role\<close>
  a_defaultScope :: string

record global =
  g_current :: string
  g_from :: string  \<comment> \<open>\<open>Defaults.From\<close>, \<open>Defaults.Name\<close>\<close>
  g_name :: string

definition zero_global :: global where
  "zero_global = \<lparr>g_current = [], g_from = [], g_name = []\<rparr>"

definition account_client :: "account \<Rightarrow> clientConfig" where
  "account_client a =
     \<lparr>cl_server = a_server a, cl_token = a_token a, cl_kind = a_kind a, cl_transport = a_transport a,
      cl_insecureSkipVerify = a_insecureSkipVerify a, cl_agentSocket = []\<rparr>"

definition accountExists :: "fs \<Rightarrow> string \<Rightarrow> bool" where
  "accountExists f server =
     (case accountPath f server of Inl _ \<Rightarrow> False | Inr p \<Rightarrow> p \<notin> set (fs_denied f) \<and> map_of (fs_files f) p \<noteq> None)"

definition loadAccount :: "(string \<Rightarrow> account option) \<Rightarrow> fs \<Rightarrow> string \<Rightarrow> fs_error + account" where
  "loadAccount unmarshal f server =
     (case accountPath f server of
        Inl err \<Rightarrow> Inl err
      | Inr p \<Rightarrow> (case readFile f p of
                    Contents b \<Rightarrow> (case unmarshal b of None \<Rightarrow> Inl (ParseFailed server) | Some a \<Rightarrow> Inr a)
                  | _ \<Rightarrow> Inl (ReadFailed server)))"

definition saveAccount :: "(account \<Rightarrow> string) \<Rightarrow> account \<Rightarrow> fs \<Rightarrow> fs_error + fs" where
  "saveAccount marshal a f =
     (case accountPath f (a_server a) of Inl err \<Rightarrow> Inl err | Inr p \<Rightarrow> writeFile p (marshal a) f)"

definition deleteAccount :: "string \<Rightarrow> fs \<Rightarrow> fs_error + fs" where
  "deleteAccount server f =
     (case accountPath f server of Inl err \<Rightarrow> Inl err | Inr p \<Rightarrow> removeFile p f)"

text \<open>The entries of a directory (plain files only: a path with one more component).\<close>

definition readDir :: "fs \<Rightarrow> string \<Rightarrow> string list" where
  "readDir f d = filter (\<lambda>p. has_prefix (d @ ''/'') p \<and> CHR ''/'' \<notin> set (drop (length d + 1) p)) (map fst (fs_files f))"

definition listAccounts :: "(string \<Rightarrow> account option) \<Rightarrow> fs \<Rightarrow> fs_error + account list" where
  "listAccounts unmarshal f =
     (case accountsDir f of
        Inl err \<Rightarrow> Inl err
      | Inr d \<Rightarrow>
          Inr (sort_key a_server
            (concat (map (\<lambda>p. case readFile f p of
                 Contents b \<Rightarrow> (case unmarshal b of None \<Rightarrow> [] | Some a \<Rightarrow> if a_server a = [] then [] else [a])
               | _ \<Rightarrow> []) (readDir f d)))))"

definition loadGlobal :: "(string \<Rightarrow> global option) \<Rightarrow> fs \<Rightarrow> fs_error + global" where
  "loadGlobal unmarshal f =
     (case defaultClientPath f of
        Inl err \<Rightarrow> Inl err
      | Inr p \<Rightarrow> (case readFile f p of
                    NotExist \<Rightarrow> Inr zero_global
                  | Failed \<Rightarrow> Inl (ReadFailed p)
                  | Contents b \<Rightarrow> (case unmarshal b of None \<Rightarrow> Inl (ParseFailed p) | Some g \<Rightarrow> Inr g)))"

definition saveGlobal :: "(global \<Rightarrow> string) \<Rightarrow> global \<Rightarrow> fs \<Rightarrow> fs_error + fs" where
  "saveGlobal marshal g f =
     (case defaultClientPath f of Inl err \<Rightarrow> Inl err | Inr p \<Rightarrow> writeFile p (marshal g) f)"

definition saveClient :: "(clientConfig \<Rightarrow> string) \<Rightarrow> clientConfig \<Rightarrow> string \<Rightarrow> fs \<Rightarrow> fs_error + fs" where
  "saveClient marshal c p f = writeFile p (marshal c) f"

definition zero_client :: clientConfig where
  "zero_client = \<lparr>cl_server = [], cl_token = [], cl_kind = [], cl_transport = [], cl_insecureSkipVerify = False, cl_agentSocket = []\<rparr>"

definition loadClient :: "(string \<Rightarrow> clientConfig option) \<Rightarrow> fs \<Rightarrow> string \<Rightarrow> fs_error + clientConfig" where
  "loadClient unmarshal f path =
     (case (case readFile f path of
              NotExist \<Rightarrow> Inr zero_client
            | Failed \<Rightarrow> Inl (ReadFailed path)
            | Contents b \<Rightarrow> (case unmarshal b of None \<Rightarrow> Inl (ParseFailed path) | Some c \<Rightarrow> Inr c)) of
        Inl err \<Rightarrow> Inl err
      | Inr cfg \<Rightarrow>
          if cl_agentSocket cfg = [] then
            (case defaultAgentSocket f of Inl err \<Rightarrow> Inl err | Inr sock \<Rightarrow> Inr (cfg\<lparr>cl_agentSocket := sock\<rparr>))
          else Inr cfg)"

section \<open>Project context\<close>

record project =
  p_server :: string
  p_scope :: string
  p_name :: string
  p_from :: string
  p_services :: "(string, int) gomap"
  p_profile :: string

definition zero_project :: project where
  "zero_project = \<lparr>p_server = [], p_scope = [], p_name = [], p_from = [], p_services = [], p_profile = []\<rparr>"

abbreviation nonempty_or :: "string \<Rightarrow> string \<Rightarrow> string" where
  "nonempty_or d v \<equiv> (if v \<noteq> [] then v else d)"

text \<open>The overlay of one parsed file onto a project.\<close>

definition overlay_project :: "project \<Rightarrow> project \<Rightarrow> project" where
  "overlay_project p ov =
     \<lparr>p_server = nonempty_or (p_server p) (p_server ov), p_scope = nonempty_or (p_scope p) (p_scope ov),
      p_name = nonempty_or (p_name p) (p_name ov), p_from = nonempty_or (p_from p) (p_from ov),
      p_services = fold (\<lambda>(name, port). AList.update name port) (p_services ov) (p_services p),
      p_profile = nonempty_or (p_profile p) (p_profile ov)\<rparr>"

text \<open>
  The file system as discovery sees it: a cleaned absolute directory is the list of its
  components (innermost first, so that \<open>filepath.Dir\<close> is \<open>tl\<close> and the root is \<open>[]\<close>);
  \<open>base\<close> and \<open>local\<close> give what reading \<open>beamd.yaml\<close> and \<open>beamd.local.yaml\<close> of a directory
  yields where they are regular files: an error, or the parsed project.
\<close>

type_synonym dir = "string list"
type_synonym project_files = "dir \<Rightarrow> (fs_error + project) option"

definition load_onto :: "fs_error + project \<Rightarrow> project \<Rightarrow> fs_error + project" where
  "load_onto file p = map_sum id (overlay_project p) file"

fun discover_walk :: "project_files \<Rightarrow> project_files \<Rightarrow> dir option \<Rightarrow> dir \<Rightarrow> dir option \<Rightarrow>
    fs_error + (project \<times> dir) option" where
  "discover_walk base local home dir localDir =
     (let localDir = (if localDir = None \<and> local dir \<noteq> None then Some dir else localDir);
          overlay = (\<lambda>p. case localDir of None \<Rightarrow> Inr p
                         | Some d \<Rightarrow> (case local d of Some file \<Rightarrow> load_onto file p | None \<Rightarrow> Inr p))
      in case base dir of
           Some file \<Rightarrow>
             (case load_onto file zero_project of
                Inl err \<Rightarrow> Inl err
              | Inr p \<Rightarrow> map_sum id (\<lambda>p. Some (p, dir)) (overlay p))
         | None \<Rightarrow>
             if dir = [] \<or> home = Some dir then
               (case localDir of
                  None \<Rightarrow> Inr None
                | Some d \<Rightarrow> map_sum id (\<lambda>p. Some (p, d)) (overlay zero_project))
             else discover_walk base local home (tl dir) localDir)"

declare discover_walk.simps [simp del]

definition discoverProject :: "(string \<Rightarrow> dir option) \<Rightarrow> project_files \<Rightarrow> project_files \<Rightarrow> dir option \<Rightarrow> string \<Rightarrow>
    (fs_error + (project \<times> dir) option) option" where
  "discoverProject absPath base local home startDir =
     map_option (\<lambda>dir. discover_walk base local home dir None) (absPath startDir)"

section \<open>Discovery\<close>

text \<open>The directories the walk visits: up to \<open>$HOME\<close> or the root, inclusive.\<close>

fun ancestors :: "dir option \<Rightarrow> dir \<Rightarrow> dir list" where
  "ancestors home dir = dir # (if dir = [] \<or> home = Some dir then [] else ancestors home (tl dir))"

declare ancestors.simps [simp del]

definition nearest :: "project_files \<Rightarrow> dir option \<Rightarrow> dir list \<Rightarrow> dir option" where
  "nearest local l0 ds = (case l0 of Some d \<Rightarrow> Some d | None \<Rightarrow> find (\<lambda>d. local d \<noteq> None) ds)"

definition overlay_from :: "project_files \<Rightarrow> dir option \<Rightarrow> project \<Rightarrow> fs_error + project" where
  "overlay_from local l p = (case l of None \<Rightarrow> Inr p
     | Some d \<Rightarrow> (case local d of Some file \<Rightarrow> load_onto file p | None \<Rightarrow> Inr p))"

text \<open>What discovery promises, without the loop.\<close>

definition discover_spec :: "project_files \<Rightarrow> project_files \<Rightarrow> dir option \<Rightarrow> dir list \<Rightarrow> fs_error + (project \<times> dir) option" where
  "discover_spec base local l0 up =
     (let below = takeWhile (\<lambda>d. base d = None) up
      in case dropWhile (\<lambda>d. base d = None) up of
           [] \<Rightarrow> (case nearest local l0 below of
                    None \<Rightarrow> Inr None
                  | Some d \<Rightarrow> map_sum id (\<lambda>p. Some (p, d)) (overlay_from local (Some d) zero_project))
         | b # _ \<Rightarrow>
             (case load_onto (the (base b)) zero_project of
                Inl err \<Rightarrow> Inl err
              | Inr p \<Rightarrow> map_sum id (\<lambda>p. Some (p, b)) (overlay_from local (nearest local l0 (below @ [b])) p)))"

lemma discover_walk_unfold:
  "discover_walk base local home dir l0 =
     (case base dir of
        Some pf \<Rightarrow>
          (case load_onto pf zero_project of
             Inl err \<Rightarrow> Inl err
           | Inr p \<Rightarrow> map_sum id (\<lambda>p. Some (p, dir)) (overlay_from local (nearest local l0 [dir]) p))
      | None \<Rightarrow>
          if dir = [] \<or> home = Some dir then
            (case nearest local l0 [dir] of
               None \<Rightarrow> Inr None
             | Some d \<Rightarrow> map_sum id (\<lambda>p. Some (p, d)) (overlay_from local (nearest local l0 [dir]) zero_project))
          else discover_walk base local home (tl dir) (nearest local l0 [dir]))"
proof -
  have near: "nearest local l0 [dir] = (if l0 = None \<and> local dir \<noteq> None then Some dir else l0)"
    by (auto simp: nearest_def split: option.splits)
  show ?thesis unfolding near overlay_from_def
    by (subst discover_walk.simps) (simp only: Let_def)
qed

lemma nearest_Cons: "nearest local l0 (d # ds) = nearest local (nearest local l0 [d]) ds"
  by (auto simp: nearest_def split: option.splits)

lemma discover_walk_spec: "discover_walk base local home dir l0 = discover_spec base local l0 (ancestors home dir)"
proof (induction dir arbitrary: l0)
  case Nil
  show ?case by (subst discover_walk_unfold) (simp add: ancestors.simps discover_spec_def split: option.splits sum.splits)
next
  case (Cons d ds)
  let ?dir = "d # ds"
  show ?case
  proof (cases "base ?dir = None \<and> home \<noteq> Some ?dir")
    case True
    then have "discover_walk base local home ?dir l0 = discover_spec base local (nearest local l0 [?dir]) (ancestors home ds)"
      by (subst discover_walk_unfold) (simp add: Cons.IH)
    also have "\<dots> = discover_spec base local l0 (?dir # ancestors home ds)"
      using True
      by (cases "dropWhile (\<lambda>d. base d = None) (ancestors home ds)")
        (simp_all add: discover_spec_def Let_def nearest_Cons [of local l0 ?dir, symmetric] del: dropWhile_eq_Nil_conv split: sum.splits)
    finally show ?thesis using True by (subst ancestors.simps) simp
  next
    case False
    then show ?thesis
      by (subst discover_walk_unfold, subst ancestors.simps) (auto simp: discover_spec_def split: option.splits sum.splits)
  qed
qed

lemma overlay_services: "map_of (fold (\<lambda>(name, port). AList.update name port) ov m) = map_of m ++ map_of (rev ov)"
proof (induction ov arbitrary: m)
  case (Cons np ov)
  obtain k v where np: "np = (k, v)" by (cases np)
  have "(map_of m)(k \<mapsto> v) ++ map_of (rev ov) = map_of m ++ ([k \<mapsto> v] ++ map_of (rev ov))"
    by (rule ext) (simp add: map_add_def split: option.splits)
  then have "map_of m ++ map_of (rev (np # ov)) = (map_of m)(k \<mapsto> v) ++ map_of (rev ov)"
    unfolding np rev.simps map_of_append by (simp only: map_of.simps fst_conv snd_conv)
  then show ?case using Cons.IH [of "AList.update k v m"] by (simp only: fold_simps np case_prod_conv map_of_update)
qed simp

lemma map_of_rev:
  assumes "wf_map m"
  shows "map_of (rev m) = map_of m"
proof
  fix k
  have "wf_map (rev m)" using assms by (simp add: wf_map_def flip: rev_map)
  then have "map_of (rev m) k = Some v \<longleftrightarrow> map_of m k = Some v" for v
    using assms by (simp add: map_of_in_set)
  then show "map_of (rev m) k = map_of m k" by (metis option.exhaust)
qed

section \<open>Account keys\<close>

definition host_char :: "char \<Rightarrow> bool" where
  "host_char c \<longleftrightarrow> in_rng 97 122 c \<or> in_rng 65 90 c \<or> in_rng 48 57 c \<or> c \<in> {CHR ''.'', CHR ''-''}"

text \<open>A server as \<open>beamd login\<close> stores it: a host name, a colon and a port.\<close>

definition host_port :: "string \<Rightarrow> string \<Rightarrow> string" where
  "host_port h p = h @ CHR '':'' # p"

lemma host_char_ascii: "host_char c \<Longrightarrow> (of_char c :: nat) < 128 \<and> filename_char c \<and> c \<noteq> CHR ''_'' \<and> c \<noteq> CHR '':''"
  by (auto simp: host_char_def filename_char_def in_rng_def)

lemma accountKey_host_port:
  assumes "list_all host_char h" and "list_all host_char p"
  shows "accountKey (host_port h p) = h @ CHR ''_'' # p"
proof -
  have ascii: "list_all (\<lambda>c. (of_char c :: nat) < 128) (host_port h p)"
    using assms host_char_ascii by (auto simp: host_port_def list_all_iff)
  have "(if (of_char c :: nat) < 128 \<and> filename_char (char_of (of_char c :: nat)) then char_of (of_char c :: nat) else CHR ''_'') = c"
    if "host_char c" for c
    using host_char_ascii [OF that] by simp
  then have key: "map (\<lambda>c. if (of_char c :: nat) < 128 \<and> filename_char (char_of (of_char c :: nat)) then char_of (of_char c :: nat) else CHR ''_'') x = x"
    if "list_all host_char x" for x
    using that by (intro map_idI) (simp add: list_all_iff)
  have colon: "\<not> filename_char (char_of (58 :: nat))" by code_simp
  show ?thesis
    using key [OF assms(1)] key [OF assms(2)] colon
    unfolding accountKey_def runes_of_ascii [OF ascii] by (simp add: host_port_def comp_def)
qed

section \<open>Properties\<close>

text \<open>
  Project discovery computes what its comment promises: the nearest \<open>beamd.yaml\<close> at or above
  the start (never above \<open>$HOME\<close>), overlaid by the nearest \<open>beamd.local.yaml\<close> at or below it; an
  overlay alone counts when no base file exists; otherwise nothing. The walk always ends.
\<close>

theorem discoverProject_nearest:
  "discoverProject absPath base local home startDir =
     map_option (\<lambda>dir. discover_spec base local None (ancestors home dir)) (absPath startDir)"
  by (simp add: discoverProject_def discover_walk_spec)

text \<open>
  An overlay wins field by field and service by service: a non-empty field of the overlay
  replaces the base's, an empty one keeps it, and the services are the base's updated by the
  overlay's, so one service can be repointed without restating the rest.
\<close>

theorem overlay_fieldwise:
  assumes "wf_map (p_services ov)"
  shows "map_of (p_services (overlay_project p ov)) = map_of (p_services p) ++ map_of (p_services ov) \<and>
    p_server (overlay_project p ov) = (if p_server ov = [] then p_server p else p_server ov) \<and>
    p_scope (overlay_project p ov) = (if p_scope ov = [] then p_scope p else p_scope ov) \<and>
    p_name (overlay_project p ov) = (if p_name ov = [] then p_name p else p_name ov) \<and>
    p_from (overlay_project p ov) = (if p_from ov = [] then p_from p else p_from ov) \<and>
    overlay_project p zero_project = p"
proof -
  have "map_of (rev (p_services ov)) = map_of (p_services ov)"
    using assms by (rule map_of_rev)
  then show ?thesis by (simp add: overlay_project_def overlay_services) (simp add: zero_project_def)
qed

text \<open>
  Account files: what \<open>SaveAccount\<close> writes \<open>LoadAccount\<close> reads back, \<open>DeleteAccount\<close> removes it,
  and neither touches the account of another server, for servers of the form host:port with
  plain host names. (The YAML coder is only asked to decode what it encoded.)
\<close>

theorem account_roundtrip:
  assumes "saveAccount marshal a f = Inr f'" and "unmarshal (marshal a) = Some a"
    and "list_all host_char h" "list_all host_char p" "list_all host_char h'" "list_all host_char p'"
    and "a_server a = host_port h p"
  shows "loadAccount unmarshal f' (host_port h p) = Inr a \<and> accountExists f' (host_port h p) \<and>
    (host_port h' p' \<noteq> host_port h p \<longrightarrow> loadAccount unmarshal f' (host_port h' p') = loadAccount unmarshal f (host_port h' p')) \<and>
    (\<exists>f''. deleteAccount (host_port h p) f' = Inr f'' \<and> \<not> accountExists f'' (host_port h p))"
proof -
  note keys = accountKey_host_port [OF assms(3,4)] accountKey_host_port [OF assms(5,6)]
  have inj: "h @ CHR ''_'' # p = h' @ CHR ''_'' # p' \<Longrightarrow> h = h' \<and> p = p'"
  proof -
    have "\<not> host_char CHR ''_''" by code_simp
    then have "CHR ''_'' \<notin> set h" "CHR ''_'' \<notin> set h'" using assms(3,5) by (auto simp: list_all_iff)
    then show "h @ CHR ''_'' # p = h' @ CHR ''_'' # p' \<Longrightarrow> h = h' \<and> p = p'"
      using first_sep_inj [of "CHR ''_''" h h' p p'] by blast
  qed
  obtain home where home: "fs_home f = Some home"
    using assms(1) by (auto simp: saveAccount_def accountPath_def accountsDir_def beamdDir_def under_def split: option.splits)
  let ?d = "home @ ''/.beamd/accounts/''"
  have path: "accountPath g s = Inr (?d @ accountKey s @ ''.yaml'')" if "fs_home g = Some home" for g s
    using that by (simp add: accountPath_def accountsDir_def beamdDir_def under_def)
  have ok: "?d @ (h @ CHR ''_'' # p) @ ''.yaml'' \<notin> set (fs_denied f)"
    and f': "f' = f\<lparr>fs_files := AList.update (?d @ (h @ CHR ''_'' # p) @ ''.yaml'') (marshal a) (fs_files f)\<rparr>"
    using assms(1) path [OF home] by (auto simp: saveAccount_def writeFile_def assms(7) keys split: if_splits)
  have home': "fs_home f' = Some home" using home by (simp add: f')
  show ?thesis
  proof (intro conjI impI)
    show "loadAccount unmarshal f' (host_port h p) = Inr a"
      using ok home assms(2) by (simp add: loadAccount_def path f' keys readFile_def)
    show "accountExists f' (host_port h p)" using ok home by (simp add: accountExists_def path f' keys)
    show "loadAccount unmarshal f' (host_port h' p') = loadAccount unmarshal f (host_port h' p')"
      if "host_port h' p' \<noteq> host_port h p"
    proof -
      have "h' @ CHR ''_'' # p' \<noteq> h @ CHR ''_'' # p" using that inj by (auto simp: host_port_def)
      then have "readFile f' (?d @ (h' @ CHR ''_'' # p') @ ''.yaml'') = readFile f (?d @ (h' @ CHR ''_'' # p') @ ''.yaml'')"
        unfolding f' readFile_def by simp
      then show ?thesis
        unfolding loadAccount_def path [OF home] path [OF home'] keys by (simp only: sum.case)
    qed
    show "\<exists>f''. deleteAccount (host_port h p) f' = Inr f'' \<and> \<not> accountExists f'' (host_port h p)"
      using ok home by (simp add: deleteAccount_def removeFile_def accountExists_def path f' keys)
  qed
qed

definition ex_account :: account where
  "ex_account = \<lparr>a_server = ''b.io:443'', a_token = ''t'', a_transport = [], a_kind = ''token'', a_insecureSkipVerify = False,
     a_slug = [], a_scopes = [], a_defaultScope = []\<rparr>"

definition ex_fs :: fs where
  "ex_fs = \<lparr>fs_home = Some ''/h'', fs_files = [], fs_denied = []\<rparr>"

theorem account_roundtrip_witness:
  "\<exists>f'. saveAccount a_token ex_account ex_fs = Inr f' \<and>
     loadAccount (\<lambda>b. if b = ''t'' then Some ex_account else None) f' ''b.io:443'' = Inr ex_account"
proof -
  let ?un = "\<lambda>b. if b = ''t'' then Some ex_account else None"
  obtain f' where f': "saveAccount a_token ex_account ex_fs = Inr f'"
    by (simp add: saveAccount_def accountPath_def accountsDir_def beamdDir_def under_def writeFile_def ex_fs_def)
  have "list_all host_char ''b.io''" "list_all host_char ''443''" by code_simp+
  moreover have "a_server ex_account = host_port ''b.io'' ''443''" "?un (a_token ex_account) = Some ex_account"
    by (simp_all add: ex_account_def host_port_def)
  ultimately have "loadAccount ?un f' (host_port ''b.io'' ''443'') = Inr ex_account"
    using account_roundtrip [OF f', of ?un "''b.io''" "''443''" "''b.io''" "''443''"] by blast
  then show ?thesis using f' by (auto simp: host_port_def)
qed

text \<open>
  Account keys are not injective in general, although their comment says two distinct
  servers never collide: the servers \<open>a:1\<close> and \<open>a_1\<close> share one file, so saving the second
  account replaces the first one's credential.
\<close>

theorem accountKey_collision:
  "''a:1'' \<noteq> ''a_1'' \<and> accountKey ''a:1'' = accountKey ''a_1'' \<and> accountPath f ''a:1'' = accountPath f ''a_1''"
proof -
  have "accountKey ''a:1'' = ''a_1''" "accountKey ''a_1'' = ''a_1''" by code_simp+
  then show ?thesis by (simp add: accountPath_def)
qed

theorem overlay_fieldwise_witness:
  "map_of (p_services (overlay_project (zero_project\<lparr>p_services := [(''api'', 1), (''web'', 2)]\<rparr>)
     (zero_project\<lparr>p_services := [(''api'', 9)]\<rparr>))) ''api'' = Some 9"
  using overlay_fieldwise [of "zero_project\<lparr>p_services := [(''api'', 9)]\<rparr>" "zero_project\<lparr>p_services := [(''api'', 1), (''web'', 2)]\<rparr>"]
  by simp

end
