(* ===== verification/Reqlog_Sink.thy ===== *)
theory Reqlog_Sink
  imports Prelude Go_Lib
begin

text \<open>
  The local request log (\<open>src/internal/reqlog/file.go\<close>): a bounded channel, one writer that
  appends JSON lines through a \<open>bufio.Writer\<close>, and rotation. An event is what the writer
  handles as one unit; the state holds the events in the channel, those in the writer's buffer
  since its last successful flush (\<open>k_buf\<close>), and, as ghost history, those whose line reached
  the disk (\<open>k_saved\<close>) and the number ever handed to \<open>Record\<close>. Each call gets the outcomes of
  the system calls it makes as an argument (\<open>io\<close>), so every error branch is a value.
\<close>

section \<open>State\<close>

record 'ev sink =
  k_maxBytes :: int
  k_tailed :: bool
  k_cap :: nat  \<comment> \<open>\<open>cap(ch)\<close>\<close>
  k_ch :: "'ev list"
  k_dropped :: int
  k_open :: bool  \<comment> \<open>\<open>f\<close> and \<open>w\<close> are not nil\<close>
  k_size :: int
  k_dirty :: bool
  k_rotateBlocked :: bool
  k_pending :: int
  k_writeFailed :: bool
  k_buf :: "'ev list"
  k_saved :: "'ev list"
  k_recorded :: int

record io =
  io_marshal :: bool        \<comment> \<open>\<open>json.Marshal\<close> succeeds\<close>
  io_len :: int             \<comment> \<open>bytes of the line with its newline\<close>
  io_write :: "int option"  \<comment> \<open>\<open>None\<close>: all bytes written; \<open>Some n\<close>: an error after \<open>n\<close> bytes\<close>
  io_dot1 :: bool           \<comment> \<open>\<open>os.Stat(path.1)\<close> succeeds\<close>
  io_flush :: bool          \<comment> \<open>\<open>w.Flush\<close> succeeds\<close>
  io_torn :: bool           \<comment> \<open>\<open>repairTail\<close> cut a torn line\<close>
  io_open :: "int option"   \<comment> \<open>\<open>os.OpenFile\<close>: the size of the opened file\<close>

section \<open>Opening\<close>

definition openOrErr :: "io \<Rightarrow> 'ev sink \<Rightarrow> 'ev sink \<times> int option" where
  "openOrErr i s = (s\<lparr>k_dropped := k_dropped s + (if io_torn i then 1 else 0)\<rparr>, io_open i)"

text \<open>\<open>fs.open\<close>: new handles, a new (empty) buffer, or nil handles.\<close>

definition open_sink :: "io \<Rightarrow> 'ev sink \<Rightarrow> 'ev sink" where
  "open_sink i s =
     (case openOrErr i s of
        (s, None) \<Rightarrow> s\<lparr>k_open := False, k_size := 0, k_buf := []\<rparr>
      | (s, Some sz) \<Rightarrow> s\<lparr>k_open := True, k_size := sz, k_buf := []\<rparr>)"

definition newFileSink :: "int \<Rightarrow> bool \<Rightarrow> int \<Rightarrow> io \<Rightarrow> 'ev sink option" where
  "newFileSink maxBytes tailed buffer i =
     (let s = \<lparr>k_maxBytes = (if maxBytes \<le> 0 then 128 * 2 ^ 20 else maxBytes), k_tailed = tailed,
               k_cap = nat (if buffer \<le> 0 then 4096 else buffer), k_ch = [], k_dropped = 0, k_open = False, k_size = 0,
               k_dirty = False, k_rotateBlocked = False, k_pending = 0, k_writeFailed = False, k_buf = [],
               k_saved = [], k_recorded = 0\<rparr>
      in case openOrErr i s of
           (_, None) \<Rightarrow> None
         | (s, Some sz) \<Rightarrow> Some (s\<lparr>k_open := True, k_size := sz\<rparr>))"

section \<open>Record\<close>

definition record_event :: "'ev \<Rightarrow> 'ev sink \<Rightarrow> 'ev sink" where
  "record_event ev s =
     (if length (k_ch s) < k_cap s
      then s\<lparr>k_ch := k_ch s @ [ev], k_recorded := k_recorded s + 1\<rparr>
      else s\<lparr>k_dropped := k_dropped s + 1, k_recorded := k_recorded s + 1\<rparr>)"

section \<open>The writer\<close>

definition reopen :: "io \<Rightarrow> 'ev sink \<Rightarrow> 'ev sink" where
  "reopen i s =
     open_sink i (s\<lparr>k_dropped := k_dropped s + k_pending s, k_pending := 0, k_dirty := False, k_writeFailed := False\<rparr>)"

text \<open>\<open>rotate\<close> ignores the errors of \<open>Flush\<close>, \<open>Sync\<close>, \<open>Close\<close> and \<open>Rename\<close>.\<close>

definition rotate :: "io \<Rightarrow> 'ev sink \<Rightarrow> 'ev sink" where
  "rotate i s = open_sink i (s\<lparr>k_saved := (if io_flush i then k_saved s @ k_buf s else k_saved s)\<rparr>)"

definition writeOne :: "io \<Rightarrow> 'ev \<Rightarrow> 'ev sink \<Rightarrow> 'ev sink" where
  "writeOne i ev s =
     (if \<not> k_open s then s\<lparr>k_dropped := k_dropped s + 1\<rparr>
      else if \<not> io_marshal i then s\<lparr>k_dropped := k_dropped s + 1\<rparr>
      else (let failed = (if k_writeFailed s then Some 0 else io_write i);
                n = (case failed of None \<Rightarrow> io_len i | Some n \<Rightarrow> n);
                s = s\<lparr>k_size := k_size s + n, k_dirty := True\<rparr>
            in if failed \<noteq> None then s\<lparr>k_dropped := k_dropped s + 1, k_writeFailed := True\<rparr>
               else (let s = s\<lparr>k_buf := k_buf s @ [ev], k_pending := k_pending s + 1\<rparr>
                     in if k_size s < k_maxBytes s then s
                        else if k_tailed s \<and> io_dot1 i then s\<lparr>k_rotateBlocked := True\<rparr>
                        else (rotate i (s\<lparr>k_rotateBlocked := False\<rparr>))\<lparr>k_pending := 0\<rparr>)))"

definition flushTick :: "io \<Rightarrow> 'ev sink \<Rightarrow> 'ev sink" where
  "flushTick i s =
     (if k_writeFailed s then reopen i s
      else if \<not> k_open s then open_sink i s
      else if k_dirty s then
        (if \<not> io_flush i then reopen i s
         else s\<lparr>k_saved := k_saved s @ k_buf s, k_buf := [], k_pending := 0, k_dirty := False\<rparr>)
      else s)"

text \<open>One turn of the writer's loop: an event from the channel, or a tick.\<close>

definition run_event :: "io \<Rightarrow> 'ev sink \<Rightarrow> 'ev sink" where
  "run_event i s = (case k_ch s of [] \<Rightarrow> s | ev # rest \<Rightarrow> writeOne i ev (s\<lparr>k_ch := rest\<rparr>))"

text \<open>
  The writer's exit: it drains the channel, then its deferred \<open>Flush\<close> (whose error is ignored)
  and \<open>Close\<close>. One \<open>io\<close> for each event drained, and one for the flush.
\<close>

fun drain_channel :: "io list \<Rightarrow> 'ev sink \<Rightarrow> 'ev sink" where
  "drain_channel [] s = s"
| "drain_channel (i # is) s = (if k_ch s = [] then s else drain_channel is (run_event i s))"

definition close_sink :: "io list \<Rightarrow> io \<Rightarrow> 'ev sink \<Rightarrow> 'ev sink" where
  "close_sink is i s =
     (let s = drain_channel is s
      in if k_open s \<and> io_flush i \<and> \<not> k_writeFailed s
         then s\<lparr>k_saved := k_saved s @ k_buf s, k_buf := [], k_open := False\<rparr>
         else s\<lparr>k_open := False, k_buf := []\<rparr>)"

lemmas [sink_defs] = record_event_def run_event_def writeOne_def flushTick_def reopen_def rotate_def
  open_sink_def openOrErr_def

section \<open>Loss is observable\<close>

text \<open>Every event ever recorded is on disk, in the buffer, in the channel, or counted as dropped.\<close>

definition accounted :: "'ev sink \<Rightarrow> bool" where
  "accounted s \<longleftrightarrow>
     k_recorded s \<le> int (length (k_saved s)) + int (length (k_buf s)) + int (length (k_ch s)) + k_dropped s \<and>
     k_pending s = int (length (k_buf s)) \<and> length (k_ch s) \<le> k_cap s \<and> (\<not> k_open s \<longrightarrow> k_buf s = [])"

lemma accounted_record: "accounted s \<Longrightarrow> accounted (record_event ev s)"
  by (auto simp: accounted_def record_event_def)

lemma accounted_reopen: "accounted s \<Longrightarrow> accounted (reopen i s)"
  by (auto simp: accounted_def reopen_def open_sink_def openOrErr_def split: option.splits)

lemma accounted_open: "accounted s \<Longrightarrow> \<not> k_open s \<Longrightarrow> accounted (open_sink i s)"
  by (auto simp: accounted_def open_sink_def openOrErr_def split: option.splits)

lemma accounted_flushTick: "accounted s \<Longrightarrow> accounted (flushTick i s)"
  using accounted_reopen [of s i] accounted_open [of s i]
  by (auto simp: flushTick_def) (auto simp: accounted_def)

lemma accounted_rotate:
  assumes "accounted s" and "io_flush i"
  shows "accounted ((rotate i s)\<lparr>k_pending := 0\<rparr>)"
  using assms by (auto simp: accounted_def rotate_def open_sink_def openOrErr_def split: option.splits)

lemma accounted_run_event:
  assumes "accounted s" and "io_flush i"
  shows "accounted (run_event i s)"
proof (cases "k_ch s")
  case (Cons ev rest)
  define s1 where "s1 = s\<lparr>k_ch := rest, k_size := k_size s + io_len i, k_dirty := True, k_buf := k_buf s @ [ev], k_pending := k_pending s + 1\<rparr>"
  have run: "run_event i s = writeOne i ev (s\<lparr>k_ch := rest\<rparr>)" by (simp add: run_event_def Cons)
  show ?thesis
  proof (cases "k_open s \<and> io_marshal i \<and> \<not> k_writeFailed s \<and> io_write i = None")
    case True
    have s1: "accounted s1" "accounted (s1\<lparr>k_rotateBlocked := b\<rparr>)" for b
      using assms(1) Cons True by (auto simp: accounted_def s1_def)
    have "run_event i s = (if k_size s1 < k_maxBytes s1 then s1
        else if k_tailed s1 \<and> io_dot1 i then s1\<lparr>k_rotateBlocked := True\<rparr>
        else (rotate i (s1\<lparr>k_rotateBlocked := False\<rparr>))\<lparr>k_pending := 0\<rparr>)"
      using True unfolding run writeOne_def by (simp add: s1_def Let_def)
    then show ?thesis using s1 accounted_rotate [OF s1(2) assms(2)] by simp
  next
    case False
    then show ?thesis using assms(1) Cons unfolding run writeOne_def
      by (auto simp: accounted_def Let_def)
  qed
qed (use assms in \<open>simp add: run_event_def\<close>)

section \<open>Runs\<close>

text \<open>Callers of \<open>Record\<close> and the writer, interleaved in any order.\<close>

inductive sink_step :: "('ev sink \<Rightarrow> io \<Rightarrow> bool) \<Rightarrow> 'ev sink \<Rightarrow> 'ev sink \<Rightarrow> bool" for ok where
  step_record: "sink_step ok s (record_event ev s)"
| step_write: "ok s i \<Longrightarrow> sink_step ok s (run_event i s)"
| step_tick: "sink_step ok s (flushTick i s)"

inductive_cases sink_stepE: "sink_step ok s s'"

abbreviation flush_works :: "'ev sink \<Rightarrow> io \<Rightarrow> bool" where
  "flush_works \<equiv> \<lambda>_ i. io_flush i"

lemma accounted_new: "newFileSink mb t b i = Some s \<Longrightarrow> accounted s"
  by (auto simp: newFileSink_def Let_def openOrErr_def accounted_def split: option.splits)

lemma sink_steps_accounted: "(sink_step flush_works)\<^sup>*\<^sup>* s s' \<Longrightarrow> accounted s \<Longrightarrow> accounted s'"
proof (induction rule: rtranclp_induct)
  case (step s1 s2)
  show ?case using step(2) step(3) [OF step(4)]
    by (cases rule: sink_step.cases) (auto simp: accounted_record accounted_run_event accounted_flushTick)
qed

section \<open>repairTail\<close>

text \<open>
  The scan for the last newline, backwards in chunks of \<open>chunk\<close> bytes (64 KiB in the code):
  the length to truncate to. \<open>bytes.LastIndexByte\<close> works within one chunk.
\<close>

function scan_back :: "nat \<Rightarrow> string \<Rightarrow> nat \<Rightarrow> nat" where
  "scan_back chunk content end =
     (if end = 0 \<or> chunk = 0 then 0
      else (let start = end - chunk
            in case last_index_byte (CHR 0x0A) (take (end - start) (drop start content)) of
                 Some i \<Rightarrow> start + i + 1
               | None \<Rightarrow> scan_back chunk content start))"
  by pat_completeness auto
termination by (relation "measure (\<lambda>(chunk, content, end). end)") auto

declare scan_back.simps [simp del]

text \<open>\<open>Some\<close> the new content when something was cut.\<close>

definition repairTail :: "string \<Rightarrow> string option" where
  "repairTail content =
     (if content = [] then None
      else if last content = CHR 0x0A then None
      else Some (take (scan_back (64 * 1024) content (length content)) content))"

text \<open>The complete lines of a file: everything up to and including the last newline.\<close>

definition complete_lines :: "string \<Rightarrow> string" where
  "complete_lines content = rev (dropWhile (\<lambda>c. c \<noteq> CHR 0x0A) (rev content))"

lemma complete_lines_split:
  assumes "CHR 0x0A \<notin> set b"
  shows "complete_lines (a @ CHR 0x0A # b) = a @ [CHR 0x0A]"
proof -
  have "dropWhile (\<lambda>c. c \<noteq> CHR 0x0A) (rev b @ CHR 0x0A # rev a) = CHR 0x0A # rev a"
    using assms by (subst dropWhile_append2) auto
  then show ?thesis by (simp add: complete_lines_def)
qed

lemma last_index_byte_Some:
  assumes "last_index_byte c s = Some i"
  shows "i < length s" "s ! i = c" "c \<notin> set (drop (i + 1) s)"
proof -
  obtain a b where s: "s = a @ c # b" "c \<notin> set b"
    using assms by (metis last_index_byte_None option.distinct(1) split_list_last)
  then have "i = length a" using assms by (simp add: last_index_byte_split)
  then show "i < length s" "s ! i = c" "c \<notin> set (drop (i + 1) s)" using s by auto
qed

lemma scan_back_spec:
  assumes "0 < chunk" and "end \<le> length content" and "CHR 0x0A \<notin> set (drop end content)"
  shows "take (scan_back chunk content end) content = complete_lines content"
  using assms
proof (induction chunk content "end" rule: scan_back.induct)
  case (1 chunk content "end")
  let ?start = "end - chunk" and ?c = "CHR 0x0A"
  let ?seg = "take (end - ?start) (drop ?start content)"
  show ?case
  proof (cases "end = 0")
    case True
    then have "?c \<notin> set content" using 1 by simp
    then show ?thesis using True by (subst scan_back.simps) (auto simp: complete_lines_def)
  next
    case False
    have split: "content = take ?start content @ ?seg @ drop end content"
      using "1.prems"(2) by (metis append_assoc append_take_drop_id le_add_diff_inverse diff_le_self take_add take_drop drop_drop add.commute)
    show ?thesis
    proof (cases "last_index_byte ?c ?seg")
      case None
      then have "?c \<notin> set ?seg" by simp
      moreover have "drop ?start content = ?seg @ drop end content"
        using "1.prems"(2) by (metis append_take_drop_id drop_drop le_add_diff_inverse2 diff_le_self)
      ultimately have "?c \<notin> set (drop ?start content)" using "1.prems"(3) by (metis Un_iff set_append)
      then show ?thesis using "1.IH" [OF _ refl None] False "1.prems" None
        by (subst scan_back.simps) (simp add: Let_def del: last_index_byte_None)
    next
      case (Some i)
      note i = last_index_byte_Some [OF Some]
      have seg: "?seg = take i ?seg @ ?c # drop (i + 1) ?seg" using i by (metis Suc_eq_plus1 id_take_nth_drop)
      have content: "content = (take ?start content @ take i ?seg) @ ?c # (drop (i + 1) ?seg @ drop end content)"
        using split seg by (metis append.assoc append_Cons)
      have no: "?c \<notin> set (drop (i + 1) ?seg @ drop end content)" using i(3) "1.prems"(3) by simp
      have "complete_lines content = (take ?start content @ take i ?seg) @ [?c]"
        using complete_lines_split [OF no] content by metis
      moreover have "length (take ?start content @ take i ?seg) = ?start + i"
        using i(1) "1.prems"(2) by simp
      ultimately have "complete_lines content = take (?start + i + 1) content"
        using content by (metis Suc_eq_plus1 append_eq_conv_conj append.assoc append_Cons append_Nil length_append_singleton)
      then show ?thesis using Some False "1.prems"(1) by (subst scan_back.simps) (simp add: Let_def)
    qed
  qed
qed

section \<open>Properties\<close>


definition ex_io :: io where
  "ex_io = \<lparr>io_marshal = True, io_len = 300, io_write = None, io_dot1 = False, io_flush = True, io_torn = False, io_open = Some 0\<rparr>"

definition ex_sink :: "nat sink" where
  "ex_sink = the (newFileSink 100 True 2 ex_io)"

lemma ex_sink_new: "newFileSink 100 True 2 ex_io = Some ex_sink"
  by (simp add: ex_sink_def newFileSink_def openOrErr_def ex_io_def)


text \<open>
  The exception is real: when the flush inside \<open>rotate\<close> fails (a full disk), the buffered
  event is neither on disk nor counted, although the documentation of \<open>Dropped\<close> says loss is
  always observable, never silent.
\<close>

theorem rotate_loses_silently:
  "\<exists>s :: nat sink. (sink_step (\<lambda>_ _. True))\<^sup>*\<^sup>* ex_sink s \<and> k_recorded s = 1 \<and>
     k_saved s = [] \<and> k_buf s = [] \<and> k_ch s = [] \<and> k_dropped s = 0"
proof (intro exI conjI)
  let ?s = "run_event (ex_io\<lparr>io_flush := False\<rparr>) (record_event 7 ex_sink)"
  have "(sink_step (\<lambda>_ _. True))\<^sup>*\<^sup>* ex_sink (record_event 7 ex_sink)"
    by (intro r_into_rtranclp) (rule step_record)
  then show "(sink_step (\<lambda>_ _. True))\<^sup>*\<^sup>* ex_sink ?s"
    by (rule rtranclp.rtrancl_into_rtrancl) (rule step_write, simp)
  show "k_recorded ?s = 1" "k_saved ?s = []" "k_buf ?s = []" "k_ch ?s = []" "k_dropped ?s = 0" by code_simp+
qed

text \<open>
  \<open>repairTail\<close> truncates a log to exactly its complete lines: the chunked backward scan
  finds the last newline wherever the chunk boundaries fall, and a file that already ends in a
  newline (or is empty) is left alone.
\<close>

theorem repairTail_complete_lines:
  "(case repairTail content of None \<Rightarrow> content | Some c \<Rightarrow> c) = complete_lines content \<and>
   (repairTail content = None \<longleftrightarrow> complete_lines content = content)"
proof (cases "content = [] \<or> last content = CHR 0x0A")
  case True
  then have "complete_lines content = content"
    by (cases content rule: rev_cases) (auto simp: complete_lines_def)
  then show ?thesis using True by (auto simp: repairTail_def)
next
  case False
  then obtain xs x where x: "content = xs @ [x]" "x \<noteq> CHR 0x0A" by (cases content rule: rev_cases) auto
  have "length (complete_lines content) \<le> length xs"
    using x length_dropWhile_le [of "\<lambda>c. c \<noteq> CHR 0x0A" "rev xs"] by (simp add: complete_lines_def)
  then have "complete_lines content \<noteq> content" using x by auto
  then show ?thesis using False scan_back_spec [of "64 * 1024" "length content" content]
    by (simp add: repairTail_def)
qed

end
