(* ===== verification/Reqlog_Ship.thy ===== *)
theory Reqlog_Ship
  imports Prelude Go_Lib
begin

text \<open>
  The hosted shipper (\<open>src/internal/reqlog/shipper.go\<close>): it tails the request log from a
  cursor (inode and offset), posts complete lines in batches and follows rotation. The two
  files it reads are part of the state; the control plane's answers and transient read
  errors are consumed from lists in the state (an exhausted answer list rejects), \<open>valid\<close> is
  \<open>json.Valid\<close>, and \<open>p_shipped\<close> records the lines accepted so far.
\<close>

section \<open>State\<close>

abbreviation nl :: char where "nl \<equiv> CHR 0x0A"

record cursor =
  cu_inode :: nat
  cu_offset :: nat

type_synonym logfile = "nat \<times> string"  \<comment> \<open>inode and content\<close>

record shipper =
  p_batch :: nat
  p_live :: "logfile option"    \<comment> \<open>\<open>logPath\<close>\<close>
  p_rot :: "logfile option"     \<comment> \<open>\<open>logPath.1\<close>\<close>
  p_reads :: "bool list"        \<comment> \<open>does the next read succeed; it does when the list is empty\<close>
  p_answers :: "bool list"      \<comment> \<open>is the next batch accepted (2xx)\<close>
  p_canSave :: bool             \<comment> \<open>the cursor file can be written\<close>
  p_saved :: cursor             \<comment> \<open>the cursor file\<close>
  p_shipped :: "string list"

datatype logpath = Live | Rotated

definition file_at :: "logpath \<Rightarrow> shipper \<Rightarrow> logfile option" where
  "file_at p s = (case p of Live \<Rightarrow> p_live s | Rotated \<Rightarrow> p_rot s)"

definition inodeOf :: "logpath \<Rightarrow> shipper \<Rightarrow> nat option" where
  "inodeOf p s = map_option fst (file_at p s)"

definition newShipper :: "int \<Rightarrow> nat" where
  "newShipper batchSize = nat (if batchSize \<le> 0 then 500 else batchSize)"

section \<open>readBatch\<close>

datatype read_error = NotExist | WrongFile | PastEOF | ReadError

text \<open>At most \<open>n\<close> non-empty complete lines, and the bytes they (and empty lines) take.\<close>

function read_lines :: "nat \<Rightarrow> string \<Rightarrow> string list \<times> nat" where
  "read_lines n s =
     (if n = 0 then ([], 0)
      else case index_byte nl s of
             None \<Rightarrow> ([], 0)
           | Some i \<Rightarrow>
               (let line = take i s;
                    (ls, c) = read_lines (if line = [] then n else n - 1) (drop (i + 1) s)
                in (if line = [] then ls else line # ls, i + 1 + c)))"
  by pat_completeness auto
termination
proof (relation "measure (\<lambda>(n, s). length s)")
  fix n :: nat and s i x
  assume "index_byte nl s = Some i"
  then have "s \<noteq> []" by auto
  then show "((if x = [] then n else n - 1, drop (i + 1) s), n, s) \<in> measure (\<lambda>(n, s). length s)"
    by (cases s) simp_all
qed simp

declare read_lines.simps [simp del]

definition readBatch :: "logfile option \<Rightarrow> nat \<Rightarrow> nat \<Rightarrow> nat \<Rightarrow> read_error + string list \<times> nat" where
  "readBatch f wantIno offset mx =
     (case f of
        None \<Rightarrow> Inl NotExist
      | Some (ino, content) \<Rightarrow>
          if wantIno \<noteq> 0 \<and> ino \<noteq> wantIno then Inl WrongFile
          else if offset > length content then Inl PastEOF
          else Inr (read_lines mx (drop offset content)))"

text \<open>The read as \<open>drainFile\<close> sees it: a transient error hides everything but a missing file.\<close>

definition next_read :: "logpath \<Rightarrow> cursor \<Rightarrow> shipper \<Rightarrow> read_error + string list \<times> nat" where
  "next_read p cur s =
     (if file_at p s \<noteq> None \<and> p_reads s \<noteq> [] \<and> \<not> hd (p_reads s) then Inl ReadError
      else readBatch (file_at p s) (cu_inode cur) (cu_offset cur) (p_batch s))"

section \<open>ship, saveCursor\<close>

text \<open>The request body: the lines, already JSON, as the elements of one array.\<close>

definition ship_body :: "string list \<Rightarrow> string" where
  "ship_body lines = ''{\"events\":['' @ join_with '','' lines @ '']}''"

definition ship :: "string list \<Rightarrow> shipper \<Rightarrow> bool \<times> shipper" where
  "ship lines s =
     (case p_answers s of
        [] \<Rightarrow> (False, s)
      | a # rest \<Rightarrow>
          (a, s\<lparr>p_answers := rest, p_shipped := (if a then p_shipped s @ lines else p_shipped s)\<rparr>))"

definition saveCursor :: "cursor \<Rightarrow> shipper \<Rightarrow> shipper" where
  "saveCursor c s = (if p_canSave s then s\<lparr>p_saved := c\<rparr> else s)"

section \<open>drainFile, drain\<close>

definition room :: "logpath \<Rightarrow> cursor \<Rightarrow> shipper \<Rightarrow> nat" where
  "room p cur s = (case file_at p s of
     None \<Rightarrow> 0
   | Some (ino, c) \<Rightarrow> if length c < cu_offset cur then Suc (length c) else length c - cu_offset cur)"

lemma file_at_frame [simp]:
  "file_at p (saveCursor c s) = file_at p s" "file_at p (s\<lparr>p_reads := r\<rparr>) = file_at p s"
  "file_at p (snd (ship ls s)) = file_at p s" "file_at p (s\<lparr>p_answers := a, p_shipped := x\<rparr>) = file_at p s"
  by (simp_all add: file_at_def saveCursor_def ship_def split: logpath.splits list.splits)

lemma read_lines_stop: "n = 0 \<or> nl \<notin> set s \<Longrightarrow> read_lines n s = ([], 0)"
  using index_byte_None [of nl s] by (subst read_lines.simps) (auto simp del: index_byte_None)

lemma read_lines_step:
  assumes "n \<noteq> 0" and "nl \<notin> set a"
  shows "read_lines n (a @ nl # b) =
    (let (ls, c) = read_lines (if a = [] then n else n - 1) b in (if a = [] then ls else a # ls, length a + 1 + c))"
  using assms by (subst read_lines.simps) (simp add: index_byte_split)

lemma read_lines_le: "read_lines n s = (ls, c) \<Longrightarrow> c \<le> length s"
proof (induction "length s" arbitrary: n s ls c rule: less_induct)
  case less
  show ?case
  proof (cases "n = 0 \<or> nl \<notin> set s")
    case True
    then show ?thesis using less.prems by (simp add: read_lines_stop)
  next
    case False
    then obtain a b where s: "s = a @ nl # b" "nl \<notin> set a" by (meson split_list_first)
    obtain ls' c' where r: "read_lines (if a = [] then n else n - 1) b = (ls', c')" by fastforce
    have "c' \<le> length b" using less.hyps [OF _ r] s by simp
    then show ?thesis using less.prems False s r by (simp add: read_lines_step)
  qed
qed

lemma next_read_Inr:
  assumes "next_read p cur s = Inr (ls, c)"
  shows "\<exists>ino content. file_at p s = Some (ino, content) \<and> cu_offset cur \<le> length content \<and>
    (cu_inode cur \<noteq> 0 \<longrightarrow> ino = cu_inode cur) \<and> read_lines (p_batch s) (drop (cu_offset cur) content) = (ls, c)"
  using assms by (auto simp: next_read_def readBatch_def split: if_splits option.splits prod.splits)

function drainFile :: "(string \<Rightarrow> bool) \<Rightarrow> logpath \<Rightarrow> cursor \<Rightarrow> shipper \<Rightarrow> bool \<times> cursor \<times> shipper" where
  "drainFile valid p cur s =
     (let s1 = s\<lparr>p_reads := tl (p_reads s)\<rparr>
      in case next_read p cur s of
           Inl NotExist \<Rightarrow> (True, cur, s1)
         | Inl PastEOF \<Rightarrow> (let cur' = cur\<lparr>cu_offset := 0\<rparr> in drainFile valid p cur' (saveCursor cur' s1))
         | Inl WrongFile \<Rightarrow> (False, cur, s1)
         | Inl ReadError \<Rightarrow> (False, cur, s1)
         | Inr (lines, consumed) \<Rightarrow>
             if consumed = 0 then (True, cur, s1)
             else (let good = filter valid lines;
                       (ok, s2) = (if good \<noteq> [] then ship good s1 else (True, s1))
                   in if \<not> ok then (False, cur, s2)
                      else (let cur' = cur\<lparr>cu_offset := cu_offset cur + consumed\<rparr>
                            in drainFile valid p cur' (saveCursor cur' s2))))"
  by pat_completeness auto
termination
proof (relation "measure (\<lambda>(valid, p, cur, s). room p cur s)")
  fix valid :: "string \<Rightarrow> bool" and p cur s s1 cur' x
  assume "s1 = s\<lparr>p_reads := tl (p_reads s)\<rparr>" "next_read p cur s = Inl x" "x = PastEOF" "cur' = cur\<lparr>cu_offset := 0\<rparr>"
  then show "((valid, p, cur', saveCursor cur' s1), valid, p, cur, s) \<in> measure (\<lambda>(valid, p, cur, s). room p cur s)"
    by (auto simp: room_def next_read_def readBatch_def split: option.splits if_splits)
next
  fix valid :: "string \<Rightarrow> bool" and p cur s s1 lines consumed good ok s2 cur' x y xa
  assume a: "s1 = s\<lparr>p_reads := tl (p_reads s)\<rparr>" "next_read p cur s = Inr x" "(lines, consumed) = x" "consumed \<noteq> 0"
    "good = filter valid lines" "xa = (if good \<noteq> [] then ship good s1 else (True, s1))" "(ok, s2) = xa"
    "cur' = cur\<lparr>cu_offset := cu_offset cur + consumed\<rparr>"
  then obtain ino content where f: "file_at p s = Some (ino, content)" "cu_offset cur \<le> length content"
      "read_lines (p_batch s) (drop (cu_offset cur) content) = (lines, consumed)"
    using next_read_Inr [of p cur s lines consumed] by auto
  have "file_at p s2 = file_at p s" using a by (metis file_at_frame(2,3) prod.inject snd_conv)
  then show "((valid, p, cur', saveCursor cur' s2), valid, p, cur, s) \<in> measure (\<lambda>(valid, p, cur, s). room p cur s)"
    using f a(4,8) read_lines_le [OF f(3)] by (simp add: room_def) linarith
qed simp

declare drainFile.simps [simp del]

text \<open>\<open>drain\<close>: finish the rotated file first, and only then go on to the live one.\<close>

definition drain :: "(string \<Rightarrow> bool) \<Rightarrow> cursor \<Rightarrow> shipper \<Rightarrow> cursor \<times> shipper" where
  "drain valid cur s =
     (case inodeOf Live s of
        None \<Rightarrow> (cur, s)
      | Some ino \<Rightarrow>
          (let fresh = \<lparr>cu_inode = ino, cu_offset = 0\<rparr>;
               live = (\<lambda>cur s. case drainFile valid Live cur s of (_, cur, s) \<Rightarrow> (cur, s));
               next_gen = (\<lambda>s. live fresh (saveCursor fresh s))
           in if cu_inode cur = 0 then
                (case inodeOf Rotated s of
                   None \<Rightarrow> next_gen s
                 | Some oldIno \<Rightarrow>
                     (case drainFile valid Rotated \<lparr>cu_inode = oldIno, cu_offset = 0\<rparr> s of
                        (False, _, s) \<Rightarrow> (cur, s)
                      | (True, _, s) \<Rightarrow> next_gen (s\<lparr>p_rot := None\<rparr>)))
              else if cu_inode cur \<noteq> ino then
                (case inodeOf Rotated s of
                   None \<Rightarrow> next_gen s
                 | Some oldIno \<Rightarrow>
                     if oldIno = cu_inode cur then
                       (case drainFile valid Rotated cur s of
                          (False, cur, s) \<Rightarrow> (cur, s)
                        | (True, _, s) \<Rightarrow> next_gen (s\<lparr>p_rot := None\<rparr>))
                     else
                       (case drainFile valid Rotated \<lparr>cu_inode = oldIno, cu_offset = 0\<rparr> s of
                          (False, _, s) \<Rightarrow> (cur, s)
                        | (True, _, s) \<Rightarrow> next_gen (s\<lparr>p_rot := None\<rparr>)))
              else live cur s))"

section \<open>Lines\<close>

text \<open>The non-empty complete lines of a log.\<close>

definition log_lines :: "string \<Rightarrow> string list" where
  "log_lines c = filter (\<lambda>l. l \<noteq> []) (butlast (split_on nl c))"

lemma log_lines_none [simp]: "nl \<notin> set c \<Longrightarrow> log_lines c = []"
  by (simp add: log_lines_def)

lemma log_lines_step: "nl \<notin> set a \<Longrightarrow> log_lines (a @ nl # b) = (if a = [] then [] else [a]) @ log_lines b"
  by (simp add: log_lines_def split_on_append)

lemma log_lines_Cons_nl: "log_lines (nl # b) = log_lines b"
  using log_lines_step [of "[]" b] by simp

text \<open>A position at which a line starts.\<close>

definition at_line :: "string \<Rightarrow> nat \<Rightarrow> bool" where
  "at_line c off \<longleftrightarrow> off \<le> length c \<and> (off = 0 \<or> c ! (off - 1) = nl)"

lemma log_lines_append:
  "x = [] \<or> last x = nl \<Longrightarrow> log_lines (x @ y) = log_lines x @ log_lines y"
proof (induction "length x" arbitrary: x rule: less_induct)
  case less
  show ?case
  proof (cases "nl \<in> set x")
    case True
    then obtain a b where x: "x = a @ nl # b" "nl \<notin> set a" by (meson split_list_first)
    have "b = [] \<or> last b = nl" using less.prems x by (auto split: if_splits)
    then have "log_lines (b @ y) = log_lines b @ log_lines y" using less.hyps [of b] x by simp
    then show ?thesis using x by (simp add: log_lines_step)
  next
    case False
    then have "x = []" using less.prems last_in_set by fastforce
    then show ?thesis by (simp add: log_lines_def)
  qed
qed

lemma at_line_take: "at_line c off \<Longrightarrow> take off c = [] \<or> last (take off c) = nl"
  by (cases "take off c = []") (auto simp: at_line_def last_conv_nth)

lemma log_lines_mono: "set (log_lines c) \<subseteq> set (log_lines (c @ x))"
proof (cases "nl \<in> set c")
  case True
  then obtain a b where c: "c = a @ nl # b" "nl \<notin> set b" by (meson split_list_last)
  have "log_lines ((a @ [nl]) @ b) = log_lines (a @ [nl]) @ log_lines b"
    "log_lines ((a @ [nl]) @ b @ x) = log_lines (a @ [nl]) @ log_lines (b @ x)"
    by (rule log_lines_append, simp)+
  then show ?thesis using c by simp
qed simp

lemma read_lines_spec:
  assumes "read_lines n s = (ls, c)"
  shows "log_lines (take c s) = ls \<and> at_line s c \<and> (0 < n \<and> c = 0 \<longrightarrow> log_lines s = [])"
  using assms
proof (induction "length s" arbitrary: n s ls c rule: less_induct)
  case less
  show ?case
  proof (cases "n = 0 \<or> nl \<notin> set s")
    case True
    then show ?thesis using less.prems by (auto simp: read_lines_stop at_line_def)
  next
    case False
    then obtain a b where s: "s = a @ nl # b" "nl \<notin> set a" by (meson split_list_first)
    obtain ls' c' where r: "read_lines (if a = [] then n else n - 1) b = (ls', c')" by fastforce
    have IH: "log_lines (take c' b) = ls'" "at_line b c'" using less.hyps [OF _ r] s by auto
    have eq: "ls = (if a = [] then ls' else a # ls')" "c = length a + 1 + c'"
      using less.prems False s r by (auto simp: read_lines_step)
    have "take c s = a @ nl # take c' b" by (simp add: s eq)
    then have "log_lines (take c s) = ls" using IH s by (simp add: log_lines_step eq)
    moreover have "at_line s c"
      using IH(2) by (cases c') (auto simp: at_line_def s eq nth_append)
    ultimately show ?thesis by (simp add: eq)
  qed
qed

section \<open>What drainFile guarantees\<close>

definition shipped_to :: "(string \<Rightarrow> bool) \<Rightarrow> string \<Rightarrow> nat \<Rightarrow> shipper \<Rightarrow> bool" where
  "shipped_to valid c off s \<longleftrightarrow> at_line c off \<and> (\<forall>l \<in> set (log_lines (take off c)). valid l \<longrightarrow> l \<in> set (p_shipped s))"

definition all_shipped :: "(string \<Rightarrow> bool) \<Rightarrow> string \<Rightarrow> shipper \<Rightarrow> bool" where
  "all_shipped valid c s \<longleftrightarrow> (\<forall>l \<in> set (log_lines c). valid l \<longrightarrow> l \<in> set (p_shipped s))"

text \<open>Everything but the answers consumed, the lines shipped and the cursor file is untouched.\<close>

definition ships_from :: "shipper \<Rightarrow> shipper \<Rightarrow> bool" where
  "ships_from s s' \<longleftrightarrow> p_live s' = p_live s \<and> p_rot s' = p_rot s \<and> p_batch s' = p_batch s \<and>
     p_canSave s' = p_canSave s \<and> set (p_shipped s) \<subseteq> set (p_shipped s')"

lemma ships_from_refl [simp]: "ships_from s s"
  by (simp add: ships_from_def)

lemma ships_from_trans: "ships_from s s1 \<Longrightarrow> ships_from s1 s2 \<Longrightarrow> ships_from s s2"
  by (auto simp: ships_from_def)

lemma ships_from_save [simp]: "ships_from s (saveCursor c s)"
  by (simp add: ships_from_def saveCursor_def)

lemma ships_from_ship: "ships_from s (snd (ship ls s))"
  by (auto simp: ships_from_def ship_def split: list.splits)

lemma shipped_to_mono: "shipped_to valid c off s \<Longrightarrow> ships_from s s' \<Longrightarrow> shipped_to valid c off s'"
  by (auto simp: shipped_to_def ships_from_def)

lemma shipped_to_0 [simp]: "shipped_to valid c 0 s"
  by (simp add: shipped_to_def at_line_def log_lines_def)

lemma at_line_add: "at_line c off \<Longrightarrow> at_line (drop off c) n \<Longrightarrow> at_line c (off + n)"
  by (cases n) (auto simp: at_line_def)

lemma shipped_to_advance:
  assumes "shipped_to valid c off s" and "read_lines n (drop off c) = (ls, k)" and "ships_from s s'"
    and "\<forall>l \<in> set ls. valid l \<longrightarrow> l \<in> set (p_shipped s')"
  shows "shipped_to valid c (off + k) s'"
proof -
  note r = read_lines_spec [OF assms(2)]
  have at: "at_line c off" using assms(1) by (simp add: shipped_to_def)
  have "log_lines (take (off + k) c) = log_lines (take off c) @ ls"
    using r log_lines_append [OF at_line_take [OF at], of "take k (drop off c)"] by (simp add: take_add)
  then show ?thesis
    using assms(4) shipped_to_mono [OF assms(1,3)] at_line_add [OF at] r by (auto simp: shipped_to_def)
qed

lemma all_shipped_end:
  assumes "shipped_to valid c off s" and "read_lines n (drop off c) = (ls, 0)" and "0 < n"
  shows "all_shipped valid c s"
proof -
  have at: "at_line c off" using assms(1) by (simp add: shipped_to_def)
  have "log_lines (drop off c) = []" using read_lines_spec [OF assms(2)] assms(3) by simp
  then have "log_lines c = log_lines (take off c)"
    using log_lines_append [OF at_line_take [OF at], of "drop off c"] by simp
  then show ?thesis using assms(1) by (simp add: all_shipped_def shipped_to_def)
qed

text \<open>One accepted batch (or one without a valid line).\<close>

lemma batch_shipped:
  assumes "(if good \<noteq> [] then ship good s1 else (True, s1)) = (True, s2)"
  shows "ships_from s1 s2" "set good \<subseteq> set (p_shipped s2)" "p_saved s2 = p_saved s1"
  using assms by (auto simp: ship_def ships_from_def split: list.splits if_splits)

lemma batch_refused:
  "(if good \<noteq> [] then ship good s1 else (True, s1)) = (False, s2) \<Longrightarrow> ships_from s1 s2 \<and> p_saved s2 = p_saved s1"
  by (auto simp: ship_def ships_from_def split: list.splits if_splits)

definition saved_ok :: "(string \<Rightarrow> bool) \<Rightarrow> string \<Rightarrow> nat \<Rightarrow> shipper \<Rightarrow> shipper \<Rightarrow> bool" where
  "saved_ok valid c ino s s' \<longleftrightarrow> p_saved s' = p_saved s \<or>
     cu_inode (p_saved s') = ino \<and> shipped_to valid c (cu_offset (p_saved s')) s'"

lemma saved_ok_save:
  "shipped_to valid c (cu_offset cur) s \<Longrightarrow> saved_ok valid c (cu_inode cur) s (saveCursor cur s)"
  by (simp add: saved_ok_def saveCursor_def shipped_to_def)

lemma saved_ok_trans:
  "saved_ok valid c ino s s1 \<Longrightarrow> saved_ok valid c ino s1 s2 \<Longrightarrow> ships_from s1 s2 \<Longrightarrow> saved_ok valid c ino s s2"
  using shipped_to_mono by (auto simp: saved_ok_def)

lemma drainFile_ships:
  assumes "drainFile valid p cur s = (full, cur', s')" and "0 < p_batch s"
    and "file_at p s = Some (ino, c)" and "shipped_to valid c (cu_offset cur) s"
  shows "ships_from s s' \<and> cu_inode cur' = cu_inode cur \<and> shipped_to valid c (cu_offset cur') s' \<and>
    (full \<longrightarrow> all_shipped valid c s') \<and> saved_ok valid c (cu_inode cur) s s'"
  using assms
proof (induction valid p cur s arbitrary: full cur' s' rule: drainFile.induct)
  case (1 valid p cur s)
  let ?s1 = "s\<lparr>p_reads := tl (p_reads s)\<rparr>"
  have s1: "ships_from s ?s1" "p_saved ?s1 = p_saved s" by (simp_all add: ships_from_def)
  have here: ?case if "cur' = cur" "ships_from s s'" "p_saved s' = p_saved s" "full \<longrightarrow> all_shipped valid c s'"
    using that "1.prems"(4) shipped_to_mono by (auto simp: saved_ok_def)
  show ?case
  proof (cases "next_read p cur s")
    case (Inl err)
    then have "err \<noteq> NotExist" using "1.prems"(3) by (auto simp: next_read_def readBatch_def split: if_splits)
    moreover have "err \<noteq> PastEOF"
      using Inl "1.prems"(3,4) by (auto simp: next_read_def readBatch_def shipped_to_def at_line_def split: if_splits)
    ultimately have "full = False \<and> cur' = cur \<and> s' = ?s1"
      using Inl "1.prems"(1) by (subst (asm) drainFile.simps) (cases err; simp)
    then show ?thesis using here s1 by simp
  next
    case (Inr lk)
    obtain lines k where lk: "lk = (lines, k)" by (cases lk)
    have rd: "read_lines (p_batch s) (drop (cu_offset cur) c) = (lines, k)"
      using next_read_Inr [of p cur s lines k] Inr lk "1.prems"(3) by auto
    show ?thesis
    proof (cases "k = 0")
      case True
      then have eq: "full = True" "cur' = cur" "s' = ?s1"
        using Inr lk "1.prems"(1) by (subst (asm) drainFile.simps, simp)+
      have "all_shipped valid c ?s1"
        using all_shipped_end [OF shipped_to_mono [OF "1.prems"(4) s1(1)] _ "1.prems"(2)] rd True by simp
      then show ?thesis using here eq s1 by simp
    next
      case False
      let ?good = "filter valid lines"
      obtain ok s2 where ship: "(if ?good \<noteq> [] then ship ?good ?s1 else (True, ?s1)) = (ok, s2)" by fastforce
      have run: "drainFile valid p cur s = (if \<not> ok then (False, cur, s2)
          else drainFile valid p (cur\<lparr>cu_offset := cu_offset cur + k\<rparr>) (saveCursor (cur\<lparr>cu_offset := cu_offset cur + k\<rparr>) s2))"
        using Inr lk False ship by (subst drainFile.simps) (simp add: Let_def)
      show ?thesis
      proof (cases ok)
        case False
        then have "ok = False" by simp
        then have "ships_from ?s1 s2 \<and> p_saved s2 = p_saved ?s1" using batch_refused [of ?good ?s1 s2] ship by blast
        then show ?thesis using here run False "1.prems"(1) ships_from_trans [OF s1(1)] s1(2) by auto
      next
        case True
        let ?cur = "cur\<lparr>cu_offset := cu_offset cur + k\<rparr>"
        let ?s3 = "saveCursor ?cur s2"
        note b = batch_shipped [OF ship [unfolded eqTrueI [OF True]]]
        have s2: "ships_from s s2" using ships_from_trans [OF s1(1) b(1)] .
        have adv: "shipped_to valid c (cu_offset ?cur) s2"
          using shipped_to_advance [OF "1.prems"(4) rd s2] b(2) by auto
        have s3: "ships_from s ?s3" "shipped_to valid c (cu_offset ?cur) ?s3"
          using ships_from_trans [OF s2 ships_from_save] shipped_to_mono [OF adv ships_from_save] by auto
        have rec: "drainFile valid p ?cur ?s3 = (full, cur', s')" using run True "1.prems"(1) by simp
        have "file_at p ?s3 = Some (ino, c)" "0 < p_batch ?s3"
          using s3(1) "1.prems"(2,3) by (auto simp: ships_from_def file_at_def split: logpath.splits)
        then have IH: "ships_from ?s3 s' \<and> cu_inode cur' = cu_inode ?cur \<and> shipped_to valid c (cu_offset cur') s' \<and>
            (full \<longrightarrow> all_shipped valid c s') \<and> saved_ok valid c (cu_inode ?cur) ?s3 s'"
          using "1.IH"(2) [OF refl Inr lk [symmetric] False refl ship [symmetric] refl _ refl rec _ _ s3(2)] True by simp
        have "saved_ok valid c (cu_inode cur) s ?s3"
          using saved_ok_save [OF adv] b(3) s1(2) by (simp add: saved_ok_def)
        then show ?thesis using IH ships_from_trans [OF s3(1)] saved_ok_trans by auto
      qed
    qed
  qed
qed

section \<open>The log and its shipper\<close>

text \<open>
  The sink appends to the live file and rotates it when no rotated file is left (\<open>Tailed\<close>); the
  shipper drains, or restarts from the cursor file; the control plane and the disk behave as
  they like. A file made by rotation has an inode that neither the other file nor a cursor has.
\<close>

type_synonym system = "cursor \<times> shipper"

inductive ship_step :: "(string \<Rightarrow> bool) \<Rightarrow> system \<Rightarrow> system \<Rightarrow> bool" for valid where
  step_append: "p_live s = Some (i, c) \<Longrightarrow> ship_step valid (cur, s) (cur, s\<lparr>p_live := Some (i, c @ x)\<rparr>)"
| step_rotate: "p_live s = Some (i, c) \<Longrightarrow> p_rot s = None \<Longrightarrow> ino \<notin> {0, i, cu_inode cur, cu_inode (p_saved s)} \<Longrightarrow>
    ship_step valid (cur, s) (cur, s\<lparr>p_live := Some (ino, []), p_rot := Some (i, c)\<rparr>)"
| step_drain: "ship_step valid (cur, s) (drain valid cur s)"
| step_restart: "ship_step valid (cur, s) (p_saved s, s)"
| step_env: "ship_step valid (cur, s) (cur, s\<lparr>p_reads := r, p_answers := a, p_canSave := b\<rparr>)"

definition cursor_ok :: "(string \<Rightarrow> bool) \<Rightarrow> shipper \<Rightarrow> cursor \<Rightarrow> bool" where
  "cursor_ok valid s cur \<longleftrightarrow> cu_inode cur = 0 \<or>
     (\<forall>p c. file_at p s = Some (cu_inode cur, c) \<longrightarrow> shipped_to valid c (cu_offset cur) s)"

definition files_ok :: "shipper \<Rightarrow> bool" where
  "files_ok s \<longleftrightarrow> 0 < p_batch s \<and> (\<forall>p c. file_at p s \<noteq> Some (0, c)) \<and>
     (\<forall>p q i c c'. file_at p s = Some (i, c) \<longrightarrow> file_at q s = Some (i, c') \<longrightarrow> p = q)"

definition ship_inv :: "(string \<Rightarrow> bool) \<Rightarrow> system \<Rightarrow> bool" where
  "ship_inv valid cs \<longleftrightarrow> (case cs of (cur, s) \<Rightarrow> files_ok s \<and> cursor_ok valid s cur \<and> cursor_ok valid s (p_saved s))"

text \<open>The valid lines that are in one of the two files or have been accepted.\<close>

definition kept :: "(string \<Rightarrow> bool) \<Rightarrow> shipper \<Rightarrow> string set" where
  "kept valid s = {l. valid l \<and> (l \<in> set (p_shipped s) \<or> (\<exists>p i c. file_at p s = Some (i, c) \<and> l \<in> set (log_lines c)))}"

lemma ships_from_file: "ships_from s s' \<Longrightarrow> file_at q s' = file_at q s"
  by (auto simp: ships_from_def file_at_def split: logpath.splits)

lemma files_ok_ships: "ships_from s s' \<Longrightarrow> files_ok s \<Longrightarrow> files_ok s'"
  unfolding files_ok_def by (simp add: ships_from_file) (simp add: ships_from_def)

lemma cursor_ok_ships: "ships_from s s' \<Longrightarrow> cursor_ok valid s x \<Longrightarrow> cursor_ok valid s' x"
  unfolding cursor_ok_def using ships_from_file shipped_to_mono by metis

lemma cursor_ok_intro:
  "files_ok s \<Longrightarrow> file_at p s = Some (cu_inode cur, c) \<Longrightarrow> shipped_to valid c (cu_offset cur) s \<Longrightarrow> cursor_ok valid s cur"
  unfolding cursor_ok_def files_ok_def by (metis option.inject prod.inject)

lemma cursor_ok_at: "cursor_ok valid s cur \<Longrightarrow> file_at p s = Some (cu_inode cur, c) \<Longrightarrow> cu_inode cur \<noteq> 0 \<Longrightarrow>
  shipped_to valid c (cu_offset cur) s"
  by (auto simp: cursor_ok_def)

lemma kept_ships: "ships_from s s' \<Longrightarrow> kept valid s \<subseteq> kept valid s'"
  unfolding kept_def by (auto simp: ships_from_file) (auto simp: ships_from_def)

lemma drainFile_inv:
  assumes ok: "files_ok s" "cursor_ok valid s (p_saved s)"
    and at: "file_at p s = Some (cu_inode cur, c)" "shipped_to valid c (cu_offset cur) s"
    and run: "drainFile valid p cur s = (full, cur', s')"
  shows "ships_from s s' \<and> files_ok s' \<and> cursor_ok valid s' (p_saved s') \<and> cursor_ok valid s' cur' \<and>
    cu_inode cur' = cu_inode cur \<and> (full \<longrightarrow> all_shipped valid c s')"
proof -
  have "0 < p_batch s" using ok(1) by (simp add: files_ok_def)
  note d = drainFile_ships [OF run this at]
  have s': "ships_from s s'" "files_ok s'" "file_at p s' = Some (cu_inode cur, c)"
    using d files_ok_ships [OF _ ok(1)] ships_from_file at(1) by auto
  have "cursor_ok valid s' cur'" using cursor_ok_intro [OF s'(2)] s'(3) d by auto
  moreover have "cursor_ok valid s' (p_saved s')"
    using d cursor_ok_ships [OF s'(1) ok(2)] cursor_ok_intro [OF s'(2), of p "p_saved s'" c valid] s'(3)
    by (auto simp: saved_ok_def)
  ultimately show ?thesis using d s' by blast
qed

text \<open>Going on with the live file, from its start or from a cursor that tracks it.\<close>

lemma live_inv:
  assumes ok: "files_ok s" "cursor_ok valid s (p_saved s)" and cur: "cursor_ok valid s cur" "inodeOf Live s = Some (cu_inode cur)"
    and run: "drainFile valid Live cur s = (full, cur', s')"
  shows "ship_inv valid (cur', s') \<and> kept valid s \<subseteq> kept valid s'"
proof -
  obtain c where c: "file_at Live s = Some (cu_inode cur, c)" using cur(2) by (auto simp: inodeOf_def)
  then have "cu_inode cur \<noteq> 0" using ok(1) by (metis files_ok_def)
  then have "shipped_to valid c (cu_offset cur) s" using cursor_ok_at [OF cur(1) c] by blast
  then show ?thesis using drainFile_inv [OF ok c _ run] kept_ships by (auto simp: ship_inv_def)
qed

lemma next_gen_inv:
  assumes ok: "files_ok s" "cursor_ok valid s (p_saved s)" and ino: "inodeOf Live s = Some ino"
    and run: "drainFile valid Live \<lparr>cu_inode = ino, cu_offset = 0\<rparr> (saveCursor \<lparr>cu_inode = ino, cu_offset = 0\<rparr> s) = (full, cur', s')"
  shows "ship_inv valid (cur', s') \<and> kept valid s \<subseteq> kept valid s'"
proof -
  let ?f = "\<lparr>cu_inode = ino, cu_offset = 0\<rparr>"
  have s: "ships_from s (saveCursor ?f s)" by simp
  have f: "cursor_ok valid (saveCursor ?f s) ?f" by (simp add: cursor_ok_def)
  have "cursor_ok valid (saveCursor ?f s) (p_saved (saveCursor ?f s))"
    using f cursor_ok_ships [OF s ok(2)] by (auto simp: saveCursor_def split: if_splits)
  moreover have "inodeOf Live (saveCursor ?f s) = Some (cu_inode ?f)" using ino by (simp add: inodeOf_def)
  ultimately show ?thesis
    using live_inv [OF files_ok_ships [OF s ok(1)] _ f _ run] kept_ships [OF s, of valid] by blast
qed

lemma remove_rotated:
  assumes "files_ok s" and "cursor_ok valid s (p_saved s)" and "file_at Rotated s = Some (i, c)" and "all_shipped valid c s"
  shows "files_ok (s\<lparr>p_rot := None\<rparr>)" "cursor_ok valid (s\<lparr>p_rot := None\<rparr>) (p_saved (s\<lparr>p_rot := None\<rparr>))"
    "inodeOf Live (s\<lparr>p_rot := None\<rparr>) = inodeOf Live s" "kept valid s \<subseteq> kept valid (s\<lparr>p_rot := None\<rparr>)"
proof -
  have f: "file_at p (s\<lparr>p_rot := None\<rparr>) = (case p of Live \<Rightarrow> file_at Live s | Rotated \<Rightarrow> None)" for p
    by (simp add: file_at_def split: logpath.splits)
  show "files_ok (s\<lparr>p_rot := None\<rparr>)" using assms(1) by (auto simp: files_ok_def f split: logpath.splits)
  show "cursor_ok valid (s\<lparr>p_rot := None\<rparr>) (p_saved (s\<lparr>p_rot := None\<rparr>))"
    using assms(2) by (auto simp: cursor_ok_def f shipped_to_def split: logpath.splits)
  show "inodeOf Live (s\<lparr>p_rot := None\<rparr>) = inodeOf Live s" by (simp add: inodeOf_def f)
  have "l \<in> set (p_shipped s) \<or> (\<exists>i c. file_at Live s = Some (i, c) \<and> l \<in> set (log_lines c))"
    if "valid l" "file_at p s = Some (j, d)" "l \<in> set (log_lines d)" for l p j d
    using that assms(3,4) by (cases p) (auto simp: all_shipped_def)
  then show "kept valid s \<subseteq> kept valid (s\<lparr>p_rot := None\<rparr>)" by (fastforce simp: kept_def f split: logpath.splits)
qed

definition next_gen :: "(string \<Rightarrow> bool) \<Rightarrow> nat \<Rightarrow> shipper \<Rightarrow> cursor \<times> shipper" where
  "next_gen valid ino s =
     snd (drainFile valid Live \<lparr>cu_inode = ino, cu_offset = 0\<rparr> (saveCursor \<lparr>cu_inode = ino, cu_offset = 0\<rparr> s))"

definition rotated_first :: "(string \<Rightarrow> bool) \<Rightarrow> nat \<Rightarrow> cursor \<Rightarrow> (cursor \<Rightarrow> cursor) \<Rightarrow> shipper \<Rightarrow> cursor \<times> shipper" where
  "rotated_first valid ino rc bk s =
     (case drainFile valid Rotated rc s of
        (full, rc', s1) \<Rightarrow> if full then next_gen valid ino (s1\<lparr>p_rot := None\<rparr>) else (bk rc', s1))"

lemma drain_cases:
  "drain valid cur s =
     (case inodeOf Live s of
        None \<Rightarrow> (cur, s)
      | Some ino \<Rightarrow>
          if cu_inode cur = ino \<and> ino \<noteq> 0 then snd (drainFile valid Live cur s)
          else (case inodeOf Rotated s of
                  None \<Rightarrow> next_gen valid ino s
                | Some oldIno \<Rightarrow>
                    if cu_inode cur \<noteq> 0 \<and> oldIno = cu_inode cur then rotated_first valid ino cur id s
                    else rotated_first valid ino \<lparr>cu_inode = oldIno, cu_offset = 0\<rparr> (\<lambda>_. cur) s))"
  unfolding drain_def rotated_first_def next_gen_def Let_def
  by (auto split: option.splits prod.splits bool.splits)

lemma next_gen_ok:
  assumes "files_ok s" "cursor_ok valid s (p_saved s)" "inodeOf Live s = Some ino"
  shows "ship_inv valid (next_gen valid ino s) \<and> kept valid s \<subseteq> kept valid (snd (next_gen valid ino s))"
  using next_gen_inv [OF assms] unfolding next_gen_def by (metis prod.collapse)

lemma rotated_first_ok:
  assumes ok: "files_ok s" "cursor_ok valid s (p_saved s)" and ino: "inodeOf Live s = Some ino"
    and at: "file_at Rotated s = Some (cu_inode rc, c)" "shipped_to valid c (cu_offset rc) s"
    and bk: "bk = id \<or> (\<exists>x. bk = (\<lambda>_. x) \<and> cursor_ok valid s x)"
  shows "ship_inv valid (rotated_first valid ino rc bk s) \<and> kept valid s \<subseteq> kept valid (snd (rotated_first valid ino rc bk s))"
proof -
  obtain full rc' s1 where run: "drainFile valid Rotated rc s = (full, rc', s1)" by (metis prod_cases3)
  note d = drainFile_inv [OF ok at run]
  show ?thesis
  proof (cases full)
    case False
    have "cursor_ok valid s1 (bk rc')" using bk d cursor_ok_ships [of s s1 valid] by auto
    then show ?thesis using False d kept_ships [of s s1 valid] by (auto simp: rotated_first_def run ship_inv_def)
  next
    case True
    have s1: "files_ok s1" "cursor_ok valid s1 (p_saved s1)" "file_at Rotated s1 = Some (cu_inode rc, c)" "all_shipped valid c s1"
      using d True ships_from_file at(1) by auto
    have "inodeOf Live s1 = Some ino" using ino d ships_from_file [of s s1 Live] by (simp add: inodeOf_def)
    then show ?thesis
      using next_gen_ok [OF remove_rotated(1,2) [OF s1]] remove_rotated(3,4) [OF s1] kept_ships [of s s1 valid] d True
      by (auto simp: rotated_first_def run)
  qed
qed

lemma drain_ok:
  assumes "ship_inv valid (cur, s)"
  shows "ship_inv valid (drain valid cur s) \<and> kept valid s \<subseteq> kept valid (snd (drain valid cur s))"
proof (cases "inodeOf Live s")
  case None
  then show ?thesis using assms by (simp add: drain_cases)
next
  case (Some ino)
  have ok: "files_ok s" "cursor_ok valid s (p_saved s)" "cursor_ok valid s cur" using assms by (simp_all add: ship_inv_def)
  show ?thesis
  proof (cases "cu_inode cur = ino \<and> ino \<noteq> 0")
    case True
    obtain full cur' s' where run: "drainFile valid Live cur s = (full, cur', s')" by (metis prod_cases3)
    show ?thesis using live_inv [OF ok(1,2,3) _ run] Some True by (simp add: drain_cases run)
  next
    case False
    show ?thesis
    proof (cases "inodeOf Rotated s")
      case None
      then show ?thesis using next_gen_ok [OF ok(1,2) Some] Some False by (auto simp: drain_cases)
    next
      case rot: (Some old)
      then obtain c where c: "file_at Rotated s = Some (old, c)" by (auto simp: inodeOf_def)
      show ?thesis
      proof (cases "cu_inode cur \<noteq> 0 \<and> old = cu_inode cur")
        case True
        have "shipped_to valid c (cu_offset cur) s" using cursor_ok_at [OF ok(3)] c True by simp
        then have "ship_inv valid (rotated_first valid ino cur id s) \<and> kept valid s \<subseteq> kept valid (snd (rotated_first valid ino cur id s))"
          using rotated_first_ok [OF ok(1,2) Some, of cur c id] c True by simp
        then show ?thesis using Some rot False True by (auto simp: drain_cases)
      next
        case nt: False
        have "ship_inv valid (rotated_first valid ino \<lparr>cu_inode = old, cu_offset = 0\<rparr> (\<lambda>_. cur) s) \<and>
            kept valid s \<subseteq> kept valid (snd (rotated_first valid ino \<lparr>cu_inode = old, cu_offset = 0\<rparr> (\<lambda>_. cur) s))"
          using rotated_first_ok [OF ok(1,2) Some, of "\<lparr>cu_inode = old, cu_offset = 0\<rparr>" c "\<lambda>_. cur"] c ok(3) by auto
        then show ?thesis using Some rot False nt by (auto simp: drain_cases)
      qed
    qed
  qed
qed

lemma append_ok:
  assumes "ship_inv valid (cur, s)" and "p_live s = Some (i, c)"
  shows "ship_inv valid (cur, s\<lparr>p_live := Some (i, c @ x)\<rparr>) \<and> kept valid s \<subseteq> kept valid (s\<lparr>p_live := Some (i, c @ x)\<rparr>)"
proof -
  let ?s = "s\<lparr>p_live := Some (i, c @ x)\<rparr>"
  have f: "file_at p ?s = (case p of Live \<Rightarrow> Some (i, c @ x) | Rotated \<Rightarrow> file_at Rotated s)"
    "file_at Live s = Some (i, c)" for p
    using assms(2) by (simp_all add: file_at_def split: logpath.splits)
  have ship: "shipped_to valid c off s \<Longrightarrow> shipped_to valid (c @ x) off ?s" for off
    by (auto simp: shipped_to_def at_line_def nth_append)
  have same: "shipped_to valid d off ?s = shipped_to valid d off s" for d off by (simp add: shipped_to_def)
  have cur: "cursor_ok valid ?s y" if y: "cursor_ok valid s y" for y
    unfolding cursor_ok_def
  proof (cases "cu_inode y = 0", simp, intro disjI2 allI impI)
    fix p d
    assume n0: "cu_inode y \<noteq> 0" and d: "file_at p ?s = Some (cu_inode y, d)"
    show "shipped_to valid d (cu_offset y) ?s"
    proof (cases p)
      case Live
      then have "d = c @ x" "i = cu_inode y" using d f by auto
      then show ?thesis using ship cursor_ok_at [OF y, of Live c] f(2) n0 by simp
    next
      case Rotated
      then have "file_at Rotated s = Some (cu_inode y, d)" using d f(1) [of Rotated] by simp
      then show ?thesis using same cursor_ok_at [OF y] n0 by simp
    qed
  qed
  have ok: "files_ok s" using assms(1) by (simp add: ship_inv_def)
  have "i \<noteq> 0" "file_at Rotated s \<noteq> Some (i, d)" "file_at Rotated s \<noteq> Some (0, d)" for d
    using ok f(2) unfolding files_ok_def by (metis logpath.distinct(1))+
  then have "files_ok ?s" using ok by (auto simp: files_ok_def f split: logpath.splits)
  moreover have "kept valid s \<subseteq> kept valid ?s"
  proof
    fix l
    assume "l \<in> kept valid s"
    then consider "valid l" "l \<in> set (p_shipped s)" | p j d where "valid l" "file_at p s = Some (j, d)" "l \<in> set (log_lines d)"
      by (auto simp: kept_def)
    then show "l \<in> kept valid ?s"
    proof cases
      case (2 p j d)
      then have "\<exists>d'. file_at p ?s = Some (j, d') \<and> l \<in> set (log_lines d')"
        using f log_lines_mono [of c x] by (cases p) auto
      then show ?thesis using 2(1) by (auto simp: kept_def)
    qed (simp add: kept_def)
  qed
  ultimately show ?thesis using assms(1) cur by (auto simp: ship_inv_def)
qed

lemma rotate_ok:
  assumes inv: "ship_inv valid (cur, s)" and live: "p_live s = Some (i, c)" and rot: "p_rot s = None"
    and ino: "ino \<notin> {0, i, cu_inode cur, cu_inode (p_saved s)}"
  shows "ship_inv valid (cur, s\<lparr>p_live := Some (ino, []), p_rot := Some (i, c)\<rparr>) \<and>
    kept valid s \<subseteq> kept valid (s\<lparr>p_live := Some (ino, []), p_rot := Some (i, c)\<rparr>)"
proof -
  let ?s = "s\<lparr>p_live := Some (ino, []), p_rot := Some (i, c)\<rparr>"
  have f: "file_at p ?s = (case p of Live \<Rightarrow> Some (ino, []) | Rotated \<Rightarrow> Some (i, c))" "file_at Live s = Some (i, c)"
    "file_at Rotated s = None" for p
    using live rot by (simp_all add: file_at_def split: logpath.splits)
  have ok: "files_ok s" "cursor_ok valid s cur" "cursor_ok valid s (p_saved s)" using inv by (simp_all add: ship_inv_def)
  have "cursor_ok valid ?s y" if "cursor_ok valid s y" "cu_inode y \<noteq> ino" for y
    using that cursor_ok_at [OF that(1), of Live c] f(2) by (auto simp: cursor_ok_def f shipped_to_def split: logpath.splits)
  then have "cursor_ok valid ?s cur" "cursor_ok valid ?s (p_saved ?s)" using ok ino by auto
  moreover have "i \<noteq> 0" using ok(1) f(2) unfolding files_ok_def by metis
  then have "files_ok ?s" using ok(1) ino by (auto simp: files_ok_def f split: logpath.splits)
  moreover have "kept valid s \<subseteq> kept valid ?s"
  proof
    fix l
    assume l: "l \<in> kept valid s"
    then have "l \<in> set (p_shipped s) \<or> l \<in> set (log_lines c)" "valid l"
      using f(2,3) by (auto simp: kept_def) (metis logpath.exhaust option.inject option.distinct(1) prod.inject)
    moreover have "file_at Rotated ?s = Some (i, c)" by (simp add: f)
    ultimately show "l \<in> kept valid ?s" by (auto simp: kept_def)
  qed
  ultimately show ?thesis by (simp add: ship_inv_def)
qed

lemma ship_step_ok:
  assumes "ship_step valid cs cs'" and "ship_inv valid cs"
  shows "ship_inv valid cs' \<and> kept valid (snd cs) \<subseteq> kept valid (snd cs')"
  using assms
proof (cases rule: ship_step.cases)
  case (step_env cur s)
  have "file_at p (s\<lparr>p_reads := z, p_answers := x, p_canSave := y\<rparr>) = file_at p s" for p x y z
    by (simp add: file_at_def split: logpath.splits)
  then show ?thesis using step_env assms(2)
    by (auto simp: ship_inv_def files_ok_def cursor_ok_def shipped_to_def kept_def)
next
  case (step_append s i c cur x)
  then show ?thesis using append_ok [of valid cur s i c x] assms(2) by simp
next
  case (step_rotate s i c ino cur)
  then show ?thesis using rotate_ok [of valid cur s i c ino] assms(2) by simp
next
  case (step_drain cur s)
  then show ?thesis using drain_ok [of valid cur s] assms(2) by simp
qed (use assms(2) in \<open>auto simp: ship_inv_def\<close>)

section \<open>Progress\<close>

text \<open>A control plane that accepts the next \<open>n\<close> batches, and a disk without read errors.\<close>

definition willing :: "nat \<Rightarrow> shipper \<Rightarrow> bool" where
  "willing n s \<longleftrightarrow> p_reads s = [] \<and> n \<le> length (p_answers s) \<and> False \<notin> set (take n (p_answers s))"

lemma willing_mono: "willing n s \<Longrightarrow> m \<le> n \<Longrightarrow> willing m s"
  using set_take_subset_set_take [of m n "p_answers s"] by (auto simp: willing_def)

lemma willing_frame [simp]:
  "willing n (saveCursor c s) = willing n s" "willing n (s\<lparr>p_rot := f\<rparr>) = willing n s"
  by (simp_all add: willing_def saveCursor_def)

lemma willing_ship:
  assumes "willing (Suc n) s" and "(if good \<noteq> [] then ship good (s\<lparr>p_reads := []\<rparr>) else (True, s\<lparr>p_reads := []\<rparr>)) = (ok, s2)"
  shows "ok \<and> willing n s2"
proof -
  obtain a rest where a: "p_answers s = a # rest" using assms(1) by (cases "p_answers s") (auto simp: willing_def)
  then have "a" "False \<notin> set (take n rest)" "n \<le> length rest" using assms(1) by (auto simp: willing_def)
  moreover have "willing n (s\<lparr>p_reads := []\<rparr>)" using willing_mono [OF assms(1), of n] by (simp add: willing_def)
  ultimately show ?thesis using assms(2) a by (auto simp: ship_def willing_def split: if_splits)
qed

lemma drainFile_full:
  assumes "drainFile valid p cur s = (full, cur', s')" and "file_at p s = Some (cu_inode cur, c)"
    and "cu_offset cur \<le> length c" and "willing (m + (length c - cu_offset cur)) s"
  shows "full \<and> willing m s'"
  using assms
proof (induction valid p cur s arbitrary: full cur' s' rule: drainFile.induct)
  case (1 valid p cur s)
  have reads: "p_reads s = []" using "1.prems"(4) by (simp add: willing_def)
  have s1: "s\<lparr>p_reads := tl (p_reads s)\<rparr> = s\<lparr>p_reads := []\<rparr>" by (simp add: reads)
  obtain lines k where rd: "read_lines (p_batch s) (drop (cu_offset cur) c) = (lines, k)" by fastforce
  have nr: "next_read p cur s = Inr (lines, k)"
    using "1.prems"(2,3) rd reads by (simp add: next_read_def readBatch_def)
  show ?case
  proof (cases "k = 0")
    case True
    then have "full = True" "s' = s\<lparr>p_reads := []\<rparr>"
      using nr "1.prems"(1) by (subst (asm) drainFile.simps, simp add: s1)+
    moreover have "willing m s" using willing_mono [OF "1.prems"(4)] by simp
    ultimately show ?thesis by (simp add: willing_def)
  next
    case False
    let ?good = "filter valid lines" and ?cur = "cur\<lparr>cu_offset := cu_offset cur + k\<rparr>"
    have k: "k \<le> length c - cu_offset cur" using read_lines_le [OF rd] by simp
    obtain ok s2 where ship: "(if ?good \<noteq> [] then ship ?good (s\<lparr>p_reads := []\<rparr>) else (True, s\<lparr>p_reads := []\<rparr>)) = (ok, s2)"
      by fastforce
    have "willing (Suc (m + (length c - cu_offset ?cur))) s"
      using willing_mono [OF "1.prems"(4)] k False by simp
    note w = willing_ship [OF this ship]
    have rec: "drainFile valid p ?cur (saveCursor ?cur s2) = (full, cur', s')"
      using "1.prems"(1) nr False ship w by (subst (asm) drainFile.simps) (simp add: Let_def s1)
    have "file_at p (saveCursor ?cur s2) = Some (cu_inode ?cur, c)"
      using "1.prems"(2) ship by (metis cursor.select_convs(1) cursor.surjective cursor.update_convs(2) file_at_frame prod.inject snd_conv)
    then show ?thesis
      using "1.IH"(2) [OF refl nr refl False refl ship [symmetric, unfolded s1 [symmetric]] refl _ refl rec] w k "1.prems"(3)
      by simp
  qed
qed

section \<open>Properties\<close>


definition ex_line :: string where "ex_line = ''{}''"

definition ex_shipper :: shipper where
  "ex_shipper = \<lparr>p_batch = 2, p_live = Some (7, ex_line @ [nl]), p_rot = Some (5, ex_line @ [nl] @ ex_line @ [nl]), p_reads = [],
     p_answers = [True, True, True, True, True, True, True, True, True, True], p_canSave = True,
     p_saved = \<lparr>cu_inode = 0, cu_offset = 0\<rparr>, p_shipped = []\<rparr>"

lemma ex_shipper_inv: "ship_inv valid (\<lparr>cu_inode = 0, cu_offset = 0\<rparr>, ex_shipper)"
  by (auto simp: ship_inv_def files_ok_def cursor_ok_def ex_shipper_def file_at_def split: logpath.splits)




end
