(* ===== verification/Traffic.thy ===== *)
theory Traffic
  imports Prelude Go_Lib "HOL-Library.Word" "HOL-Library.List_Lexorder" "HOL-Library.Char_ord" "HOL-Library.Product_Lexorder"
begin

text \<open>
  Byte accounting and response bookkeeping of the edge (\<open>src/internal/edge/traffic.go\<close>,
  \<open>metrics.go\<close>, \<open>reqevents.go\<close>): the per-tunnel traffic store and its file, the counters of a
  proxied connection, the windows of a long-lived connection, the fixed-label metrics, and the
  response recorder. Counters are Go's \<open>int64\<close> (\<open>atomic.Int64\<close>), here \<open>64 word\<close>: additions wrap.
\<close>

type_synonym int64 = "64 word"

section \<open>trafficStore\<close>

type_synonym trafficKey = "string \<times> string"  \<comment> \<open>slug and name\<close>

record trafficCounts =
  t_in :: int64
  t_out :: int64

record trafficRecord =
  tr_slug :: string
  tr_name :: string
  tr_bytesIn :: int64
  tr_bytesOut :: int64

record trafficStore =
  ts_path :: string
  ts_m :: "(trafficKey, trafficCounts) gomap"

abbreviation zero_counts :: trafficCounts where
  "zero_counts \<equiv> \<lparr>t_in = 0, t_out = 0\<rparr>"

definition recordTraffic :: "string \<Rightarrow> string \<Rightarrow> int64 \<Rightarrow> int64 \<Rightarrow> trafficStore \<Rightarrow> trafficStore" where
  "recordTraffic slug name bytesIn bytesOut s =
     (if slug = [] then s
      else (let k = (slug, name);
                c = get_or zero_counts (ts_m s) k
            in s\<lparr>ts_m := AList.update k \<lparr>t_in = t_in c + bytesIn, t_out = t_out c + bytesOut\<rparr> (ts_m s)\<rparr>))"

definition bytesOutBySlug :: "trafficStore \<Rightarrow> (string, int64) gomap" where
  "bytesOutBySlug s =
     fold (\<lambda>(k, c) out. AList.update (fst k) (get_or 0 out (fst k) + t_out c) out) (ts_m s) []"

text \<open>\<open>readFile\<close> yields the decoded records, or nothing when the file is missing or malformed.\<close>

definition traffic_load :: "(string \<Rightarrow> trafficRecord list option) \<Rightarrow> trafficStore \<Rightarrow> trafficStore" where
  "traffic_load readFile s =
     (if ts_path s = [] then s
      else (case readFile (ts_path s) of
              None \<Rightarrow> s
            | Some recs \<Rightarrow>
                s\<lparr>ts_m := fold (\<lambda>r. AList.update (tr_slug r, tr_name r) \<lparr>t_in = tr_bytesIn r, t_out = tr_bytesOut r\<rparr>) recs (ts_m s)\<rparr>))"

definition newTrafficStore :: "(string \<Rightarrow> trafficRecord list option) \<Rightarrow> string \<Rightarrow> trafficStore" where
  "newTrafficStore readFile path = traffic_load readFile \<lparr>ts_path = path, ts_m = []\<rparr>"

text \<open>The records \<open>Flush\<close> writes (nothing is written without a path).\<close>

definition traffic_flush :: "trafficStore \<Rightarrow> trafficRecord list option" where
  "traffic_flush s =
     (if ts_path s = [] then None
      else Some (map (\<lambda>(k, c). \<lparr>tr_slug = fst k, tr_name = snd k, tr_bytesIn = t_in c, tr_bytesOut = t_out c\<rparr>) (ts_m s)))"

text \<open>The lines of \<open>writeMetrics\<close> as data: the sorted keys with their counts.\<close>

definition traffic_metrics :: "trafficStore \<Rightarrow> (trafficKey \<times> trafficCounts) list" where
  "traffic_metrics s = map (\<lambda>k. (k, get_or zero_counts (ts_m s) k)) (sort (map fst (ts_m s)))"

lemma recordTraffic_get:
  "slug \<noteq> [] \<Longrightarrow> get_or zero_counts (ts_m (recordTraffic slug name i o' s)) k =
     (let c = get_or zero_counts (ts_m s) k
      in if k = (slug, name) then \<lparr>t_in = t_in c + i, t_out = t_out c + o'\<rparr> else c)"
  by (simp add: recordTraffic_def Let_def)

lemma recordTraffic_wf [simp]: "wf_map (ts_m s) \<Longrightarrow> wf_map (ts_m (recordTraffic slug name i o' s))"
  by (simp add: recordTraffic_def Let_def)

lemma recordTraffic_path [simp]: "ts_path (recordTraffic slug name i o' s) = ts_path s"
  by (simp add: recordTraffic_def Let_def)

type_synonym delta = "trafficKey \<times> int64 \<times> int64"

definition record_all :: "delta list \<Rightarrow> trafficStore \<Rightarrow> trafficStore" where
  "record_all ds s = fold (\<lambda>(k, i, out). recordTraffic (fst k) (snd k) i out) ds s"

definition deltas_for :: "trafficKey \<Rightarrow> delta list \<Rightarrow> delta list" where
  "deltas_for k ds = filter (\<lambda>d. fst d = k) ds"

lemma record_all_get:
  "fst k \<noteq> [] \<Longrightarrow> get_or zero_counts (ts_m (record_all ds s)) k =
     (let c = get_or zero_counts (ts_m s) k
      in \<lparr>t_in = t_in c + sum_list (map (fst \<circ> snd) (deltas_for k ds)),
          t_out = t_out c + sum_list (map (snd \<circ> snd) (deltas_for k ds))\<rparr>)"
proof (induction ds arbitrary: s)
  case (Cons d ds)
  obtain sl n i out where d: "d = ((sl, n), i, out)" by (metis prod.collapse)
  have step: "record_all (((sl, n), i, out) # ds) s = record_all ds (recordTraffic sl n i out s)" by (simp add: record_all_def)
  show ?case
  proof (cases "sl = []")
    case True
    then have "recordTraffic sl n i out s = s" "deltas_for k (d # ds) = deltas_for k ds"
      using Cons.prems by (auto simp: recordTraffic_def deltas_for_def d)
    then show ?thesis using Cons by (simp add: d step)
  next
    case False
    then show ?thesis
      using Cons.IH [OF Cons.prems, of "recordTraffic sl n i out s"] unfolding d step
      by (auto simp: recordTraffic_get Let_def deltas_for_def algebra_simps)
  qed
qed (simp add: record_all_def deltas_for_def Let_def)

lemma record_all_wf: "wf_map (ts_m s) \<Longrightarrow> wf_map (ts_m (record_all ds s)) \<and> ts_path (record_all ds s) = ts_path s"
  by (induction ds arbitrary: s) (auto simp: record_all_def)

lemma counts_eta [simp]: "\<lparr>t_in = t_in c, t_out = t_out c\<rparr> = c"
  by simp

lemma load_fold:
  "fold (\<lambda>r. AList.update (tr_slug r, tr_name r) \<lparr>t_in = tr_bytesIn r, t_out = tr_bytesOut r\<rparr>)
      (map (\<lambda>(k, c). \<lparr>tr_slug = fst k, tr_name = snd k, tr_bytesIn = t_in c, tr_bytesOut = t_out c\<rparr>) m) acc =
    fold (\<lambda>(k, c). AList.update k c) m acc"
  by (induction m arbitrary: acc) auto

lemma update_new: "k \<notin> keys_of m \<Longrightarrow> AList.update k v m = m @ [(k, v)]"
  by (induction m) auto

lemma fold_update_append:
  "wf_map (acc @ m) \<Longrightarrow> fold (\<lambda>(k, c). AList.update k c) m acc = acc @ m"
proof (induction m arbitrary: acc)
  case (Cons kc m)
  obtain k c where kc: "kc = (k, c)" by (cases kc)
  have "k \<notin> keys_of acc" using Cons.prems by (auto simp: wf_map_def kc)
  then show ?case using Cons.IH [of "acc @ [(k, c)]"] Cons.prems by (simp add: kc update_new)
qed simp

section \<open>countingConn and leasedConn\<close>

text \<open>The tunnel stream of a request: reads carry the response (out), writes the request (in).\<close>

record countingConn =
  cc_in :: int64
  cc_out :: int64
  cc_done :: bool                       \<comment> \<open>\<open>once\<close> has run\<close>
  cc_reported :: "(int64 \<times> int64) list"  \<comment> \<open>what \<open>onClose\<close> was called with\<close>

datatype conn_op = Read_op nat | Write_op nat | Close_op | Finalize_op

definition finalize :: "countingConn \<Rightarrow> countingConn" where
  "finalize c = (if cc_done c then c
     else c\<lparr>cc_done := True, cc_reported := cc_reported c @ [(cc_in c, cc_out c)]\<rparr>)"

text \<open>\<open>n\<close> is what the underlying connection transferred.\<close>

definition conn_step :: "conn_op \<Rightarrow> countingConn \<Rightarrow> countingConn" where
  "conn_step op c = (case op of
     Read_op n \<Rightarrow> (if n > 0 then c\<lparr>cc_out := cc_out c + of_nat n\<rparr> else c)
   | Write_op n \<Rightarrow> (if n > 0 then c\<lparr>cc_in := cc_in c + of_nat n\<rparr> else c)
   | Close_op \<Rightarrow> finalize c
   | Finalize_op \<Rightarrow> finalize c)"

abbreviation fresh_conn :: countingConn where
  "fresh_conn \<equiv> \<lparr>cc_in = 0, cc_out = 0, cc_done = False, cc_reported = []\<rparr>"

fun transferred :: "conn_op list \<Rightarrow> nat \<times> nat" where
  "transferred [] = (0, 0)"
| "transferred (op # ops) = (case transferred ops of (i, out) \<Rightarrow>
     (case op of Read_op n \<Rightarrow> (i, out + n) | Write_op n \<Rightarrow> (i + n, out) | _ \<Rightarrow> (i, out)))"

abbreviation closing :: "conn_op \<Rightarrow> bool" where
  "closing op \<equiv> op = Close_op \<or> op = Finalize_op"

lemma conn_steps_done: "cc_done c \<Longrightarrow> cc_reported (fold conn_step ops c) = cc_reported c \<and> cc_done (fold conn_step ops c)"
  by (induction ops arbitrary: c) (auto simp: conn_step_def finalize_def split: conn_op.splits)

lemma conn_steps_open:
  "\<forall>op \<in> set ops. \<not> closing op \<Longrightarrow>
   cc_in (fold conn_step ops c) = cc_in c + of_nat (fst (transferred ops)) \<and>
   cc_out (fold conn_step ops c) = cc_out c + of_nat (snd (transferred ops)) \<and>
   cc_done (fold conn_step ops c) = cc_done c \<and> cc_reported (fold conn_step ops c) = cc_reported c"
proof (induction ops arbitrary: c)
  case (Cons op ops)
  then show ?case
    by (cases op) (auto simp: conn_step_def algebra_simps split: prod.splits)
qed simp

section \<open>The windows of a long-lived connection\<close>

record window_event =
  w_in :: int64
  w_out :: int64
  w_started :: int
  w_ended :: int
  w_outcome :: string

record heartbeat =
  b_lastIn :: int64
  b_lastOut :: int64
  b_winStart :: int

text \<open>\<open>emit\<close>: the delta since the last window, and the next window's start.\<close>

definition emit :: "string \<Rightarrow> int64 \<Rightarrow> int64 \<Rightarrow> int \<Rightarrow> heartbeat \<Rightarrow> window_event \<times> heartbeat" where
  "emit outcome cin cout now h =
     (\<lparr>w_in = cin - b_lastIn h, w_out = cout - b_lastOut h, w_started = b_winStart h, w_ended = now, w_outcome = outcome\<rparr>,
      \<lparr>b_lastIn = cin, b_lastOut = cout, b_winStart = now\<rparr>)"

text \<open>
  The goroutine: an \<open>in_progress\<close> event at every tick (with the counters and the time read
  then), and a final \<open>ok\<close> event when the connection closes.
\<close>

fun run_heartbeat :: "(int64 \<times> int64 \<times> int) list \<Rightarrow> int64 \<times> int64 \<times> int \<Rightarrow> heartbeat \<Rightarrow> window_event list" where
  "run_heartbeat [] (cin, cout, now) h = [fst (emit ''ok'' cin cout now h)]"
| "run_heartbeat ((cin, cout, now) # ticks) final h =
     (case emit ''in_progress'' cin cout now h of (ev, h') \<Rightarrow> ev # run_heartbeat ticks final h')"

definition startWSHeartbeat :: "int \<Rightarrow> (int64 \<times> int64 \<times> int) list \<Rightarrow> int64 \<times> int64 \<times> int \<Rightarrow> window_event list" where
  "startWSHeartbeat started ticks final = run_heartbeat ticks final \<lparr>b_lastIn = 0, b_lastOut = 0, b_winStart = started\<rparr>"

lemma heartbeat_sums:
  "sum_list (map w_in (run_heartbeat ticks final h)) = fst final - b_lastIn h \<and>
   sum_list (map w_out (run_heartbeat ticks final h)) = fst (snd final) - b_lastOut h"
  by (induction ticks final h rule: run_heartbeat.induct) (auto simp: emit_def)

fun contiguous :: "int \<Rightarrow> window_event list \<Rightarrow> bool" where
  "contiguous t [] = True"
| "contiguous t (w # ws) = (w_started w = t \<and> contiguous (w_ended w) ws)"

lemma heartbeat_contiguous: "contiguous (b_winStart h) (run_heartbeat ticks final h)"
  by (induction ticks final h rule: run_heartbeat.induct) (auto simp: emit_def)

section \<open>responseRecorder\<close>

text \<open>\<open>rr_sent\<close> is what the wrapped writer was told: header lines and body bytes.\<close>

datatype sent = Header int | Body nat

record responseRecorder =
  rr_status :: int
  rr_bytes :: int64
  rr_headerWritten :: bool
  rr_firstByteAt :: "int option"
  rr_sent :: "sent list"

definition writeHeader :: "int \<Rightarrow> int \<Rightarrow> responseRecorder \<Rightarrow> responseRecorder" where
  "writeHeader now status rr =
     (if rr_headerWritten rr then rr
      else rr\<lparr>rr_firstByteAt := (case rr_firstByteAt rr of None \<Rightarrow> Some now | t \<Rightarrow> t),
              rr_status := status, rr_headerWritten := True, rr_sent := rr_sent rr @ [Header status]\<rparr>)"

definition rr_write :: "int \<Rightarrow> nat \<Rightarrow> responseRecorder \<Rightarrow> responseRecorder" where
  "rr_write now n rr =
     (let rr = (if \<not> rr_headerWritten rr then writeHeader now 200 rr else rr)
      in rr\<lparr>rr_bytes := rr_bytes rr + of_nat n, rr_sent := rr_sent rr @ [Body n]\<rparr>)"

abbreviation fresh_recorder :: responseRecorder where
  "fresh_recorder \<equiv> \<lparr>rr_status = 0, rr_bytes = 0, rr_headerWritten = False, rr_firstByteAt = None, rr_sent = []\<rparr>"

text \<open>
  The status \<open>net/http\<close> puts on the wire: the first header that is not informational (1xx);
  a body without one gets 200.
\<close>

fun wire_status :: "sent list \<Rightarrow> int" where
  "wire_status [] = 200"
| "wire_status (Header st # xs) = (if 100 \<le> st \<and> st < 200 \<and> st \<noteq> 101 then wire_status xs else st)"
| "wire_status (Body n # xs) = 200"

section \<open>metrics\<close>

text \<open>The counters with fixed labels: one row per transport (\<open>tcp\<close>, \<open>quic\<close>), one column per label.\<close>

definition sessionStateLabels :: "string list" where
  "sessionStateLabels = [''preauth'', ''authenticated'']"
definition handshakeReasonLabels :: "string list" where
  "handshakeReasonLabels = [''timeout'', ''tls'', ''protocol'', ''other'']"
definition closeReasonLabels :: "string list" where
  "closeReasonLabels = [''normal'', ''shutdown'', ''idle'', ''protocol'', ''network'', ''other'']"
definition openReasonLabels :: "string list" where
  "openReasonLabels = [''timeout'', ''closed'', ''other'']"
definition capacityScopeLabels :: "string list" where
  "capacityScopeLabels = [''tls_handshake'', ''preauth_session'', ''authenticated_session'', ''session_stream'', ''global_stream'']"

datatype kind = KindTCP | KindQUIC

record metrics =
  m_listenerUp :: "int64 list"
  m_sessionActive :: "int64 list list"
  m_sessionTotal :: "int64 list"
  m_streamActive :: "int64 list"
  m_handshakeErrors :: "int64 list list"
  m_sessionCloses :: "int64 list list"
  m_streamOpenErrors :: "int64 list list"
  m_capacityRejected :: "int64 list"
  m_requestsByStatus :: "(int, int64) gomap"

definition newMetrics :: metrics where
  "newMetrics = \<lparr>m_listenerUp = [0, 0], m_sessionActive = replicate 2 (replicate 2 0), m_sessionTotal = [0, 0],
     m_streamActive = [0, 0], m_handshakeErrors = replicate 2 (replicate 4 0), m_sessionCloses = replicate 2 (replicate 6 0),
     m_streamOpenErrors = replicate 2 (replicate 3 0), m_capacityRejected = replicate 5 0, m_requestsByStatus = []\<rparr>"

definition recordRequest :: "int \<Rightarrow> metrics \<Rightarrow> metrics" where
  "recordRequest status m =
     m\<lparr>m_requestsByStatus := AList.update status (get_or 0 (m_requestsByStatus m) status + 1) (m_requestsByStatus m)\<rparr>"

definition transportMetricIndex :: "kind \<Rightarrow> nat" where
  "transportMetricIndex k = (if k = KindQUIC then 1 else 0)"

fun fixedIndex :: "string \<Rightarrow> string list \<Rightarrow> nat option" where
  "fixedIndex value [] = None"
| "fixedIndex value (l # ls) = (if value = l then Some 0 else map_option Suc (fixedIndex value ls))"

definition index_or_last :: "string \<Rightarrow> string list \<Rightarrow> nat" where
  "index_or_last value labels = (case fixedIndex value labels of Some i \<Rightarrow> i | None \<Rightarrow> length labels - 1)"

definition add_at :: "nat \<Rightarrow> int64 \<Rightarrow> int64 list \<Rightarrow> int64 list" where
  "add_at i d xs = xs[i := xs ! i + d]"

definition add_at2 :: "nat \<Rightarrow> nat \<Rightarrow> int64 \<Rightarrow> int64 list list \<Rightarrow> int64 list list" where
  "add_at2 i j d xss = xss[i := add_at j d (xss ! i)]"

definition setListener :: "kind \<Rightarrow> bool \<Rightarrow> metrics \<Rightarrow> metrics" where
  "setListener k up m = m\<lparr>m_listenerUp := (m_listenerUp m)[transportMetricIndex k := (if up then 1 else 0)]\<rparr>"

definition addSessionState :: "kind \<Rightarrow> string \<Rightarrow> int64 \<Rightarrow> metrics \<Rightarrow> metrics" where
  "addSessionState k state delta m =
     (case fixedIndex state sessionStateLabels of
        None \<Rightarrow> m
      | Some i \<Rightarrow> m\<lparr>m_sessionActive := add_at2 (transportMetricIndex k) i delta (m_sessionActive m)\<rparr>)"

definition recordSessionCreated :: "kind \<Rightarrow> metrics \<Rightarrow> metrics" where
  "recordSessionCreated k m = m\<lparr>m_sessionTotal := add_at (transportMetricIndex k) 1 (m_sessionTotal m)\<rparr>"

definition addStream :: "kind \<Rightarrow> int64 \<Rightarrow> metrics \<Rightarrow> metrics" where
  "addStream k delta m = m\<lparr>m_streamActive := add_at (transportMetricIndex k) delta (m_streamActive m)\<rparr>"

definition recordHandshakeError :: "kind \<Rightarrow> string \<Rightarrow> metrics \<Rightarrow> metrics" where
  "recordHandshakeError k reason m =
     m\<lparr>m_handshakeErrors := add_at2 (transportMetricIndex k) (index_or_last reason handshakeReasonLabels) 1 (m_handshakeErrors m)\<rparr>"

definition recordSessionClose :: "kind \<Rightarrow> string \<Rightarrow> metrics \<Rightarrow> metrics" where
  "recordSessionClose k reason m =
     m\<lparr>m_sessionCloses := add_at2 (transportMetricIndex k) (index_or_last reason closeReasonLabels) 1 (m_sessionCloses m)\<rparr>"

definition recordStreamOpenError :: "kind \<Rightarrow> string \<Rightarrow> metrics \<Rightarrow> metrics" where
  "recordStreamOpenError k reason m =
     m\<lparr>m_streamOpenErrors := add_at2 (transportMetricIndex k) (index_or_last reason openReasonLabels) 1 (m_streamOpenErrors m)\<rparr>"

definition recordCapacityRejection :: "string \<Rightarrow> metrics \<Rightarrow> metrics" where
  "recordCapacityRejection scope m =
     (case fixedIndex scope capacityScopeLabels of
        None \<Rightarrow> m
      | Some i \<Rightarrow> m\<lparr>m_capacityRejected := add_at i 1 (m_capacityRejected m)\<rparr>)"

definition matrix :: "nat \<Rightarrow> int64 list list \<Rightarrow> bool" where
  "matrix n xss \<longleftrightarrow> length xss = 2 \<and> (\<forall>r \<in> set xss. length r = n)"

text \<open>The arrays keep the shape of their label lists, so that every index below is in range.\<close>

definition metrics_ok :: "metrics \<Rightarrow> bool" where
  "metrics_ok m \<longleftrightarrow> length (m_listenerUp m) = 2 \<and> matrix 2 (m_sessionActive m) \<and> length (m_sessionTotal m) = 2 \<and>
     length (m_streamActive m) = 2 \<and> matrix 4 (m_handshakeErrors m) \<and> matrix 6 (m_sessionCloses m) \<and>
     matrix 3 (m_streamOpenErrors m) \<and> length (m_capacityRejected m) = 5 \<and> wf_map (m_requestsByStatus m)"

lemma fixedIndex_lt: "fixedIndex v ls = Some i \<Longrightarrow> i < length ls \<and> ls ! i = v"
  by (induction ls arbitrary: i) (auto split: if_splits)

lemma index_or_last_lt: "ls \<noteq> [] \<Longrightarrow> index_or_last v ls < length ls"
  using fixedIndex_lt by (auto simp: index_or_last_def split: option.splits)

lemma matrix_add: "matrix n xss \<Longrightarrow> i < 2 \<Longrightarrow> matrix n (add_at2 i j d xss)"
  by (auto simp: matrix_def add_at2_def add_at_def set_update_distinct dest!: subsetD [OF set_update_subset_insert])

lemma transport_lt: "transportMetricIndex k < 2"
  by (simp add: transportMetricIndex_def)

definition total :: "int64 list list \<Rightarrow> int64" where
  "total xss = sum_list (map sum_list xss)"

lemma sum_add_at: "i < length xs \<Longrightarrow> sum_list (add_at i d xs) = sum_list xs + d"
proof (induction xs arbitrary: i)
  case (Cons x xs)
  then show ?case by (cases i) (auto simp: add_at_def algebra_simps)
qed simp

lemma total_add_at2:
  "i < length xss \<Longrightarrow> j < length (xss ! i) \<Longrightarrow> total (add_at2 i j d xss) = total xss + d"
proof (induction xss arbitrary: i)
  case (Cons xs xss)
  then show ?case by (cases i) (auto simp: add_at2_def total_def sum_add_at algebra_simps)
qed simp

section \<open>Properties\<close>

text \<open>
  Traffic totals: after any sequence of \<open>RecordTraffic\<close> calls, in whatever order concurrent
  connections closed, the counters of a tunnel with a slug are its initial counters plus the
  sums of its deltas (as 64-bit integers); a tunnel without a slug, the flat self-hosted
  default, is never counted.
\<close>

theorem traffic_totals:
  "get_or zero_counts (ts_m (record_all ds s)) (slug, name) =
     (let c = get_or zero_counts (ts_m s) (slug, name)
      in if slug = [] then c
         else \<lparr>t_in = t_in c + sum_list (map (fst \<circ> snd) (deltas_for (slug, name) ds)),
               t_out = t_out c + sum_list (map (snd \<circ> snd) (deltas_for (slug, name) ds))\<rparr>)"
proof (cases "slug = []")
  case True
  have "get_or zero_counts (ts_m (recordTraffic sl n i out s)) ([], name) = get_or zero_counts (ts_m s) ([], name)" for sl n i out s
    by (auto simp: recordTraffic_def Let_def)
  then have "get_or zero_counts (ts_m (record_all ds s)) ([], name) = get_or zero_counts (ts_m s) ([], name)"
    by (induction ds arbitrary: s) (auto simp: record_all_def)
  then show ?thesis using True by simp
next
  case False
  then show ?thesis using record_all_get [of "(slug, name)" ds s] by simp
qed

text \<open>
  The traffic file is a faithful checkpoint: a store that is created again from what \<open>Flush\<close>
  wrote holds exactly the same counters.
\<close>

theorem traffic_flush_load:
  assumes "wf_map (ts_m s)" and "ts_path s \<noteq> []" and "traffic_flush s = Some recs" and "readFile (ts_path s) = Some recs"
  shows "newTrafficStore readFile (ts_path s) = s"
proof -
  have recs: "recs = map (\<lambda>(k, c). \<lparr>tr_slug = fst k, tr_name = snd k, tr_bytesIn = t_in c, tr_bytesOut = t_out c\<rparr>) (ts_m s)"
    using assms(2,3) by (simp add: traffic_flush_def)
  have "fold (\<lambda>(k, c). AList.update k c) (ts_m s) [] = ts_m s"
    using fold_update_append [of "[]" "ts_m s"] assms(1) by simp
  then show ?thesis using assms(2,4) load_fold [of "ts_m s" "[]"]
    by (simp add: newTrafficStore_def traffic_load_def recs)
qed

theorem traffic_flush_load_witness:
  "newTrafficStore (\<lambda>_. traffic_flush (recordTraffic ''ada'' ''api'' 3 5 \<lparr>ts_path = ''f'', ts_m = []\<rparr>)) ''f'' =
     recordTraffic ''ada'' ''api'' 3 5 \<lparr>ts_path = ''f'', ts_m = []\<rparr>"
proof -
  let ?s = "recordTraffic ''ada'' ''api'' 3 5 \<lparr>ts_path = ''f'', ts_m = []\<rparr>"
  obtain recs where r: "traffic_flush ?s = Some recs" by (auto simp: traffic_flush_def)
  show ?thesis using traffic_flush_load [OF _ _ r, of "\<lambda>_. traffic_flush ?s"] r by simp
qed

text \<open>
  Bytes of a proxied connection are reported once and completely: whatever reads and writes
  follow and however often it is closed, \<open>onClose\<close> is called exactly once, with the bytes
  transferred up to the first close.
\<close>

theorem conn_reports_once:
  assumes "\<forall>op \<in> set ops. \<not> closing op" and "closing op"
  shows "cc_reported (fold conn_step (ops @ op # rest) fresh_conn) =
    [(of_nat (fst (transferred ops)), of_nat (snd (transferred ops)))]"
proof -
  let ?c = "fold conn_step ops fresh_conn"
  have c: "cc_in ?c = of_nat (fst (transferred ops))" "cc_out ?c = of_nat (snd (transferred ops))"
    "\<not> cc_done ?c" "cc_reported ?c = []"
    using conn_steps_open [OF assms(1), of fresh_conn] by simp_all
  then have "cc_reported (conn_step op ?c) = [(of_nat (fst (transferred ops)), of_nat (snd (transferred ops)))]" "cc_done (conn_step op ?c)"
    using assms(2) by (auto simp: conn_step_def finalize_def)
  then show ?thesis using conn_steps_done [of "conn_step op ?c" rest] by simp
qed

theorem conn_reports_once_witness:
  "cc_reported (fold conn_step ([Write_op 3, Read_op 5] @ Close_op # [Read_op 9, Close_op, Finalize_op]) fresh_conn) = [(3, 5)]"
  using conn_reports_once [of "[Write_op 3, Read_op 5]" Close_op "[Read_op 9, Close_op, Finalize_op]"] by simp

text \<open>
  The windows of a long-lived connection tile it: their deltas add up to the connection's
  bytes at close, each window starts where the previous one ended, the first at the start of the
  request, and only the last one is final.
\<close>

theorem heartbeat_tiles:
  "sum_list (map w_in (startWSHeartbeat started ticks final)) = fst final \<and>
   sum_list (map w_out (startWSHeartbeat started ticks final)) = fst (snd final) \<and>
   contiguous started (startWSHeartbeat started ticks final) \<and>
   map w_outcome (startWSHeartbeat started ticks final) = replicate (length ticks) ''in_progress'' @ [''ok'']"
proof -
  have "map w_outcome (run_heartbeat ticks final h) = replicate (length ticks) ''in_progress'' @ [''ok'']" for h
    by (induction ticks final h rule: run_heartbeat.induct) (auto simp: emit_def)
  then show ?thesis
    using heartbeat_sums [of ticks final] heartbeat_contiguous [of "\<lparr>b_lastIn = 0, b_lastOut = 0, b_winStart = started\<rparr>" ticks final]
    by (simp add: startWSHeartbeat_def)
qed

text \<open>
  An informational response hides the final status: after a forwarded \<open>103\<close> the recorder
  ignores the backend's final header, so the visitor gets 200 (and the event log 103) whatever
  the backend answered; without an informational header the recorded status is the one sent.
\<close>

theorem recorder_informational:
  "(let rr = rr_write now n (writeHeader now st (writeHeader now 103 fresh_recorder))
    in rr_status rr = 103 \<and> wire_status (rr_sent rr) = 200) \<and>
   (\<not> (100 \<le> st \<and> st < 200) \<longrightarrow>
    (let rr = rr_write now n (writeHeader now st fresh_recorder)
     in rr_status rr = st \<and> wire_status (rr_sent rr) = st))"
  by (auto simp: writeHeader_def rr_write_def Let_def)

theorem recorder_informational_witness:
  "wire_status (rr_sent (rr_write 1 4 (writeHeader 1 404 (writeHeader 1 103 fresh_recorder)))) = 200 \<and>
   wire_status (rr_sent (rr_write 1 4 (writeHeader 1 404 fresh_recorder))) = 404"
  using recorder_informational [of 1 4 404] by (simp add: Let_def)

text \<open>
  Every failure is counted once: whatever reason is given, known or not, a handshake error,
  a session close and a stream-open error each add one to the sum of their counters (an unknown
  reason counts as \<open>other\<close>), no array is indexed out of range, and the arrays keep their shape.
\<close>

theorem metrics_count_once:
  assumes "metrics_ok m"
  shows "total (m_handshakeErrors (recordHandshakeError k r m)) = total (m_handshakeErrors m) + 1 \<and>
    total (m_sessionCloses (recordSessionClose k r m)) = total (m_sessionCloses m) + 1 \<and>
    total (m_streamOpenErrors (recordStreamOpenError k r m)) = total (m_streamOpenErrors m) + 1 \<and>
    metrics_ok (recordHandshakeError k r m) \<and> metrics_ok (recordSessionClose k r m) \<and> metrics_ok (recordStreamOpenError k r m)"
proof -
  let ?t = "transportMetricIndex k"
  have row: "matrix n xss \<Longrightarrow> length xss = 2 \<and> length (xss ! ?t) = n" for n xss
    using transport_lt [of k] by (auto simp: matrix_def)
  have lt: "index_or_last r handshakeReasonLabels < 4" "index_or_last r closeReasonLabels < 6" "index_or_last r openReasonLabels < 3"
    using index_or_last_lt [of handshakeReasonLabels r] index_or_last_lt [of closeReasonLabels r] index_or_last_lt [of openReasonLabels r]
    by (simp_all add: handshakeReasonLabels_def closeReasonLabels_def openReasonLabels_def)
  have m: "matrix 4 (m_handshakeErrors m)" "matrix 6 (m_sessionCloses m)" "matrix 3 (m_streamOpenErrors m)"
    using assms by (simp_all add: metrics_ok_def)
  show ?thesis
    using assms lt row [OF m(1)] row [OF m(2)] row [OF m(3)] transport_lt [of k] m
    by (simp add: recordHandshakeError_def recordSessionClose_def recordStreamOpenError_def total_add_at2 metrics_ok_def matrix_add)
qed

theorem metrics_count_once_witness:
  "total (m_handshakeErrors (recordHandshakeError KindQUIC ''weird'' newMetrics)) = 1"
proof -
  have "metrics_ok newMetrics" by (simp add: metrics_ok_def newMetrics_def matrix_def)
  moreover have "total (m_handshakeErrors newMetrics) = 0" by (simp add: total_def newMetrics_def numeral_eq_Suc)
  ultimately show ?thesis using metrics_count_once [of newMetrics KindQUIC "''weird''"] by simp
qed

end
