(* ===== verification/Certs.thy ===== *)
theory Certs
  imports Ttl_Cache
begin

text \<open>
  Certificates (\<open>src/internal/certs\<close>): which names a certificate must cover, the self-signed
  manager, the gate in front of on-demand issuance (\<open>decisionGate\<close>: verdict cache and failure
  cooldown), the control plane's authorizer, and the production manager's routing and its
  deduplicated background issuance. certmagic and the control plane are arguments.
\<close>

section \<open>Names\<close>

definition extractSlug :: "string \<Rightarrow> string \<Rightarrow> string option" where
  "extractSlug sni baseDomain =
     (if sni = [] then None
      else (let suffix = ''.'' @ baseDomain
            in if \<not> has_suffix suffix sni then None
               else (case split_on CHR ''.'' (trim_suffix suffix sni) of
                       [p] \<Rightarrow> if p = [] then None else Some []
                     | [p, slug] \<Rightarrow> Some slug
                     | _ \<Rightarrow> None)))"

definition certNamesFor :: "string \<Rightarrow> string \<Rightarrow> string list" where
  "certNamesFor slug baseDomain =
     (if slug = [] then [''*.'' @ baseDomain]
      else [''*.'' @ slug @ ''.'' @ baseDomain, slug @ ''.'' @ baseDomain])"

definition wildNamesFor :: "string \<Rightarrow> string \<Rightarrow> string list" where
  "wildNamesFor baseDomain name =
     (case extractSlug name baseDomain of
        Some slug \<Rightarrow> certNamesFor slug baseDomain
      | None \<Rightarrow> if name = baseDomain then [baseDomain] else [])"

section \<open>SelfSignedManager\<close>

text \<open>A certificate is identified by the number of its issuance; 0 is the fallback.\<close>

record selfSigned =
  ss_baseDomain :: string
  ss_certs :: "(string, nat) gomap"
  ss_issuances :: nat

text \<open>\<open>gen\<close>: does generating a certificate for these names succeed.\<close>

definition issueOrGet :: "(string list \<Rightarrow> bool) \<Rightarrow> string \<Rightarrow> selfSigned \<Rightarrow> nat option \<times> selfSigned" where
  "issueOrGet gen slug m =
     (case map_of (ss_certs m) slug of
        Some c \<Rightarrow> (Some c, m)
      | None \<Rightarrow>
          if \<not> gen (certNamesFor slug (ss_baseDomain m)) then (None, m)
          else (let c = ss_issuances m + 1
                in (Some c, m\<lparr>ss_certs := AList.update slug c (ss_certs m), ss_issuances := c\<rparr>)))"

definition ss_getCertificate :: "(string list \<Rightarrow> bool) \<Rightarrow> string \<Rightarrow> selfSigned \<Rightarrow> nat option \<times> selfSigned" where
  "ss_getCertificate gen serverName m =
     (case extractSlug serverName (ss_baseDomain m) of
        None \<Rightarrow> (Some 0, m)
      | Some slug \<Rightarrow> issueOrGet gen slug m)"

definition ss_preWarm :: "(string list \<Rightarrow> bool) \<Rightarrow> string \<Rightarrow> selfSigned \<Rightarrow> bool \<times> selfSigned" where
  "ss_preWarm gen slug m = (case issueOrGet gen slug m of (r, m') \<Rightarrow> (r \<noteq> None, m'))"

section \<open>The control plane's authorizer\<close>

datatype cert_error = BadRequest | Unreachable | NotVerified nat | Delegated | CoolingDown string

text \<open>
  \<open>get\<close>: URL and \<open>Authorization\<close> header to the status and the decoded \<open>cert_mode\<close> (outer
  \<open>None\<close>: the body does not decode; inner: the field is absent), or the way the call failed.
\<close>

type_synonym resolve_get = "string \<Rightarrow> string \<Rightarrow> cert_error + nat \<times> string option option"

definition newResolveHostAuthorizer :: "resolve_get \<Rightarrow> string \<Rightarrow> string \<Rightarrow> string \<Rightarrow> cert_error option" where
  "newResolveHostAuthorizer get endpoint secret name =
     (case get (endpoint @ ''?host='' @ queryEscape name) (if secret \<noteq> [] then ''Bearer '' @ secret else []) of
        Inl err \<Rightarrow> Some err
      | Inr (status, body) \<Rightarrow>
          if status < 200 \<or> 300 \<le> status then Some (NotVerified status)
          else (case body of
                  None \<Rightarrow> None
                | Some mode \<Rightarrow> if mode = Some ''delegated'' then Some Delegated else None))"

section \<open>decisionGate\<close>

record gateVerdict =
  gv_err :: "cert_error option"
  gv_expires :: time

record decisionGate =
  g_posTTL :: time
  g_negTTL :: time
  g_failCooldown :: time
  g_verdicts :: "(string, gateVerdict) gomap"
  g_lastFail :: "(string, time) gomap"

text \<open>\<open>maxEntries\<close> is only ever set to \<open>gateMaxEntries\<close>.\<close>

definition gateMaxEntries :: nat where
  "gateMaxEntries = 4096"

definition newDecisionGate :: decisionGate where
  "newDecisionGate = \<lparr>g_posTTL = seconds 60, g_negTTL = seconds 30, g_failCooldown = minutes 2, g_verdicts = [], g_lastFail = []\<rparr>"

definition gate_evict :: "time \<Rightarrow> string list \<Rightarrow> (string, gateVerdict) gomap \<Rightarrow> (string, gateVerdict) gomap" where
  "gate_evict now order vs =
     (let vs = del_where (\<lambda>k v. gv_expires v < now) vs
      in delete_down (gateMaxEntries div 2) (range_over order vs) vs)"

definition verdict_put :: "time \<Rightarrow> string list \<Rightarrow> string \<Rightarrow> gateVerdict \<Rightarrow> (string, gateVerdict) gomap \<Rightarrow> (string, gateVerdict) gomap" where
  "verdict_put now order name v vs =
     AList.update name v (if gateMaxEntries \<le> length vs then gate_evict now order vs else vs)"

definition cooling :: "time \<Rightarrow> string \<Rightarrow> decisionGate \<Rightarrow> bool" where
  "cooling now name g = (case map_of (g_lastFail g) name of None \<Rightarrow> False | Some t \<Rightarrow> now - t < g_failCooldown g)"

text \<open>The two critical sections of \<open>Decide\<close>, and the whole of it.\<close>

definition decide_cached :: "time \<Rightarrow> string \<Rightarrow> decisionGate \<Rightarrow> cert_error option option" where
  "decide_cached now name g =
     (if cooling now name g then Some (Some (CoolingDown name))
      else (case map_of (g_verdicts g) name of
              Some v \<Rightarrow> if now < gv_expires v then Some (gv_err v) else None
            | None \<Rightarrow> None))"

definition decide_store :: "time \<Rightarrow> string list \<Rightarrow> string \<Rightarrow> cert_error option \<Rightarrow> decisionGate \<Rightarrow> decisionGate" where
  "decide_store now order name err g =
     (let ttl = (if err \<noteq> None then g_negTTL g else g_posTTL g)
      in g\<lparr>g_verdicts := verdict_put now order name \<lparr>gv_err = err, gv_expires = now + ttl\<rparr> (g_verdicts g)\<rparr>)"

definition decide :: "(string \<Rightarrow> cert_error option) \<Rightarrow> time \<Rightarrow> time \<Rightarrow> string list \<Rightarrow> string \<Rightarrow> decisionGate \<Rightarrow> cert_error option \<times> decisionGate" where
  "decide authorize now now' order name g =
     (case decide_cached now name g of
        Some err \<Rightarrow> (err, g)
      | None \<Rightarrow> (let err = authorize name in (err, decide_store now' order name err g)))"

definition recordFailure :: "time \<Rightarrow> string \<Rightarrow> decisionGate \<Rightarrow> decisionGate" where
  "recordFailure now name g =
     (case map_of (g_verdicts g) name of
        None \<Rightarrow> g
      | Some v \<Rightarrow>
          if gv_err v \<noteq> None then g
          else if cooling now name g then g
          else g\<lparr>g_lastFail := AList.update name now (del_where (\<lambda>k t. g_failCooldown g \<le> now - t) (g_lastFail g))\<rparr>)"

definition recordSuccess :: "string \<Rightarrow> decisionGate \<Rightarrow> decisionGate" where
  "recordSuccess name g = g\<lparr>g_lastFail := AList.delete name (g_lastFail g)\<rparr>"

section \<open>MagicManager\<close>

record magicManager =
  mm_baseDomain :: string
  mm_gate :: "decisionGate option"   \<comment> \<open>\<open>Some\<close> when \<open>cmOnDemand\<close> is configured\<close>
  mm_inflight :: "string list"
  mm_lastFail :: "(string, time) gomap"
  mm_issuances :: nat

definition kickWildCooldown :: time where
  "kickWildCooldown = minutes 15"

text \<open>\<open>kickWild\<close> up to the goroutine: \<open>Some key\<close> when an order is started.\<close>

definition kickWild :: "(string \<Rightarrow> bool) option \<Rightarrow> time \<Rightarrow> string \<Rightarrow> magicManager \<Rightarrow> string list option \<times> magicManager" where
  "kickWild issueAllowed now name m =
     (if issueAllowed \<noteq> None \<and> \<not> (the issueAllowed) name then (None, m)
      else (let names = wildNamesFor (mm_baseDomain m) name
            in if names = [] then (None, m)
               else (let key = join_with '','' names
                     in if key \<in> set (mm_inflight m) then (None, m)
                        else if (case map_of (mm_lastFail m) key of None \<Rightarrow> False | Some t \<Rightarrow> now - t < kickWildCooldown)
                        then (None, m)
                        else (Some names, m\<lparr>mm_inflight := List.insert key (mm_inflight m)\<rparr>))))"

text \<open>The goroutine's end, with the result of \<open>ManageSync\<close>.\<close>

definition wild_done :: "time \<Rightarrow> string list \<Rightarrow> bool \<Rightarrow> magicManager \<Rightarrow> magicManager" where
  "wild_done now names ok m =
     (let key = join_with '','' names;
          m = m\<lparr>mm_inflight := removeAll key (mm_inflight m)\<rparr>
      in if ok then m\<lparr>mm_issuances := mm_issuances m + length names, mm_lastFail := AList.delete key (mm_lastFail m)\<rparr>
         else m\<lparr>mm_lastFail := AList.update key now (del_where (\<lambda>k t. kickWildCooldown \<le> now - t) (mm_lastFail m))\<rparr>)"

datatype served = ServedWild | ServedOnDemand | ServedFallback

text \<open>
  \<open>wild\<close>: does certmagic have a certificate for the name. \<open>onDemand\<close>: certmagic's on-demand
  path, which is given the gate's \<open>Decide\<close> and reports whether it served a certificate.
\<close>

type_synonym on_demand = "(string \<Rightarrow> decisionGate \<Rightarrow> cert_error option \<times> decisionGate) \<Rightarrow> string \<Rightarrow> decisionGate \<Rightarrow> bool \<times> decisionGate"

definition getCertificate ::
    "(string \<Rightarrow> bool) \<Rightarrow> on_demand \<Rightarrow> (string \<Rightarrow> decisionGate \<Rightarrow> cert_error option \<times> decisionGate) \<Rightarrow> (string \<Rightarrow> bool) option \<Rightarrow> time \<Rightarrow>
     string \<Rightarrow> magicManager \<Rightarrow> served \<times> string list option \<times> magicManager" where
  "getCertificate wild onDemand dec issueAllowed now serverName m =
     (let name = to_lower (trim_suffix ''.'' serverName)
      in if name = mm_baseDomain m \<or> has_suffix (''.'' @ mm_baseDomain m) name then
           (if wild name then (ServedWild, None, m)
            else (case kickWild issueAllowed now name m of (k, m') \<Rightarrow> (ServedFallback, k, m')))
         else (case mm_gate m of
                 None \<Rightarrow> (ServedFallback, None, m)
               | Some g \<Rightarrow>
                   (case onDemand dec name g of
                      (True, g') \<Rightarrow> (ServedOnDemand, None, m\<lparr>mm_gate := Some (recordSuccess name g')\<rparr>)
                    | (False, g') \<Rightarrow> (ServedFallback, None, m\<lparr>mm_gate := Some (recordFailure now name g')\<rparr>))))"

section \<open>The verdict cache\<close>

interpretation gate_cache: bounded_cache gate_evict gateMaxEntries verdict_put
proof
  fix now order and m :: "(string, gateVerdict) gomap"
  show "0 < gateMaxEntries" by (simp add: gateMaxEntries_def)
  show "set (gate_evict now order m) \<subseteq> set m"
    using set_delete_down by (fastforce simp: gate_evict_def Let_def)
  show "wf_map m \<Longrightarrow> wf_map (gate_evict now order m)"
    by (simp add: gate_evict_def Let_def wf_delete_down)
  show "length (gate_evict now order m) \<le> gateMaxEntries div 2"
    unfolding gate_evict_def Let_def by (rule length_delete_down) simp
qed (simp add: verdict_put_def)

text \<open>\<open>A\<close>: the names the authorizer has ever authorized.\<close>

definition gate_inv :: "(string \<Rightarrow> bool) \<Rightarrow> decisionGate \<Rightarrow> bool" where
  "gate_inv A g \<longleftrightarrow> wf_map (g_verdicts g) \<and> wf_map (g_lastFail g) \<and> length (g_verdicts g) \<le> gateMaxEntries \<and>
     (\<forall>(n, v) \<in> set (g_verdicts g). gv_err v = None \<longrightarrow> A n) \<and> (\<forall>n \<in> keys_of (g_lastFail g). A n)"

lemma gate_inv_new: "gate_inv A newDecisionGate"
  by (simp add: gate_inv_def newDecisionGate_def)

lemma gate_inv_store:
  assumes "gate_inv A g" and "err = None \<Longrightarrow> A name"
  shows "gate_inv A (decide_store now order name err g)"
proof -
  let ?v = "\<lparr>gv_err = err, gv_expires = now + (if err \<noteq> None then g_negTTL g else g_posTTL g)\<rparr>"
  have "(n, v) \<in> set (verdict_put now order name ?v (g_verdicts g)) \<Longrightarrow> gv_err v = None \<Longrightarrow> A n" for n v
    using gate_cache.store_sound [of n v now order name ?v "g_verdicts g"] assms by (auto simp: gate_inv_def)
  then show ?thesis using assms(1)
    by (auto simp: gate_inv_def decide_store_def Let_def gate_cache.store_wf gate_cache.store_bounded)
qed

lemma decide_ok:
  assumes "gate_inv A g" and "\<And>n. authorize n = None \<Longrightarrow> A n" and "decide authorize now now' order name g = (err, g')"
  shows "gate_inv A g' \<and> (err = None \<longrightarrow> A name)"
proof (cases "decide_cached now name g")
  case None
  then show ?thesis using assms gate_inv_store [OF assms(1), of "authorize name" name now' order]
    by (auto simp: decide_def Let_def)
next
  case (Some e)
  have "e = None \<longrightarrow> A name"
    using Some assms(1) by (auto simp: decide_cached_def gate_inv_def dest!: map_of_SomeD split: if_splits option.splits)
  then show ?thesis using Some assms(1,3) by (auto simp: decide_def)
qed

lemma recordFailure_ok: "gate_inv A g \<Longrightarrow> gate_inv A (recordFailure now name g)"
proof -
  assume inv: "gate_inv A g"
  show ?thesis
  proof (cases "map_of (g_verdicts g) name")
    case (Some v)
    have "gv_err v = None \<Longrightarrow> A name" using inv Some by (auto simp: gate_inv_def dest!: map_of_SomeD)
    then show ?thesis using inv Some
      by (auto simp: recordFailure_def gate_inv_def dest!: subsetD [OF set_update_subset])
  qed (use inv in \<open>simp add: recordFailure_def\<close>)
qed

lemma recordSuccess_ok: "gate_inv A g \<Longrightarrow> gate_inv A (recordSuccess name g)"
  by (auto simp: gate_inv_def recordSuccess_def)

text \<open>Handshakes, in any order and at any time, against authorizers that may change their mind.\<close>

datatype gate_op = Decide "string \<Rightarrow> cert_error option" time time "string list" string | Fail time string | Succeed string

fun gate_run :: "gate_op list \<Rightarrow> decisionGate \<Rightarrow> (string \<times> cert_error option) list \<times> decisionGate" where
  "gate_run [] g = ([], g)"
| "gate_run (op # ops) g =
     (case op of
        Decide au now now' order name \<Rightarrow>
          (let (err, g1) = decide au now now' order name g; (rs, g2) = gate_run ops g1 in ((name, err) # rs, g2))
      | Fail now name \<Rightarrow> gate_run ops (recordFailure now name g)
      | Succeed name \<Rightarrow> gate_run ops (recordSuccess name g))"

definition ever_authorized :: "gate_op list \<Rightarrow> string \<Rightarrow> bool" where
  "ever_authorized ops n \<longleftrightarrow> (\<exists>op \<in> set ops. case op of Decide au now now' order name \<Rightarrow> au n = None | _ \<Rightarrow> False)"

lemma gate_run_inv:
  assumes "gate_run ops g = (rs, g')" and "gate_inv A g" and "\<And>n. ever_authorized ops n \<Longrightarrow> A n"
  shows "gate_inv A g' \<and> (\<forall>(n, err) \<in> set rs. err = None \<longrightarrow> A n)"
  using assms
proof (induction ops arbitrary: g rs)
  case (Cons op ops)
  have A: "ever_authorized ops n \<Longrightarrow> A n" for n using Cons.prems(3) by (auto simp: ever_authorized_def)
  show ?case
  proof (cases op)
    case (Decide au now now' order name)
    obtain err g1 where d: "decide au now now' order name g = (err, g1)" by fastforce
    obtain rs1 g2 where r: "gate_run ops g1 = (rs1, g2)" by fastforce
    have au: "au n = None \<Longrightarrow> A n" for n using Cons.prems(3) [of n] Decide by (simp add: ever_authorized_def)
    have eq: "rs = (name, err) # rs1" "g2 = g'" using Cons.prems(1) Decide d r by auto
    note ok = decide_ok [OF Cons.prems(2) au d]
    show ?thesis using Cons.IH [OF r [unfolded eq(2)] _ A] ok by (auto simp: eq(1))
  next
    case (Fail now name)
    then show ?thesis using Cons.IH [OF _ recordFailure_ok [OF Cons.prems(2)] A] Cons.prems(1) by simp
  next
    case (Succeed name)
    then show ?thesis using Cons.IH [OF _ recordSuccess_ok [OF Cons.prems(2)] A] Cons.prems(1) by simp
  qed
qed auto

section \<open>Coverage of certificates\<close>

text \<open>A certificate name covers a host: equal, or a wildcard for exactly one label.\<close>

definition covers :: "string \<Rightarrow> string \<Rightarrow> bool" where
  "covers san h \<longleftrightarrow> san = h \<or>
     (has_prefix ''*.'' san \<and> (case index_byte CHR ''.'' h of None \<Rightarrow> False | Some i \<Rightarrow> 0 < i \<and> drop (i + 1) h = drop 2 san))"

lemma covers_wildcard: "CHR ''.'' \<notin> set l \<Longrightarrow> l \<noteq> [] \<Longrightarrow> covers (''*.'' @ rest) (l @ CHR ''.'' # rest)"
  by (simp add: covers_def index_byte_split has_prefix_def)

lemma extractSlug_flat: "CHR ''.'' \<notin> set l \<Longrightarrow> l \<noteq> [] \<Longrightarrow> extractSlug (l @ CHR ''.'' # base) base = Some []"
  using trim_suffix_append [of "''.'' @ base" l] has_suffix_append [of "''.'' @ base" l]
  by (simp add: extractSlug_def Let_def)

lemma extractSlug_two:
  "CHR ''.'' \<notin> set l \<Longrightarrow> CHR ''.'' \<notin> set slug \<Longrightarrow>
   extractSlug (l @ CHR ''.'' # slug @ CHR ''.'' # base) base = Some slug"
  using trim_suffix_append [of "''.'' @ base" "l @ CHR ''.'' # slug"] has_suffix_append [of "''.'' @ base" "l @ CHR ''.'' # slug"]
  by (simp add: extractSlug_def Let_def split_on_append)

section \<open>Properties\<close>

text \<open>
  C18. On-demand issuance fails closed: through any sequence of decisions, failures and successes,
  with authorizers that change their answers, the gate approves a host only if an authorizer
  has approved that very host; the verdict cache never exceeds 4096 entries; and only approved
  hosts ever enter the cooldown table, so a spray of refused names cannot grow it.
\<close>

theorem gate_fails_closed:
  assumes "gate_run ops newDecisionGate = (rs, g)"
  shows "(\<forall>n. (n, None) \<in> set rs \<longrightarrow> ever_authorized ops n) \<and> length (g_verdicts g) \<le> 4096 \<and>
    (\<forall>n \<in> keys_of (g_lastFail g). ever_authorized ops n)"
  using gate_run_inv [OF assms gate_inv_new, of "ever_authorized ops"]
  by (auto simp: gate_inv_def gateMaxEntries_def)

definition ex_ops :: "gate_op list" where
  "ex_ops = [Decide (\<lambda>n. if n = ''ok.dev'' then None else Some (NotVerified 404)) 0 0 [] ''ok.dev'',
     Decide (\<lambda>_. Some Unreachable) 1 1 [] ''bad.dev'', Fail 2 ''bad.dev'', Fail 3 ''ok.dev'', Decide (\<lambda>_. None) 4 4 [] ''ok.dev'']"

theorem gate_fails_closed_witness:
  "fst (gate_run ex_ops newDecisionGate) = [(''ok.dev'', None), (''bad.dev'', Some Unreachable), (''ok.dev'', Some (CoolingDown ''ok.dev''))] \<and>
   ever_authorized ex_ops ''ok.dev''"
proof -
  have run: "fst (gate_run ex_ops newDecisionGate) =
      [(''ok.dev'', None), (''bad.dev'', Some Unreachable), (''ok.dev'', Some (CoolingDown ''ok.dev''))]"
    by code_simp
  have "(''ok.dev'', None) \<in> set (fst (gate_run ex_ops newDecisionGate))" by (simp add: run)
  then have "ever_authorized ex_ops ''ok.dev''" using gate_fails_closed [OF surjective_pairing] by blast
  then show ?thesis using run by simp
qed

text \<open>
  Cooldown after a failed issuance: for an approved host a failure at time \<open>t\<close> makes every
  decision before \<open>t + failCooldown\<close> a refusal that does not consult the control plane; failures
  inside the window do not extend it; a success ends it; and a refused host is never put on
  cooldown.
\<close>

theorem gate_cooldown:
  assumes "\<not> cooling t name g"
  shows "case map_of (g_verdicts g) name of
      Some v \<Rightarrow>
        if gv_err v = None then
          (\<forall>now. now < t + g_failCooldown g \<longrightarrow>
             decide authorize now now' order name (recordFailure t name g) = (Some (CoolingDown name), recordFailure t name g) \<and>
             recordFailure now name (recordFailure t name g) = recordFailure t name g) \<and>
          (\<forall>now. \<not> cooling now name (recordSuccess name (recordFailure t name g))) \<and>
          (\<forall>now \<ge> t + g_failCooldown g. \<not> cooling now name (recordFailure t name g))
        else recordFailure t name g = g
    | None \<Rightarrow> recordFailure t name g = g"
proof (cases "map_of (g_verdicts g) name")
  case (Some v)
  let ?g = "recordFailure t name g"
  show ?thesis
  proof (cases "gv_err v = None")
    case True
    have "g_lastFail ?g = AList.update name t (del_where (\<lambda>k t'. g_failCooldown g \<le> t - t') (g_lastFail g))"
      "g_verdicts ?g = g_verdicts g" "g_failCooldown ?g = g_failCooldown g"
      using assms Some True by (simp_all add: recordFailure_def)
    then have cool: "cooling now name ?g \<longleftrightarrow> now - t < g_failCooldown g" for now by (simp add: cooling_def)
    have "recordFailure now name ?g = ?g" if "cooling now name ?g" for now
      using that by (simp add: recordFailure_def [of now name ?g] split: option.splits)
    moreover have "\<not> cooling now name (recordSuccess name ?g)" for now by (simp add: cooling_def recordSuccess_def)
    ultimately show ?thesis using Some True cool by (auto simp: decide_def decide_cached_def)
  next
    case False
    then show ?thesis using Some by (auto simp: recordFailure_def)
  qed
qed (simp add: recordFailure_def)

theorem gate_cooldown_witness:
  "decide (\<lambda>_. None) 5 5 [] ''ok.dev'' (recordFailure 3 ''ok.dev'' (snd (decide (\<lambda>_. None) 0 0 [] ''ok.dev'' newDecisionGate))) =
     (Some (CoolingDown ''ok.dev''), recordFailure 3 ''ok.dev'' (snd (decide (\<lambda>_. None) 0 0 [] ''ok.dev'' newDecisionGate)))"
proof -
  let ?g = "snd (decide (\<lambda>_. None) 0 0 [] ''ok.dev'' newDecisionGate)"
  have v: "map_of (g_verdicts ?g) ''ok.dev'' = Some \<lparr>gv_err = None, gv_expires = seconds 60\<rparr>" "g_failCooldown ?g = minutes 2"
    "\<not> cooling 3 ''ok.dev'' ?g"
    by (simp_all add: newDecisionGate_def decide_def decide_cached_def cooling_def decide_store_def verdict_put_def gateMaxEntries_def)
  show ?thesis using gate_cooldown [OF v(3), of "\<lambda>_. None" 5 "[]"] v by (auto simp: minutes_def seconds_def)
qed

text \<open>
  The certificate requested for a tunnel's host covers it: for every URL shape, a valid
  label and a valid or empty slug, one of the names \<open>wildNamesFor\<close> requests for the host the
  edge serves the tunnel on is that host or a wildcard for exactly its first label.
\<close>

theorem cert_covers_host:
  assumes "labelRegex name" and "slug = [] \<or> slugRegex slug"
  shows "\<exists>san \<in> set (wildNamesFor base (hostname name slug base sh)). covers san (hostname name slug base sh)"
proof -
  have n: "CHR ''.'' \<notin> set name" "name \<noteq> []" using label_no_special [OF assms(1)] assms(1) by (auto simp: labelRegex.simps)
  have s: "CHR ''.'' \<notin> set slug" using assms(2) slug_no_special by auto
  consider (flat) l where "hostname name slug base sh = l @ CHR ''.'' # base" "CHR ''.'' \<notin> set l" "l \<noteq> []"
    | (sub) "hostname name slug base sh = name @ CHR ''.'' # slug @ CHR ''.'' # base" "slug \<noteq> []"
    using n s by (fastforce simp: hostname_def split: if_splits shape.splits)
  then show ?thesis
  proof cases
    case (flat l)
    then show ?thesis using covers_wildcard [of l base] by (simp add: wildNamesFor_def extractSlug_flat certNamesFor_def)
  next
    case sub
    then show ?thesis using covers_wildcard [OF n, of "slug @ CHR ''.'' # base"]
      by (simp add: wildNamesFor_def extractSlug_two [OF n(1) s] certNamesFor_def)
  qed
qed

theorem cert_covers_host_witness:
  "\<exists>san \<in> set (wildNamesFor ''b.io'' (hostname ''api'' ''ada'' ''b.io'' ShapeSubdomain)). covers san ''api.ada.b.io''"
proof -
  have "labelRegex ''api''" "slugRegex ''ada''" by code_simp+
  then show ?thesis using cert_covers_host [of "''api''" "''ada''" "''b.io''" ShapeSubdomain] by (simp add: hostname_def)
qed

end
