(* ===== verification/Admission.thy ===== *)
theory Admission
  imports Routes Traffic
begin

text \<open>
  Admission control of the edge (\<open>src/internal/edge/edge.go\<close>): the slots a tunnel session holds
  before and after authentication, the leases and watchers of its data streams, the parts of
  \<open>dropSession\<close> and \<open>Shutdown\<close> that concern them, and the interleaving of all the goroutines
  that take and return slots. A buffered channel used as a semaphore is the number of tokens in
  it; a receive is only ever taken with a token in the channel, which is proved. A transport and
  the session made from it share a number. A counter is updated in the step of the critical
  section next to it.
\<close>

section \<open>State\<close>

record leases =
  ls_kind :: kind
  ls_cap :: nat          \<comment> \<open>\<open>cap(streamSlots)\<close>\<close>
  ls_slots :: nat        \<comment> \<open>\<open>len(streamSlots)\<close>\<close>
  ls_active :: int64     \<comment> \<open>\<open>activeStreams\<close>\<close>
  ls_closing :: bool     \<comment> \<open>\<open>streamsClosing\<close>\<close>
  ls_watchers :: nat     \<comment> \<open>the session's \<open>streamWG\<close>\<close>
  ls_released :: bool    \<comment> \<open>\<open>authRelease\<close> has run\<close>

record admission =
  ad_shuttingDown :: bool
  ad_preauth :: "nat list"
  ad_preAuthSlots :: nat
  ad_preAuthCap :: nat
  ad_authSlots :: nat
  ad_authCap :: nat
  ad_globalSlots :: nat
  ad_globalCap :: nat
  ad_streamWG :: nat
  ad_sessions :: "nat list"
  ad_leases :: "nat \<Rightarrow> leases"
  ad_activeSessions :: int64
  ad_sessionsCreated :: int64
  ad_metrics :: metrics

abbreviation on_metrics :: "(metrics \<Rightarrow> metrics) \<Rightarrow> admission \<Rightarrow> admission" where
  "on_metrics f a \<equiv> a\<lparr>ad_metrics := f (ad_metrics a)\<rparr>"

abbreviation on_leases :: "nat \<Rightarrow> (leases \<Rightarrow> leases) \<Rightarrow> admission \<Rightarrow> admission" where
  "on_leases s f a \<equiv> a\<lparr>ad_leases := (ad_leases a)(s := f (ad_leases a s))\<rparr>"

section \<open>Capacities\<close>

definition safeChannelCapacity :: "int \<Rightarrow> nat" where
  "safeChannelCapacity value = (if value < 1 then 1 else nat value)"

definition legacyAgentMaxStreams :: int where
  "legacyAgentMaxStreams = 64"

definition effectiveSessionStreamCapacity :: "int \<Rightarrow> int \<Rightarrow> int" where
  "effectiveSessionStreamCapacity configured advertised =
     (let advertised = (if advertised \<le> 0 then legacyAgentMaxStreams else advertised)
      in if advertised < configured then advertised else configured)"

text \<open>The part of \<open>New\<close> that makes the channels and counters.\<close>

definition newAdmission :: "int \<Rightarrow> int \<Rightarrow> int \<Rightarrow> admission" where
  "newAdmission maxPreAuthSessions maxSessionsTotal maxStreamsTotal =
     \<lparr>ad_shuttingDown = False, ad_preauth = [], ad_preAuthSlots = 0, ad_preAuthCap = safeChannelCapacity maxPreAuthSessions,
      ad_authSlots = 0, ad_authCap = safeChannelCapacity maxSessionsTotal,
      ad_globalSlots = 0, ad_globalCap = safeChannelCapacity maxStreamsTotal, ad_streamWG = 0, ad_sessions = [],
      ad_leases = (\<lambda>_. \<lparr>ls_kind = KindTCP, ls_cap = 0, ls_slots = 0, ls_active = 0, ls_closing = True, ls_watchers = 0, ls_released = True\<rparr>),
      ad_activeSessions = 0, ad_sessionsCreated = 0, ad_metrics = newMetrics\<rparr>"

section \<open>Sessions before authentication\<close>

text \<open>The two sections of \<open>acquirePreauth\<close>: the channel send, and the one under \<open>lifecycleMu\<close>.\<close>

definition preauth_slot :: "admission \<Rightarrow> bool \<times> admission" where
  "preauth_slot a =
     (if ad_preAuthSlots a < ad_preAuthCap a then (True, a\<lparr>ad_preAuthSlots := ad_preAuthSlots a + 1\<rparr>)
      else (False, on_metrics (recordCapacityRejection ''preauth_session'') a))"

definition preauth_enter :: "nat \<Rightarrow> kind \<Rightarrow> admission \<Rightarrow> bool \<times> admission" where
  "preauth_enter t k a =
     (if ad_shuttingDown a then (False, a\<lparr>ad_preAuthSlots := ad_preAuthSlots a - 1\<rparr>)
      else (True, on_metrics (addSessionState k ''preauth'' 1) (a\<lparr>ad_preauth := List.insert t (ad_preauth a)\<rparr>)))"

definition acquirePreauth :: "nat \<Rightarrow> kind \<Rightarrow> admission \<Rightarrow> bool \<times> admission" where
  "acquirePreauth t k a = (case preauth_slot a of (ok, a) \<Rightarrow> if \<not> ok then (False, a) else preauth_enter t k a)"

text \<open>The two sections of \<open>releasePreauth\<close>.\<close>

definition preauth_leave :: "nat \<Rightarrow> kind \<Rightarrow> admission \<Rightarrow> bool \<times> admission" where
  "preauth_leave t k a =
     (if t \<notin> set (ad_preauth a) then (False, a)
      else (True, on_metrics (addSessionState k ''preauth'' (- 1)) (a\<lparr>ad_preauth := removeAll t (ad_preauth a)\<rparr>)))"

definition preauth_return :: "admission \<Rightarrow> admission" where
  "preauth_return a = a\<lparr>ad_preAuthSlots := ad_preAuthSlots a - 1\<rparr>"

definition releasePreauth :: "nat \<Rightarrow> kind \<Rightarrow> admission \<Rightarrow> admission" where
  "releasePreauth t k a = (case preauth_leave t k a of (ok, a) \<Rightarrow> if ok then preauth_return a else a)"

section \<open>Authenticated sessions\<close>

definition acquireAuthenticated :: "admission \<Rightarrow> bool \<times> admission" where
  "acquireAuthenticated a =
     (if ad_shuttingDown a then (False, a)
      else if ad_authSlots a < ad_authCap a then (True, a\<lparr>ad_authSlots := ad_authSlots a + 1\<rparr>)
      else (False, on_metrics (recordCapacityRejection ''authenticated_session'') a))"

definition auth_return :: "admission \<Rightarrow> admission" where
  "auth_return a = a\<lparr>ad_authSlots := ad_authSlots a - 1\<rparr>"

text \<open>\<open>newSession\<close>: the lease fields of the \<open>Session\<close> that \<open>handleTunnelSession\<close> makes.\<close>

definition newSession :: "kind \<Rightarrow> int \<Rightarrow> leases" where
  "newSession k cap =
     \<lparr>ls_kind = k, ls_cap = nat cap, ls_slots = 0, ls_active = 0, ls_closing = False, ls_watchers = 0, ls_released = False\<rparr>"

definition promote_locked :: "nat \<Rightarrow> leases \<Rightarrow> admission \<Rightarrow> bool \<times> admission" where
  "promote_locked t l a =
     (if ad_shuttingDown a then (False, a)
      else if t \<notin> set (ad_preauth a) then (False, a)
      else (True, a\<lparr>ad_preauth := removeAll t (ad_preauth a), ad_sessions := List.insert t (ad_sessions a),
                    ad_leases := (ad_leases a)(t := l)\<rparr>))"

definition promote_return :: "kind \<Rightarrow> admission \<Rightarrow> admission" where
  "promote_return k a = preauth_return (on_metrics (addSessionState k ''preauth'' (- 1)) a)"

definition promoteAuthenticated :: "nat \<Rightarrow> leases \<Rightarrow> admission \<Rightarrow> bool \<times> admission" where
  "promoteAuthenticated t l a =
     (case promote_locked t l a of (ok, a) \<Rightarrow> if ok then (True, promote_return (ls_kind l) a) else (False, a))"

text \<open>The counters \<open>handleTunnelSession\<close> updates for an authenticated session.\<close>

definition session_opened :: "kind \<Rightarrow> admission \<Rightarrow> admission" where
  "session_opened k a =
     on_metrics (recordSessionCreated k) (on_metrics (addSessionState k ''authenticated'' 1)
       (a\<lparr>ad_activeSessions := ad_activeSessions a + 1, ad_sessionsCreated := ad_sessionsCreated a + 1\<rparr>))"

section \<open>Streams\<close>

definition reserveStreamWatcher :: "nat \<Rightarrow> admission \<Rightarrow> bool \<times> admission" where
  "reserveStreamWatcher s a =
     (if ls_closing (ad_leases a s) then (False, a)
      else (True, on_leases s (\<lambda>l. l\<lparr>ls_watchers := ls_watchers l + 1\<rparr>) (a\<lparr>ad_streamWG := ad_streamWG a + 1\<rparr>)))"

definition releaseStreamWatcher :: "nat \<Rightarrow> admission \<Rightarrow> admission" where
  "releaseStreamWatcher s a =
     on_leases s (\<lambda>l. l\<lparr>ls_watchers := ls_watchers l - 1\<rparr>) (a\<lparr>ad_streamWG := ad_streamWG a - 1\<rparr>)"

definition stopStreamAdmission :: "nat \<Rightarrow> admission \<Rightarrow> admission" where
  "stopStreamAdmission s a = on_leases s (\<lambda>l. l\<lparr>ls_closing := True\<rparr>) a"

text \<open>The two channel operations of \<open>acquireStreamLease\<close>; the second gives the first back.\<close>

definition lease_global :: "admission \<Rightarrow> bool \<times> admission" where
  "lease_global a =
     (if ad_globalSlots a < ad_globalCap a then (True, a\<lparr>ad_globalSlots := ad_globalSlots a + 1\<rparr>)
      else (False, on_metrics (recordCapacityRejection ''global_stream'') a))"

definition lease_session :: "nat \<Rightarrow> admission \<Rightarrow> bool \<times> admission" where
  "lease_session s a =
     (let l = ad_leases a s
      in if ls_slots l < ls_cap l then
           (True, on_metrics (addStream (ls_kind l) 1) (on_leases s (\<lambda>l. l\<lparr>ls_slots := ls_slots l + 1, ls_active := ls_active l + 1\<rparr>) a))
         else (False, on_metrics (recordCapacityRejection ''session_stream'') (a\<lparr>ad_globalSlots := ad_globalSlots a - 1\<rparr>)))"

definition acquireStreamLease :: "nat \<Rightarrow> admission \<Rightarrow> bool \<times> admission" where
  "acquireStreamLease s a = (case lease_global a of (ok, a) \<Rightarrow> if \<not> ok then (False, a) else lease_session s a)"

text \<open>The two channel receives of \<open>streamLease.release\<close>.\<close>

definition release_session :: "nat \<Rightarrow> admission \<Rightarrow> admission" where
  "release_session s a = on_leases s (\<lambda>l. l\<lparr>ls_slots := ls_slots l - 1\<rparr>) a"

definition release_global :: "nat \<Rightarrow> admission \<Rightarrow> admission" where
  "release_global s a =
     on_metrics (addStream (ls_kind (ad_leases a s)) (- 1))
       (on_leases s (\<lambda>l. l\<lparr>ls_active := ls_active l - 1\<rparr>) (a\<lparr>ad_globalSlots := ad_globalSlots a - 1\<rparr>))"

definition release_lease :: "nat \<Rightarrow> admission \<Rightarrow> admission" where
  "release_lease s a = release_global s (release_session s a)"

section \<open>openRouteStream\<close>

datatype stream_error = NoRoute string | ErrSessionClosed | ErrCapacity | ErrStaleRoute | OpenFailed string | PrefixFailed | Canceled

text \<open>
  What the rest of the world does during one call: the route table at the recheck, whether the
  transport is closed, the result of \<open>OpenStream\<close> (\<open>Some c\<close>: a failure classified as \<open>c\<close>),
  whether writing the name prefix fails, and whether the caller's context has ended at the
  three places that look.
\<close>

record open_env =
  oe_recheck :: "(string, route) gomap"
  oe_closed :: bool
  oe_open :: "string option"
  oe_ctxAfterOpen :: bool
  oe_prefixErr :: bool
  oe_ctxAtEnd :: bool

definition still_current :: "(string, route) gomap \<Rightarrow> string \<Rightarrow> route \<Rightarrow> bool" where
  "still_current rts host rt \<longleftrightarrow> (case map_of rts host of None \<Rightarrow> False | Some cur \<Rightarrow>
     rt_id cur = rt_id rt \<and> rt_session cur = rt_session rt \<and> rt_name cur = rt_name rt)"

text \<open>\<open>Inr\<close>: the connection; the lease and the watcher belong to its \<open>leasedConn\<close> from then on.
  After a failed prefix the stream is aborted, and \<open>leasedConn\<close> returns both (\<open>stream_end\<close>).\<close>

definition stream_end :: "nat \<Rightarrow> admission \<Rightarrow> admission" where
  "stream_end s a = releaseStreamWatcher s (release_lease s a)"

definition openRouteStreamForRoute :: "open_env \<Rightarrow> string \<Rightarrow> route \<Rightarrow> admission \<Rightarrow> (stream_error + unit) \<times> admission" where
  "openRouteStreamForRoute env host rt a =
     (let s = rt_session rt
      in case reserveStreamWatcher s a of (reserved, a) \<Rightarrow>
         if \<not> reserved then (Inl ErrSessionClosed, a)
         else case acquireStreamLease s a of (leased, a) \<Rightarrow>
           if \<not> leased then (Inl ErrCapacity, releaseStreamWatcher s a)
           else if \<not> still_current (oe_recheck env) host rt then (Inl ErrStaleRoute, stream_end s a)
           else if oe_closed env then (Inl ErrSessionClosed, stream_end s a)
           else case oe_open env of
               Some c \<Rightarrow>
                 (Inl (OpenFailed c),
                  stream_end s (if oe_ctxAfterOpen env then a
                                else on_metrics (recordStreamOpenError (ls_kind (ad_leases a s)) c) a))
             | None \<Rightarrow>
                 if oe_prefixErr env then (Inl (if oe_ctxAtEnd env then Canceled else PrefixFailed), stream_end s a)
                 else if oe_ctxAtEnd env then (Inl Canceled, stream_end s a)
                 else (Inr (), a))"

definition openRouteStream :: "open_env \<Rightarrow> string \<Rightarrow> (string, route) gomap \<Rightarrow> admission \<Rightarrow> (stream_error + unit) \<times> admission" where
  "openRouteStream env host rts a =
     (case map_of rts host of
        None \<Rightarrow> (Inl (NoRoute host), a)
      | Some rt \<Rightarrow> openRouteStreamForRoute env host rt a)"

section \<open>dropSession and Shutdown\<close>

text \<open>\<open>dropSession\<close> up to the waits (its route part is \<open>drop_routes\<close>), and after them.\<close>

definition drop_begin :: "nat \<Rightarrow> admission \<Rightarrow> admission" where
  "drop_begin s a =
     (let a = stopStreamAdmission s a
      in if s \<in> set (ad_sessions a) then a\<lparr>ad_sessions := removeAll s (ad_sessions a), ad_activeSessions := ad_activeSessions a - 1\<rparr>
         else a)"

definition drop_finish :: "nat \<Rightarrow> string \<Rightarrow> admission \<Rightarrow> admission" where
  "drop_finish s reason a =
     on_metrics (recordSessionClose (ls_kind (ad_leases a s)) reason)
       (if ls_released (ad_leases a s) then a
        else on_leases s (\<lambda>l. l\<lparr>ls_released := True\<rparr>)
               (on_metrics (addSessionState (ls_kind (ad_leases a s)) ''authenticated'' (- 1)) (auth_return a)))"

text \<open>The first critical section of \<open>Shutdown\<close>.\<close>

definition shutdown_begin :: "admission \<Rightarrow> admission" where
  "shutdown_begin a = a\<lparr>ad_shuttingDown := True\<rparr>"

declare preauth_slot_def [slot_defs] preauth_enter_def [slot_defs] preauth_leave_def [slot_defs] preauth_return_def [slot_defs]
  acquireAuthenticated_def [slot_defs] auth_return_def [slot_defs] newSession_def [slot_defs] promote_locked_def [slot_defs]
  promote_return_def [slot_defs] session_opened_def [slot_defs] reserveStreamWatcher_def [slot_defs]
  releaseStreamWatcher_def [slot_defs] stopStreamAdmission_def [slot_defs] lease_global_def [slot_defs]
  lease_session_def [slot_defs] release_session_def [slot_defs] release_global_def [slot_defs] drop_begin_def [slot_defs]
  drop_finish_def [slot_defs] shutdown_begin_def [slot_defs]

section \<open>Operations undo one another\<close>

lemmas stream_defs = reserveStreamWatcher_def releaseStreamWatcher_def lease_global_def lease_session_def
  acquireStreamLease_def release_session_def release_global_def release_lease_def stream_end_def

lemma watcher_undo:
  "reserveStreamWatcher s a = (True, a') \<Longrightarrow> releaseStreamWatcher s a' = a"
  by (auto simp: stream_defs split: if_splits)

lemma add_at_undo: "add_at i (- d) (add_at i d xs) = xs"
  by (cases "i < length xs") (simp_all add: add_at_def list_update_beyond)

lemma addStream_undo: "addStream k (- 1) (addStream k 1 m) = m"
  by (simp add: addStream_def add_at_undo)

lemma lease_undo:
  "acquireStreamLease s a = (True, a') \<Longrightarrow> release_lease s a' = a"
  by (auto simp: stream_defs Let_def addStream_undo split: if_splits prod.splits)

text \<open>A refused lease leaves nothing but the count of the refusal.\<close>

lemma lease_refused:
  "acquireStreamLease s a = (False, a') \<Longrightarrow> \<exists>scope. a' = on_metrics (recordCapacityRejection scope) a"
  by (auto simp: stream_defs Let_def split: if_splits prod.splits)

lemma watcher_metrics: "releaseStreamWatcher s (on_metrics f a) = on_metrics f (releaseStreamWatcher s a)"
  by (simp add: releaseStreamWatcher_def)

lemma addStream_openError:
  "addStream k d (recordStreamOpenError k' c m) = recordStreamOpenError k' c (addStream k d m)"
  by (simp add: addStream_def recordStreamOpenError_def)

lemma stream_end_metrics:
  "stream_end s (on_metrics (recordStreamOpenError k c) a) = on_metrics (recordStreamOpenError k c) (stream_end s a)"
  by (simp add: stream_defs addStream_openError)

lemma stream_undo:
  assumes "reserveStreamWatcher s a = (True, a1)" and "acquireStreamLease s a1 = (True, a2)"
  shows "stream_end s a2 = a"
  using assms lease_undo watcher_undo by (simp add: stream_end_def)

lemma stream_admitted:
  assumes "reserveStreamWatcher s a = (True, a1)" and "acquireStreamLease s a1 = (True, a2)"
  shows "\<not> ls_closing (ad_leases a s)" and "ad_globalSlots a2 = ad_globalSlots a + 1" and "ad_globalSlots a + 1 \<le> ad_globalCap a"
    and "ls_slots (ad_leases a s) + 1 \<le> ls_cap (ad_leases a s)" and "ad_streamWG a2 = ad_streamWG a + 1"
    and "ad_leases a2 s = (ad_leases a s)\<lparr>ls_slots := ls_slots (ad_leases a s) + 1, ls_active := ls_active (ad_leases a s) + 1,
           ls_watchers := ls_watchers (ad_leases a s) + 1\<rparr>"
  using assms by (auto simp: stream_defs Let_def split: if_splits prod.splits)

section \<open>Properties\<close>

text \<open>
  C16. Opening a stream is all or nothing. When \<open>openRouteStream\<close> fails, on every one of its
  paths, once the streams it aborted have ended the admission state is exactly what it was,
  but for one rejection or open-error counter. When it succeeds, the host is routed at the
  start and the recheck after admission finds the very same route; the session accepts streams;
  and exactly one global slot, one slot of the session and one watcher are held, within both
  capacities.
\<close>

theorem openRouteStream_all_or_nothing:
  assumes "openRouteStream env host rts a = (r, a')"
  shows "case r of
      Inl err \<Rightarrow> a' = a \<or> (\<exists>scope. a' = on_metrics (recordCapacityRejection scope) a) \<or>
        (\<exists>k c. err = OpenFailed c \<and> a' = on_metrics (recordStreamOpenError k c) a)
    | Inr _ \<Rightarrow> \<exists>rt. map_of rts host = Some rt \<and> still_current (oe_recheck env) host rt \<and>
        (let s = rt_session rt; l = ad_leases a s; l' = ad_leases a' s
         in \<not> ls_closing l \<and> \<not> oe_closed env \<and>
            ad_globalSlots a' = ad_globalSlots a + 1 \<and> ad_globalSlots a' \<le> ad_globalCap a \<and>
            l' = l\<lparr>ls_slots := ls_slots l + 1, ls_active := ls_active l + 1, ls_watchers := ls_watchers l + 1\<rparr> \<and>
            ls_slots l' \<le> ls_cap l \<and> ad_streamWG a' = ad_streamWG a + 1 \<and> stream_end s a' = a)"
proof (cases "map_of rts host")
  case None
  then show ?thesis using assms by (auto simp: openRouteStream_def)
next
  case (Some rt)
  let ?s = "rt_session rt"
  have run: "openRouteStreamForRoute env host rt a = (r, a')" using assms Some by (simp add: openRouteStream_def)
  obtain b1 a1 where w: "reserveStreamWatcher ?s a = (b1, a1)" by fastforce
  obtain b2 a2 where l: "acquireStreamLease ?s a1 = (b2, a2)" by fastforce
  note run = run [unfolded openRouteStreamForRoute_def Let_def w prod.case l]
  consider (closing) "\<not> b1" | (full) b1 "\<not> b2" | (leased) b1 b2 by blast
  then show ?thesis
  proof cases
    case closing
    then have "a1 = a" using w by (auto simp: reserveStreamWatcher_def split: if_splits)
    then show ?thesis using closing run by auto
  next
    case full
    then obtain scope where "a2 = on_metrics (recordCapacityRejection scope) a1" using l lease_refused [of ?s a1 a2] by auto
    then have "releaseStreamWatcher ?s a2 = on_metrics (recordCapacityRejection scope) a"
      using watcher_undo [of ?s a a1] w full(1) by (simp add: watcher_metrics)
    moreover have "r = Inl ErrCapacity" "a' = releaseStreamWatcher ?s a2" using run full by auto
    ultimately have "\<exists>scope. a' = on_metrics (recordCapacityRejection scope) a" by blast
    then show ?thesis using \<open>r = Inl ErrCapacity\<close> by simp
  next
    case leased
    have undo: "stream_end ?s a2 = a" using stream_undo [of ?s a a1 a2] w l leased by simp
    show ?thesis
    proof (cases r)
      case (Inl err)
      then show ?thesis using run leased undo by (auto simp: stream_end_metrics split: if_splits option.splits)
    next
      case (Inr u)
      then have ok: "a' = a2" "still_current (oe_recheck env) host rt" "\<not> oe_closed env"
        using run leased by (auto split: if_splits option.splits)
      have w': "reserveStreamWatcher ?s a = (True, a1)" and l': "acquireStreamLease ?s a1 = (True, a2)" using w l leased by simp_all
      show ?thesis using Inr Some ok(2,3) undo stream_admitted [OF w' l'] unfolding ok(1) Let_def by simp
    qed
  qed
qed

definition ex_edge :: admission where
  "ex_edge = snd (promoteAuthenticated 7 (newSession KindQUIC 2) (snd (acquireAuthenticated (snd (acquirePreauth 7 KindQUIC (newAdmission 4 4 1))))))"

abbreviation ex_route :: route where
  "ex_route \<equiv> \<lparr>rt_session = 7, rt_name = ''api'', rt_id = 3\<rparr>"

definition ex_env :: open_env where
  "ex_env = \<lparr>oe_recheck = [(''h'', ex_route)], oe_closed = False, oe_open = None, oe_ctxAfterOpen = False, oe_prefixErr = False, oe_ctxAtEnd = False\<rparr>"

theorem openRouteStream_all_or_nothing_witness:
  "fst (openRouteStream ex_env ''h'' [(''h'', ex_route)] ex_edge) = Inr () \<and>
   ad_globalSlots (snd (openRouteStream ex_env ''h'' [(''h'', ex_route)] ex_edge)) = ad_globalSlots ex_edge + 1"
proof -
  let ?o = "openRouteStream ex_env ''h'' [(''h'', ex_route)] ex_edge"
  have ok: "fst ?o = Inr ()" by code_simp
  show ?thesis using openRouteStream_all_or_nothing [OF surjective_pairing, of ex_env "''h''" "[(''h'', ex_route)]" ex_edge] ok
    by (simp add: Let_def)
qed

end
