(* ===== verification/Admission_Steps.thy ===== *)
theory Admission_Steps
  imports Admission
begin

text \<open>
  The interleaving of the goroutines that take and return admission slots: the accept loops,
  one handler per transport (\<open>handleTunnelSession\<close> with \<open>dropSession\<close>), one request per data
  stream (\<open>openRouteStreamForRoute\<close> and then the watcher of its \<open>leasedConn\<close>), and \<open>Shutdown\<close>.
  A goroutine is its phase; a step runs one of the operations of \<open>Admission\<close> for the goroutine
  it names, and is undefined when that goroutine is elsewhere or has to wait.
\<close>

section \<open>Goroutines\<close>

datatype hphase =
    HSlot       \<comment> \<open>\<open>acquirePreauth\<close>: slot taken, transport not recorded yet\<close>
  | HPre        \<comment> \<open>handshake\<close>
  | HAuth       \<comment> \<open>\<open>acquireAuthenticated\<close> succeeded\<close>
  | HPromoted   \<comment> \<open>\<open>promoteAuthenticated\<close>: in \<open>sessions\<close>, pre-authentication slot not returned yet\<close>
  | HRun        \<comment> \<open>control loop\<close>
  | HDropping   \<comment> \<open>\<open>dropSession\<close>, waiting\<close>
  | HDone       \<comment> \<open>the session has ended\<close>
  | HFailed     \<comment> \<open>handshake failed, \<open>releasePreauth\<close> deferred\<close>
  | HReleasing  \<comment> \<open>\<open>releasePreauth\<close>: transport removed, slot not returned yet\<close>
  | HGone       \<comment> \<open>ended without a session\<close>

datatype sphase =
    SReserved   \<comment> \<open>watcher reserved\<close>
  | SGlobal     \<comment> \<open>global slot taken\<close>
  | SLeased     \<comment> \<open>both slots taken\<close>
  | SOpen       \<comment> \<open>the stream belongs to its watcher\<close>
  | SReturning  \<comment> \<open>the session's slot returned\<close>
  | SUnwatch    \<comment> \<open>both slots returned\<close>
  | SDone

record world =
  w_adm :: admission
  w_handlers :: "(kind \<times> hphase) list"
  w_streams :: "(nat \<times> sphase) list"

datatype adm_label =
    Accept kind | Enter nat | HandshakeFails nat "string option" | Leave nat | ReturnSlot nat
  | Authenticate nat | HelloFails nat | Promote nat int | PromoteReturn nat | DropBegin nat | DropFinish nat string
  | Request nat | LeaseGlobal nat | LeaseSession nat | Opened nat | GiveBack nat "string option" | GiveBackGlobal nat | Unwatch nat
  | ShutdownBegin

definition at_h :: "hphase \<Rightarrow> nat \<Rightarrow> world \<Rightarrow> bool" where
  "at_h p t w \<longleftrightarrow> t < length (w_handlers w) \<and> snd (w_handlers w ! t) = p"

definition at_s :: "sphase \<Rightarrow> nat \<Rightarrow> world \<Rightarrow> bool" where
  "at_s p r w \<longleftrightarrow> r < length (w_streams w) \<and> snd (w_streams w ! r) = p"

abbreviation kind_of :: "world \<Rightarrow> nat \<Rightarrow> kind" where
  "kind_of w t \<equiv> fst (w_handlers w ! t)"

abbreviation sess_of :: "world \<Rightarrow> nat \<Rightarrow> nat" where
  "sess_of w r \<equiv> fst (w_streams w ! r)"

definition go_h :: "nat \<Rightarrow> hphase \<Rightarrow> admission \<Rightarrow> world \<Rightarrow> world" where
  "go_h t p a w = w\<lparr>w_adm := a, w_handlers := (w_handlers w)[t := (kind_of w t, p)]\<rparr>"

definition go_s :: "nat \<Rightarrow> sphase \<Rightarrow> admission \<Rightarrow> world \<Rightarrow> world" where
  "go_s r p a w = w\<lparr>w_adm := a, w_streams := (w_streams w)[r := (sess_of w r, p)]\<rparr>"

definition has_session :: "hphase \<Rightarrow> bool" where
  "has_session p \<longleftrightarrow> p = HPromoted \<or> p = HRun \<or> p = HDropping \<or> p = HDone"

text \<open>\<open>configured\<close>: \<open>MaxStreamsPerSession\<close>.\<close>

fun adm_step :: "int \<Rightarrow> adm_label \<Rightarrow> world \<Rightarrow> world option" where
  "adm_step configured (Accept k) w =
     (case preauth_slot (w_adm w) of (ok, a) \<Rightarrow>
        Some (if ok then w\<lparr>w_adm := a, w_handlers := w_handlers w @ [(k, HSlot)]\<rparr> else w\<lparr>w_adm := a\<rparr>))"
| "adm_step configured (Enter t) w =
     (if at_h HSlot t w then
        (case preauth_enter t (kind_of w t) (w_adm w) of (ok, a) \<Rightarrow> Some (go_h t (if ok then HPre else HGone) a w))
      else None)"
| "adm_step configured (HandshakeFails t reason) w =
     (if at_h HPre t w then
        Some (go_h t HFailed (case reason of None \<Rightarrow> w_adm w | Some c \<Rightarrow> on_metrics (recordHandshakeError (kind_of w t) c) (w_adm w)) w)
      else None)"
| "adm_step configured (Leave t) w =
     (if at_h HFailed t w then
        (case preauth_leave t (kind_of w t) (w_adm w) of (ok, a) \<Rightarrow> Some (go_h t (if ok then HReleasing else HGone) a w))
      else None)"
| "adm_step configured (ReturnSlot t) w =
     (if at_h HReleasing t w then Some (go_h t HGone (preauth_return (w_adm w)) w) else None)"
| "adm_step configured (Authenticate t) w =
     (if at_h HPre t w then
        (case acquireAuthenticated (w_adm w) of (ok, a) \<Rightarrow> Some (go_h t (if ok then HAuth else HFailed) a w))
      else None)"
| "adm_step configured (HelloFails t) w =
     (if at_h HAuth t w then
        Some (go_h t HFailed (on_metrics (recordHandshakeError (kind_of w t) ''other'') (auth_return (w_adm w))) w)
      else None)"
| "adm_step configured (Promote t advertised) w =
     (if at_h HAuth t w then
        (case promote_locked t (newSession (kind_of w t) (effectiveSessionStreamCapacity configured advertised)) (w_adm w) of (ok, a) \<Rightarrow>
           Some (if ok then go_h t HPromoted a w else go_h t HFailed (auth_return a) w))
      else None)"
| "adm_step configured (PromoteReturn t) w =
     (if at_h HPromoted t w then Some (go_h t HRun (session_opened (kind_of w t) (promote_return (kind_of w t) (w_adm w))) w)
      else None)"
| "adm_step configured (DropBegin t) w =
     (if at_h HRun t w then Some (go_h t HDropping (drop_begin t (w_adm w)) w) else None)"
| "adm_step configured (DropFinish t reason) w =
     (if at_h HDropping t w \<and> ls_watchers (ad_leases (w_adm w) t) = 0
      then Some (go_h t HDone (drop_finish t reason (w_adm w)) w) else None)"
| "adm_step configured (Request s) w =
     (if s < length (w_handlers w) \<and> has_session (snd (w_handlers w ! s)) then
        (case reserveStreamWatcher s (w_adm w) of (ok, a) \<Rightarrow>
           Some (if ok then w\<lparr>w_adm := a, w_streams := w_streams w @ [(s, SReserved)]\<rparr> else w))
      else None)"
| "adm_step configured (LeaseGlobal r) w =
     (if at_s SReserved r w then
        (case lease_global (w_adm w) of (ok, a) \<Rightarrow> Some (go_s r (if ok then SGlobal else SUnwatch) a w))
      else None)"
| "adm_step configured (LeaseSession r) w =
     (if at_s SGlobal r w then
        (case lease_session (sess_of w r) (w_adm w) of (ok, a) \<Rightarrow> Some (go_s r (if ok then SLeased else SUnwatch) a w))
      else None)"
| "adm_step configured (Opened r) w = (if at_s SLeased r w then Some (go_s r SOpen (w_adm w) w) else None)"
| "adm_step configured (GiveBack r reason) w =
     (if at_s SLeased r w \<or> at_s SOpen r w then
        Some (go_s r SReturning (release_session (sess_of w r)
          (case reason of None \<Rightarrow> w_adm w
           | Some c \<Rightarrow> on_metrics (recordStreamOpenError (ls_kind (ad_leases (w_adm w) (sess_of w r))) c) (w_adm w))) w)
      else None)"
| "adm_step configured (GiveBackGlobal r) w =
     (if at_s SReturning r w then Some (go_s r SUnwatch (release_global (sess_of w r) (w_adm w)) w) else None)"
| "adm_step configured (Unwatch r) w =
     (if at_s SUnwatch r w then Some (go_s r SDone (releaseStreamWatcher (sess_of w r) (w_adm w)) w) else None)"
| "adm_step configured ShutdownBegin w = Some (w\<lparr>w_adm := shutdown_begin (w_adm w)\<rparr>)"

fun adm_run :: "int \<Rightarrow> adm_label list \<Rightarrow> world \<Rightarrow> world option" where
  "adm_run configured [] w = Some w"
| "adm_run configured (l # ls) w =
     (case adm_step configured l w of None \<Rightarrow> None | Some w' \<Rightarrow> adm_run configured ls w')"

definition init_world :: "int \<Rightarrow> int \<Rightarrow> int \<Rightarrow> world" where
  "init_world pre auth streams = \<lparr>w_adm = newAdmission pre auth streams, w_handlers = [], w_streams = []\<rparr>"

section \<open>Who holds what\<close>

definition holds_pre :: "hphase \<Rightarrow> bool" where
  "holds_pre p \<longleftrightarrow> p \<in> {HSlot, HPre, HFailed, HAuth, HPromoted, HReleasing}"

definition in_preauth :: "hphase \<Rightarrow> bool" where
  "in_preauth p \<longleftrightarrow> p \<in> {HPre, HFailed, HAuth}"

definition holds_auth :: "hphase \<Rightarrow> bool" where
  "holds_auth p \<longleftrightarrow> p \<in> {HAuth, HPromoted, HRun, HDropping}"

definition in_sessions :: "hphase \<Rightarrow> bool" where
  "in_sessions p \<longleftrightarrow> p \<in> {HPromoted, HRun}"

definition holds_global :: "nat \<times> sphase \<Rightarrow> bool" where
  "holds_global r \<longleftrightarrow> snd r \<in> {SGlobal, SLeased, SOpen, SReturning}"

definition holds_slot :: "nat \<Rightarrow> nat \<times> sphase \<Rightarrow> bool" where
  "holds_slot s r \<longleftrightarrow> fst r = s \<and> snd r \<in> {SLeased, SOpen}"

definition active_in :: "nat \<Rightarrow> nat \<times> sphase \<Rightarrow> bool" where
  "active_in s r \<longleftrightarrow> fst r = s \<and> snd r \<in> {SLeased, SOpen, SReturning}"

definition watched :: "nat \<times> sphase \<Rightarrow> bool" where
  "watched r \<longleftrightarrow> snd r \<noteq> SDone"

definition watched_in :: "nat \<Rightarrow> nat \<times> sphase \<Rightarrow> bool" where
  "watched_in s r \<longleftrightarrow> fst r = s \<and> snd r \<noteq> SDone"

lemmas holder_defs = holds_pre_def in_preauth_def holds_auth_def in_sessions_def holds_global_def holds_slot_def
  active_in_def watched_def watched_in_def has_session_def at_h_def at_s_def go_h_def go_s_def

definition pre_inv :: "world \<Rightarrow> bool" where
  "pre_inv w \<longleftrightarrow> ad_preAuthSlots (w_adm w) = cnt (\<lambda>h. holds_pre (snd h)) (w_handlers w) \<and> ad_preAuthSlots (w_adm w) \<le> ad_preAuthCap (w_adm w) \<and>
     (\<forall>t. t \<in> set (ad_preauth (w_adm w)) \<longleftrightarrow> t < length (w_handlers w) \<and> in_preauth (snd (w_handlers w ! t)))"

definition auth_inv :: "world \<Rightarrow> bool" where
  "auth_inv w \<longleftrightarrow> ad_authSlots (w_adm w) = cnt (\<lambda>h. holds_auth (snd h)) (w_handlers w) \<and> ad_authSlots (w_adm w) \<le> ad_authCap (w_adm w) \<and>
     (\<forall>t. t \<in> set (ad_sessions (w_adm w)) \<longleftrightarrow> t < length (w_handlers w) \<and> in_sessions (snd (w_handlers w ! t)))"

definition stream_inv :: "world \<Rightarrow> bool" where
  "stream_inv w \<longleftrightarrow> ad_globalSlots (w_adm w) = cnt holds_global (w_streams w) \<and> ad_globalSlots (w_adm w) \<le> ad_globalCap (w_adm w) \<and>
     ad_streamWG (w_adm w) = cnt watched (w_streams w) \<and>
     (\<forall>r < length (w_streams w). sess_of w r < length (w_handlers w) \<and> has_session (snd (w_handlers w ! sess_of w r)))"

text \<open>Of the session of handler \<open>t\<close>: its channel, counters and flags.\<close>

definition lease_ok :: "int \<Rightarrow> world \<Rightarrow> nat \<Rightarrow> bool" where
  "lease_ok configured w t \<longleftrightarrow> (let l = ad_leases (w_adm w) t; p = snd (w_handlers w ! t) in
     ls_slots l = cnt (holds_slot t) (w_streams w) \<and> ls_slots l \<le> ls_cap l \<and> int (ls_cap l) \<le> max 0 configured \<and>
     ls_active l = of_nat (cnt (active_in t) (w_streams w)) \<and> ls_watchers l = cnt (watched_in t) (w_streams w) \<and>
     (ls_closing l \<longleftrightarrow> p = HDropping \<or> p = HDone) \<and> (ls_released l \<longleftrightarrow> p = HDone) \<and>
     (p = HDone \<longrightarrow> ls_watchers l = 0) \<and> ls_kind l = kind_of w t)"

definition leases_inv :: "int \<Rightarrow> world \<Rightarrow> bool" where
  "leases_inv configured w \<longleftrightarrow>
     (\<forall>t < length (w_handlers w). has_session (snd (w_handlers w ! t)) \<longrightarrow> lease_ok configured w t)"

text \<open>The invariants look at part of the state only, and at one handler or stream moving at a time.\<close>

lemma at_hD: "at_h p t w \<Longrightarrow> t < length (w_handlers w)" "at_h p t w \<Longrightarrow> snd (w_handlers w ! t) = p"
  by (simp_all add: at_h_def)

lemma at_sD: "at_s p r w \<Longrightarrow> r < length (w_streams w)" "at_s p r w \<Longrightarrow> snd (w_streams w ! r) = p"
  by (simp_all add: at_s_def)

lemma cnt_move_h:
  "at_h p t w \<Longrightarrow> cnt (\<lambda>h. P (snd h)) ((w_handlers w)[t := (k, q)]) =
     cnt (\<lambda>h. P (snd h)) (w_handlers w) + (if P q then 1 else 0) - (if P p then 1 else 0)"
  by (simp add: at_h_def cnt_update)

lemma cnt_h_pos: "at_h p t w \<Longrightarrow> P p \<Longrightarrow> 0 < cnt (\<lambda>h. P (snd h)) (w_handlers w)"
  by (auto simp: at_h_def intro: cnt_pos)

lemma pre_inv_frame:
  "pre_inv w \<Longrightarrow> w_handlers w' = w_handlers w \<Longrightarrow> ad_preAuthSlots (w_adm w') = ad_preAuthSlots (w_adm w) \<Longrightarrow>
   ad_preAuthCap (w_adm w') = ad_preAuthCap (w_adm w) \<Longrightarrow> ad_preauth (w_adm w') = ad_preauth (w_adm w) \<Longrightarrow> pre_inv w'"
  by (simp add: pre_inv_def)

lemma pre_inv_move:
  assumes "at_h p t w" and "pre_inv w" and "ad_preAuthCap a = ad_preAuthCap (w_adm w)"
    and "holds_pre q \<Longrightarrow> holds_pre p"
    and "ad_preAuthSlots a = ad_preAuthSlots (w_adm w) - (if holds_pre p \<and> \<not> holds_pre q then 1 else 0)"
    and "set (ad_preauth a) = (if in_preauth q = in_preauth p then set (ad_preauth (w_adm w))
      else if in_preauth q then insert t (set (ad_preauth (w_adm w))) else set (ad_preauth (w_adm w)) - {t})"
  shows "pre_inv (go_h t q a w)"
  using assms(2-6) cnt_h_pos [OF assms(1), of holds_pre] at_hD [OF assms(1)]
  by (auto simp: pre_inv_def go_h_def cnt_move_h [OF assms(1)] nth_list_update split: if_splits)

lemma pre_inv_at: "at_h p t w \<Longrightarrow> pre_inv w \<Longrightarrow> t \<in> set (ad_preauth (w_adm w)) \<longleftrightarrow> in_preauth p"
  by (auto simp: pre_inv_def at_h_def)

lemma pre_inv_accept:
  "pre_inv w \<Longrightarrow> ad_preAuthSlots (w_adm w) < ad_preAuthCap (w_adm w) \<Longrightarrow>
   pre_inv (w\<lparr>w_adm := (w_adm w)\<lparr>ad_preAuthSlots := Suc (ad_preAuthSlots (w_adm w))\<rparr>, w_handlers := w_handlers w @ [(k, HSlot)]\<rparr>)"
  unfolding pre_inv_def by (simp add: holds_pre_def in_preauth_def nth_append less_Suc_eq)

lemmas phase_simps = holds_pre_def in_preauth_def holds_auth_def in_sessions_def

lemma pre_inv_step:
  assumes s: "adm_step c l w = Some w'" and inv: "pre_inv w"
  shows "pre_inv w'"
proof (cases l)
  case (Accept k)
  show ?thesis using s inv unfolding Accept
    by (auto simp: slot_defs elim: pre_inv_accept pre_inv_frame split: if_splits)
next
  case (Leave t)
  show ?thesis using s inv pre_inv_at [of HFailed t w] unfolding Leave
    by (auto simp: slot_defs phase_simps elim!: pre_inv_move split: if_splits)
next
  case (Promote t n)
  show ?thesis using s inv pre_inv_at [of HAuth t w] unfolding Promote
    by (auto simp: slot_defs phase_simps elim!: pre_inv_move split: if_splits)
qed (use s inv in \<open>auto simp: slot_defs Let_def go_s_def phase_simps elim!: pre_inv_move elim: pre_inv_frame split: if_splits option.splits\<close>)

section \<open>Authenticated sessions\<close>

lemma auth_inv_frame:
  "auth_inv w \<Longrightarrow> w_handlers w' = w_handlers w \<Longrightarrow> ad_authSlots (w_adm w') = ad_authSlots (w_adm w) \<Longrightarrow>
   ad_authCap (w_adm w') = ad_authCap (w_adm w) \<Longrightarrow> ad_sessions (w_adm w') = ad_sessions (w_adm w) \<Longrightarrow> auth_inv w'"
  by (simp add: auth_inv_def)

lemma auth_inv_move:
  assumes "at_h p t w" and "auth_inv w" and "ad_authCap a = ad_authCap (w_adm w)"
    and "ad_authSlots a = ad_authSlots (w_adm w) + (if holds_auth q then 1 else 0) - (if holds_auth p then 1 else 0)"
    and "ad_authSlots a \<le> ad_authCap (w_adm w)"
    and "set (ad_sessions a) = (if in_sessions q = in_sessions p then set (ad_sessions (w_adm w))
      else if in_sessions q then insert t (set (ad_sessions (w_adm w))) else set (ad_sessions (w_adm w)) - {t})"
  shows "auth_inv (go_h t q a w)"
  using assms(2-6) at_hD [OF assms(1)]
  by (auto simp: auth_inv_def go_h_def cnt_move_h [OF assms(1)] nth_list_update split: if_splits)

lemma auth_inv_at: "at_h p t w \<Longrightarrow> auth_inv w \<Longrightarrow> t \<in> set (ad_sessions (w_adm w)) \<longleftrightarrow> in_sessions p"
  by (auto simp: auth_inv_def at_h_def)

lemma auth_inv_le: "auth_inv w \<Longrightarrow> ad_authSlots (w_adm w) \<le> ad_authCap (w_adm w)"
  by (simp add: auth_inv_def)

lemma auth_inv_accept:
  "auth_inv w \<Longrightarrow> ad_authSlots a = ad_authSlots (w_adm w) \<Longrightarrow> ad_authCap a = ad_authCap (w_adm w) \<Longrightarrow>
   ad_sessions a = ad_sessions (w_adm w) \<Longrightarrow> auth_inv (w\<lparr>w_adm := a, w_handlers := w_handlers w @ [(k, HSlot)]\<rparr>)"
  unfolding auth_inv_def by (simp add: holds_auth_def in_sessions_def nth_append less_Suc_eq)

lemma auth_inv_step:
  assumes s: "adm_step c l w = Some w'" and inv: "auth_inv w" and rel: "\<And>t. at_h HDropping t w \<Longrightarrow> \<not> ls_released (ad_leases (w_adm w) t)"
  shows "auth_inv w'"
proof (cases l)
  case (Accept k)
  show ?thesis using s inv unfolding Accept
    by (auto simp: slot_defs elim: auth_inv_accept auth_inv_frame split: if_splits)
next
  case (DropBegin t)
  show ?thesis using s inv auth_inv_at [of HRun t w] auth_inv_le [OF inv] unfolding DropBegin
    by (auto simp: slot_defs Let_def phase_simps elim!: auth_inv_move split: if_splits)
next
  case (DropFinish t r)
  show ?thesis using s inv rel [of t] auth_inv_le [OF inv] unfolding DropFinish
    by (auto simp: slot_defs Let_def phase_simps elim!: auth_inv_move split: if_splits)
next
  case (Authenticate t)
  show ?thesis using s inv auth_inv_le [OF inv] unfolding Authenticate
    by (auto simp: slot_defs phase_simps elim!: auth_inv_move split: if_splits)
qed (use s inv auth_inv_le [OF inv] in \<open>auto simp: slot_defs Let_def go_s_def phase_simps elim!: auth_inv_move elim: auth_inv_frame
    split: if_splits option.splits\<close>)

section \<open>Streams\<close>

lemma cnt_move_s:
  "at_s p r w \<Longrightarrow> cnt P ((w_streams w)[r := (sess_of w r, q)]) =
     cnt P (w_streams w) + (if P (sess_of w r, q) then 1 else 0) - (if P (sess_of w r, p) then 1 else 0)"
  using cnt_update [of r "w_streams w" P "(sess_of w r, q)"] by (cases "w_streams w ! r") (auto simp: at_s_def)

lemma stream_inv_frame:
  assumes "stream_inv w" and "w_streams w' = w_streams w" and "ad_globalSlots (w_adm w') = ad_globalSlots (w_adm w)"
    and "ad_globalCap (w_adm w') = ad_globalCap (w_adm w)" and "ad_streamWG (w_adm w') = ad_streamWG (w_adm w)" and "w_handlers w' = w_handlers w"
  shows "stream_inv w'"
  using assms by (auto simp: stream_inv_def)

lemma stream_inv_move_h:
  assumes "at_h p t w" and "stream_inv w" and "has_session p \<Longrightarrow> has_session q" and "ad_globalSlots a = ad_globalSlots (w_adm w)"
    and "ad_globalCap a = ad_globalCap (w_adm w)" and "ad_streamWG a = ad_streamWG (w_adm w)"
  shows "stream_inv (go_h t q a w)"
  using assms(2-6) at_hD [OF assms(1)] by (auto simp: stream_inv_def go_h_def nth_list_update)

lemma stream_inv_move_s:
  assumes "at_s p r w" and "stream_inv w" and "ad_globalCap a = ad_globalCap (w_adm w)" and "ad_globalSlots a \<le> ad_globalCap a"
    and "ad_globalSlots a = ad_globalSlots (w_adm w) + (if holds_global (0, q) then 1 else 0) - (if holds_global (0, p) then 1 else 0)"
    and "ad_streamWG a = ad_streamWG (w_adm w) - (if q = SDone then 1 else 0)" and "p \<noteq> SDone"
  shows "stream_inv (go_s r q a w)"
  using assms(2-7) at_sD [OF assms(1)]
  by (auto simp: stream_inv_def go_s_def cnt_move_s [OF assms(1)] nth_list_update holds_global_def watched_def)

lemma stream_inv_le: "stream_inv w \<Longrightarrow> ad_globalSlots (w_adm w) \<le> ad_globalCap (w_adm w)"
  by (simp add: stream_inv_def)

lemma stream_inv_step:
  assumes s: "adm_step c l w = Some w'" and inv: "stream_inv w"
  shows "stream_inv w'"
proof (cases l)
  case (Accept k)
  show ?thesis using s inv unfolding Accept
    by (auto simp: slot_defs stream_inv_def nth_append split: if_splits)
next
  case (Request t)
  show ?thesis using s inv unfolding Request
    by (auto simp: slot_defs stream_inv_def nth_append less_Suc_eq holds_global_def watched_def split: if_splits)
qed (use s inv stream_inv_le [OF inv] in \<open>auto simp: slot_defs Let_def has_session_def holds_global_def
    elim!: stream_inv_move_h stream_inv_move_s elim: stream_inv_frame split: if_splits option.splits\<close>)

section \<open>Leases of a session\<close>

lemmas per_session_defs = holds_slot_def active_in_def watched_in_def

text \<open>A stream or handler that moves leaves the other sessions alone.\<close>

lemma lease_ok_other_s:
  assumes "at_s p r w" and "t \<noteq> sess_of w r" and "ad_leases a t = ad_leases (w_adm w) t" and "lease_ok c w t"
  shows "lease_ok c (go_s r q a w) t"
  using assms(2-4) by (auto simp: lease_ok_def Let_def go_s_def cnt_move_s [OF assms(1)] per_session_defs)

lemma leases_inv_move_s:
  assumes at: "at_s p r w" and inv: "leases_inv c w" and str: "stream_inv w"
    and others: "\<And>t. t \<noteq> sess_of w r \<Longrightarrow> ad_leases a t = ad_leases (w_adm w) t"
    and mine: "lease_ok c w (sess_of w r) \<Longrightarrow> lease_ok c (go_s r q a w) (sess_of w r)"
  shows "leases_inv c (go_s r q a w)"
  unfolding leases_inv_def
proof (intro allI impI)
  fix t assume "t < length (w_handlers (go_s r q a w))" and "has_session (snd (w_handlers (go_s r q a w) ! t))"
  then have ok: "lease_ok c w t" using inv by (simp add: leases_inv_def go_s_def)
  show "lease_ok c (go_s r q a w) t"
    using ok mine others lease_ok_other_s [OF at _ _ ok, of a q] by (cases "t = sess_of w r") auto
qed

lemma leases_inv_move_h:
  assumes "at_h p t w" and "leases_inv c w" and "\<And>u. u \<noteq> t \<Longrightarrow> ad_leases a u = ad_leases (w_adm w) u"
    and "has_session q \<Longrightarrow> (has_session p \<Longrightarrow> lease_ok c w t) \<Longrightarrow> lease_ok c (go_h t q a w) t"
  shows "leases_inv c (go_h t q a w)"
  unfolding leases_inv_def
proof (intro allI impI)
  fix u assume u: "u < length (w_handlers (go_h t q a w))" "has_session (snd (w_handlers (go_h t q a w) ! u))"
  show "lease_ok c (go_h t q a w) u"
  proof (cases "u = t")
    case True
    then show ?thesis using assms(2,4) u at_hD [OF assms(1)] by (auto simp: leases_inv_def go_h_def)
  next
    case False
    then have "lease_ok c w u" using u assms(2) by (auto simp: leases_inv_def go_h_def)
    then show ?thesis using False assms(3) [OF False] by (auto simp: lease_ok_def Let_def go_h_def)
  qed
qed

lemma leases_inv_frame:
  "leases_inv c w \<Longrightarrow> w_handlers w' = w_handlers w \<Longrightarrow> w_streams w' = w_streams w \<Longrightarrow> ad_leases (w_adm w') = ad_leases (w_adm w) \<Longrightarrow>
   leases_inv c w'"
  by (simp add: leases_inv_def lease_ok_def)

lemma leases_inv_at: "at_h p t w \<Longrightarrow> leases_inv c w \<Longrightarrow> has_session p \<Longrightarrow> lease_ok c w t"
  by (auto simp: leases_inv_def at_h_def)

lemma capacity_le: "int (nat (effectiveSessionStreamCapacity c n)) \<le> max 0 c"
  by (simp add: effectiveSessionStreamCapacity_def Let_def)

text \<open>A transport that is not a session yet has no streams.\<close>

lemma no_streams_before:
  assumes "at_h p t w" and "\<not> has_session p" and "stream_inv w"
  shows "cnt (holds_slot t) (w_streams w) = 0" and "cnt (active_in t) (w_streams w) = 0" and "cnt (watched_in t) (w_streams w) = 0"
proof -
  have "fst r \<noteq> t" if "r \<in> set (w_streams w)" for r
    using that assms by (auto simp: in_set_conv_nth stream_inv_def at_h_def)
  then show "cnt (holds_slot t) (w_streams w) = 0" "cnt (active_in t) (w_streams w) = 0" "cnt (watched_in t) (w_streams w) = 0"
    by (auto simp: cnt_zero per_session_defs)
qed

lemma cnt_s_pos: "at_s p r w \<Longrightarrow> P (sess_of w r, p) \<Longrightarrow> 0 < cnt P (w_streams w)"
  using cnt_pos [of r "w_streams w" P] by (cases "w_streams w ! r") (auto simp: at_s_def)

text \<open>What a stream's step does to the lease of its own session.\<close>

lemma lease_ok_move_s:
  assumes at: "at_s p r w" and ok: "lease_ok c w s" and s: "s = sess_of w r"
    and l: "l = ad_leases (w_adm w) s" and l': "l' = ad_leases a s"
    and same: "ls_cap l' = ls_cap l" "ls_closing l' = ls_closing l" "ls_released l' = ls_released l" "ls_kind l' = ls_kind l"
    and slots: "ls_slots l' = ls_slots l + (if holds_slot s (s, q) then 1 else 0) - (if holds_slot s (s, p) then 1 else 0)" "ls_slots l' \<le> ls_cap l'"
    and active: "ls_active l' = ls_active l + (if active_in s (s, q) then 1 else 0) - (if active_in s (s, p) then 1 else 0)"
    and watchers: "ls_watchers l' = ls_watchers l - (if q = SDone then 1 else 0)" "p \<noteq> SDone"
  shows "lease_ok c (go_s r q a w) s"
proof -
  note mv = cnt_move_s [OF at, folded s]
  have old: "ls_active l = of_nat (cnt (active_in s) (w_streams w))" "ls_watchers l = cnt (watched_in s) (w_streams w)"
    "ls_slots l = cnt (holds_slot s) (w_streams w)"
    using ok by (simp_all add: lease_ok_def Let_def l)
  have pos: "active_in s (s, p) \<Longrightarrow> 0 < cnt (active_in s) (w_streams w)" using cnt_s_pos [OF at, of "active_in s"] s by simp
  have "ls_active l' = of_nat (cnt (active_in s) ((w_streams w)[r := (s, q)]))"
    using active pos by (auto simp: mv old of_nat_diff)
  moreover have "ls_watchers l' = cnt (watched_in s) ((w_streams w)[r := (s, q)])"
    using watchers by (simp add: mv old watched_in_def)
  moreover have "ls_slots l' = cnt (holds_slot s) ((w_streams w)[r := (s, q)])"
    using slots(1) by (simp add: mv old)
  ultimately show ?thesis using ok same slots(2) watchers
    unfolding lease_ok_def Let_def go_s_def l l' s [symmetric] by (auto simp: s [symmetric])
qed

lemma leases_inv_stream:
  fixes w a r
  defines "l \<equiv> ad_leases (w_adm w) (sess_of w r)" and "l' \<equiv> ad_leases a (sess_of w r)"
  assumes at: "at_s p r w" and inv: "leases_inv c w" and str: "stream_inv w" and p: "p \<noteq> SDone"
    and others: "\<And>t. t \<noteq> sess_of w r \<Longrightarrow> ad_leases a t = ad_leases (w_adm w) t"
    and same: "ls_cap l' = ls_cap l" "ls_closing l' = ls_closing l" "ls_released l' = ls_released l" "ls_kind l' = ls_kind l"
    and cap: "ls_slots l \<le> ls_cap l \<Longrightarrow> ls_slots l' \<le> ls_cap l"
    and change: "ls_slots l' = ls_slots l + (if q \<in> {SLeased, SOpen} then 1 else 0) - (if p \<in> {SLeased, SOpen} then 1 else 0)"
      "ls_active l' = ls_active l + (if q \<in> {SLeased, SOpen, SReturning} then 1 else 0) - (if p \<in> {SLeased, SOpen, SReturning} then 1 else 0)"
      "ls_watchers l' = ls_watchers l - (if q = SDone then 1 else 0)"
  shows "leases_inv c (go_s r q a w)"
proof (rule leases_inv_move_s [OF at inv str others])
  assume ok: "lease_ok c w (sess_of w r)"
  then have "ls_slots l \<le> ls_cap l" by (simp add: lease_ok_def Let_def l_def)
  then show "lease_ok c (go_s r q a w) (sess_of w r)"
    using lease_ok_move_s [OF at ok refl l_def [THEN meta_eq_to_obj_eq] l'_def [THEN meta_eq_to_obj_eq] same] cap p change same
    by (simp add: per_session_defs)
qed

lemma leases_inv_request:
  assumes inv: "leases_inv c w" and t: "t < length (w_handlers w)" "has_session (snd (w_handlers w ! t))"
    and ok: "reserveStreamWatcher t (w_adm w) = (True, a)"
  shows "leases_inv c (w\<lparr>w_adm := a, w_streams := w_streams w @ [(t, SReserved)]\<rparr>)"
  unfolding leases_inv_def
proof (intro allI impI)
  let ?w = "w\<lparr>w_adm := a, w_streams := w_streams w @ [(t, SReserved)]\<rparr>"
  fix u assume "u < length (w_handlers ?w)" and "has_session (snd (w_handlers ?w ! u))"
  then have "lease_ok c w u" using inv by (simp add: leases_inv_def)
  then show "lease_ok c ?w u" using ok
    by (auto simp: lease_ok_def Let_def reserveStreamWatcher_def per_session_defs split: if_splits)
qed

lemma lease_ok_move_h:
  assumes "at_h p t w" and "lease_ok c w t" and "ls_slots (ad_leases a t) = ls_slots (ad_leases (w_adm w) t)"
    and "ls_cap (ad_leases a t) = ls_cap (ad_leases (w_adm w) t)" and "ls_active (ad_leases a t) = ls_active (ad_leases (w_adm w) t)"
    and "ls_watchers (ad_leases a t) = ls_watchers (ad_leases (w_adm w) t)" and "ls_kind (ad_leases a t) = ls_kind (ad_leases (w_adm w) t)"
    and "ls_closing (ad_leases a t) \<longleftrightarrow> q = HDropping \<or> q = HDone" and "ls_released (ad_leases a t) \<longleftrightarrow> q = HDone"
    and "q = HDone \<Longrightarrow> ls_watchers (ad_leases (w_adm w) t) = 0"
  shows "lease_ok c (go_h t q a w) t"
  using assms by (auto simp: lease_ok_def Let_def go_h_def at_h_def)

lemma lease_ok_flags:
  "at_h p t w \<Longrightarrow> lease_ok c w t \<Longrightarrow>
   (ls_closing (ad_leases (w_adm w) t) \<longleftrightarrow> p = HDropping \<or> p = HDone) \<and> (ls_released (ad_leases (w_adm w) t) \<longleftrightarrow> p = HDone)"
  by (simp add: lease_ok_def Let_def at_h_def)

lemma leases_inv_step:
  assumes s: "adm_step c l w = Some w'" and inv: "leases_inv c w" and str: "stream_inv w"
  shows "leases_inv c w'"
proof (cases l)
  case (Accept k)
  show ?thesis using s inv unfolding Accept
    by (auto simp: slot_defs leases_inv_def lease_ok_def Let_def nth_append less_Suc_eq has_session_def split: if_splits)
next
  case (Request t)
  show ?thesis using s inv leases_inv_request [OF inv, of t] unfolding Request by (auto split: if_splits prod.splits)
next
  case (Promote t n)
  have "at_h HAuth t w \<Longrightarrow> lease_ok c (go_h t HPromoted a w) t"
    if "ad_leases a t = newSession (kind_of w t) (effectiveSessionStreamCapacity c n)" for a
    using that no_streams_before [of HAuth t w] str capacity_le [of c n]
    by (auto simp: lease_ok_def Let_def go_h_def newSession_def has_session_def at_h_def)
  then show ?thesis using s inv unfolding Promote
    by (auto simp: promote_locked_def auth_return_def has_session_def elim!: leases_inv_move_h split: if_splits)
next
  case (PromoteReturn t)
  then have at: "at_h HPromoted t w" using s by (simp split: if_splits)
  have ok: "lease_ok c w t" using leases_inv_at [OF at inv] by (simp add: has_session_def)
  let ?a = "session_opened (kind_of w t) (promote_return (kind_of w t) (w_adm w))"
  have w': "w' = go_h t HRun ?a w" using s at unfolding PromoteReturn by simp
  have "lease_ok c (go_h t HRun ?a w) t" using lease_ok_flags [OF at ok] by (intro lease_ok_move_h [OF at ok]) (simp_all add: slot_defs Let_def)
  then show ?thesis unfolding w' by (intro leases_inv_move_h [OF at inv]) (simp_all add: slot_defs Let_def)
next
  case (DropBegin t)
  then have at: "at_h HRun t w" using s by (simp split: if_splits)
  have ok: "lease_ok c w t" using leases_inv_at [OF at inv] by (simp add: has_session_def)
  let ?a = "drop_begin t (w_adm w)"
  have w': "w' = go_h t HDropping ?a w" using s at unfolding DropBegin by simp
  have "lease_ok c (go_h t HDropping ?a w) t" using lease_ok_flags [OF at ok] by (intro lease_ok_move_h [OF at ok]) (simp_all add: slot_defs Let_def)
  then show ?thesis unfolding w' by (intro leases_inv_move_h [OF at inv]) (simp_all add: slot_defs Let_def)
next
  case (DropFinish t r)
  then have at: "at_h HDropping t w" and wt: "ls_watchers (ad_leases (w_adm w) t) = 0" using s by (simp_all split: if_splits)
  have ok: "lease_ok c w t" using leases_inv_at [OF at inv] by (simp add: has_session_def)
  let ?a = "drop_finish t r (w_adm w)"
  have w': "w' = go_h t HDone ?a w" using s at wt unfolding DropFinish by simp
  have "lease_ok c (go_h t HDone ?a w) t" using lease_ok_flags [OF at ok] wt by (intro lease_ok_move_h [OF at ok]) (simp_all add: slot_defs Let_def)
  then show ?thesis unfolding w' by (intro leases_inv_move_h [OF at inv]) (simp_all add: slot_defs Let_def)
next
  case (LeaseSession r)
  show ?thesis using s inv str unfolding LeaseSession
    by (auto simp: lease_session_def Let_def elim!: leases_inv_stream split: if_splits)
qed (use s inv str in \<open>auto simp: slot_defs Let_def has_session_def
    elim!: leases_inv_move_h leases_inv_stream elim: leases_inv_frame split: if_splits option.splits\<close>)

section \<open>Runs\<close>

definition adm_inv :: "int \<Rightarrow> world \<Rightarrow> bool" where
  "adm_inv c w \<longleftrightarrow> pre_inv w \<and> auth_inv w \<and> stream_inv w \<and> leases_inv c w"

lemma adm_inv_init: "adm_inv c (init_world pre auth streams)"
  by (simp add: adm_inv_def pre_inv_def auth_inv_def stream_inv_def leases_inv_def init_world_def newAdmission_def)

lemma adm_inv_step: "adm_step c l w = Some w' \<Longrightarrow> adm_inv c w \<Longrightarrow> adm_inv c w'"
proof -
  assume s: "adm_step c l w = Some w'" and inv: "adm_inv c w"
  have "\<not> ls_released (ad_leases (w_adm w) t)" if "at_h HDropping t w" for t
    using leases_inv_at [OF that, of c] lease_ok_flags [OF that, of c] inv by (auto simp: adm_inv_def has_session_def)
  then show ?thesis
    using inv pre_inv_step [OF s] auth_inv_step [OF s] stream_inv_step [OF s] leases_inv_step [OF s] by (auto simp: adm_inv_def)
qed

lemma adm_inv_run: "adm_run c ls w = Some w' \<Longrightarrow> adm_inv c w \<Longrightarrow> adm_inv c w'"
  by (induction ls arbitrary: w) (auto intro: adm_inv_step split: option.splits)

abbreviation caps :: "world \<Rightarrow> nat \<times> nat \<times> nat" where
  "caps w \<equiv> (ad_preAuthCap (w_adm w), ad_authCap (w_adm w), ad_globalCap (w_adm w))"

lemma caps_step: "adm_step c l w = Some w' \<Longrightarrow> caps w' = caps w"
  by (cases l) (auto simp: slot_defs Let_def go_h_def go_s_def split: if_splits option.splits)

lemma caps_run: "adm_run c ls w = Some w' \<Longrightarrow> caps w' = caps w"
proof (induction ls arbitrary: w)
  case (Cons l ls)
  then show ?case using caps_step [of c l w] by (auto split: option.splits)
qed simp

section \<open>Progress\<close>

text \<open>The steps of goroutines that exist already; the others bring in new work or start the shutdown.\<close>

fun internal :: "adm_label \<Rightarrow> bool" where
  "internal (Accept _) = False"
| "internal (Request _) = False"
| "internal ShutdownBegin = False"
| "internal _ = True"

fun h_rank :: "hphase \<Rightarrow> nat" where
  "h_rank HSlot = 9" | "h_rank HPre = 8" | "h_rank HAuth = 7" | "h_rank HPromoted = 6" | "h_rank HRun = 5"
| "h_rank HDropping = 4" | "h_rank HFailed = 3" | "h_rank HReleasing = 2" | "h_rank HDone = 0" | "h_rank HGone = 0"

fun s_rank :: "sphase \<Rightarrow> nat" where
  "s_rank SReserved = 6" | "s_rank SGlobal = 5" | "s_rank SLeased = 4" | "s_rank SOpen = 3" | "s_rank SReturning = 2"
| "s_rank SUnwatch = 1" | "s_rank SDone = 0"

definition work_left :: "world \<Rightarrow> nat" where
  "work_left w = sum_list (map (\<lambda>h. h_rank (snd h)) (w_handlers w)) + sum_list (map (\<lambda>r. s_rank (snd r)) (w_streams w))"

definition quiescent :: "world \<Rightarrow> bool" where
  "quiescent w \<longleftrightarrow> (\<forall>h \<in> set (w_handlers w). snd h = HDone \<or> snd h = HGone) \<and> (\<forall>r \<in> set (w_streams w). snd r = SDone)"

lemma sum_list_move:
  fixes f :: "'a \<Rightarrow> nat"
  shows "i < length xs \<Longrightarrow> f y < f (xs ! i) \<Longrightarrow> sum_list (map f (xs[i := y])) < sum_list (map f xs)"
proof (induction xs arbitrary: i)
  case (Cons x xs)
  then show ?case by (cases i) auto
qed simp

lemma work_move_h: "at_h p t w \<Longrightarrow> h_rank q < h_rank p \<Longrightarrow> work_left (go_h t q a w) < work_left w"
  unfolding work_left_def go_h_def at_h_def using sum_list_move [of t "w_handlers w" "\<lambda>h. h_rank (snd h)"] by simp

lemma work_move_s: "at_s p r w \<Longrightarrow> s_rank q < s_rank p \<Longrightarrow> work_left (go_s r q a w) < work_left w"
  unfolding work_left_def go_s_def at_s_def using sum_list_move [of r "w_streams w" "\<lambda>r. s_rank (snd r)"] by simp

lemma internal_decreases: "adm_step c l w = Some w' \<Longrightarrow> internal l \<Longrightarrow> work_left w' < work_left w"
  by (cases l) (auto elim!: work_move_h work_move_s split: if_splits prod.splits)

lemma stream_enabled: "at_s p r w \<Longrightarrow> p \<noteq> SDone \<Longrightarrow> \<exists>l. internal l \<and> adm_step c l w \<noteq> None"
  by (cases p) (force intro: exI [of _ "LeaseGlobal r"] exI [of _ "LeaseSession r"] exI [of _ "Opened r"] exI [of _ "GiveBack r None"]
      exI [of _ "GiveBackGlobal r"] exI [of _ "Unwatch r"] split: prod.splits)+

lemma handler_enabled:
  "at_h p t w \<Longrightarrow> p \<noteq> HDone \<Longrightarrow> p \<noteq> HGone \<Longrightarrow> (p = HDropping \<Longrightarrow> ls_watchers (ad_leases (w_adm w) t) = 0) \<Longrightarrow>
   \<exists>l. internal l \<and> adm_step c l w \<noteq> None"
  by (cases p) (force intro: exI [of _ "Enter t"] exI [of _ "HandshakeFails t None"] exI [of _ "HelloFails t"] exI [of _ "PromoteReturn t"]
      exI [of _ "DropBegin t"] exI [of _ "DropFinish t []"] exI [of _ "Leave t"] exI [of _ "ReturnSlot t"] split: prod.splits)+

lemma not_stuck:
  assumes "adm_inv c w" and "\<not> quiescent w"
  shows "\<exists>l. internal l \<and> adm_step c l w \<noteq> None"
proof (cases "\<exists>r < length (w_streams w). snd (w_streams w ! r) \<noteq> SDone")
  case True
  then show ?thesis using stream_enabled by (auto simp: at_s_def)
next
  case False
  then have ended: "snd r = SDone" if "r \<in> set (w_streams w)" for r using that by (auto simp: in_set_conv_nth)
  then have idle: "cnt (watched_in t) (w_streams w) = 0" for t by (simp add: cnt_zero watched_in_def)
  obtain t where t: "at_h (snd (w_handlers w ! t)) t w" "snd (w_handlers w ! t) \<noteq> HDone" "snd (w_handlers w ! t) \<noteq> HGone"
    using assms(2) ended by (auto simp: quiescent_def at_h_def in_set_conv_nth [of _ "w_handlers w"])
  have "snd (w_handlers w ! t) = HDropping \<Longrightarrow> ls_watchers (ad_leases (w_adm w) t) = 0"
    using leases_inv_at [OF t(1), of c] assms(1) idle by (auto simp: adm_inv_def lease_ok_def Let_def has_session_def)
  then show ?thesis using handler_enabled [OF t] by blast
qed

lemma quiescent_empty:
  assumes "adm_inv c w" and "quiescent w"
  shows "ad_preAuthSlots (w_adm w) = 0 \<and> ad_authSlots (w_adm w) = 0 \<and> ad_globalSlots (w_adm w) = 0 \<and> ad_streamWG (w_adm w) = 0 \<and>
    ad_preauth (w_adm w) = [] \<and> ad_sessions (w_adm w) = []"
proof -
  have h: "\<not> holds_pre (snd x)" "\<not> holds_auth (snd x)" "\<not> in_preauth (snd x)" "\<not> in_sessions (snd x)" if "x \<in> set (w_handlers w)" for x
    using assms(2) that by (auto simp: quiescent_def phase_simps)
  have s: "\<not> holds_global x" "\<not> watched x" if "x \<in> set (w_streams w)" for x
    using assms(2) that by (auto simp: quiescent_def holds_global_def watched_def)
  have "t \<notin> set (ad_preauth (w_adm w))" "t \<notin> set (ad_sessions (w_adm w))" for t
    using assms(1) h(3,4) [OF nth_mem, of t] by (simp_all add: adm_inv_def pre_inv_def auth_inv_def)
  then have "ad_preauth (w_adm w) = []" "ad_sessions (w_adm w) = []" by (simp_all flip: set_empty add: set_eq_iff)
  moreover have "cnt (\<lambda>h. holds_pre (snd h)) (w_handlers w) = 0" "cnt (\<lambda>h. holds_auth (snd h)) (w_handlers w) = 0"
    "cnt holds_global (w_streams w) = 0" "cnt watched (w_streams w) = 0"
    using h(1,2) s unfolding cnt_zero by blast+
  ultimately show ?thesis using assms(1) unfolding adm_inv_def pre_inv_def auth_inv_def stream_inv_def by simp
qed

lemma run_append: "adm_run c (xs @ ys) w = (case adm_run c xs w of None \<Rightarrow> None | Some w' \<Rightarrow> adm_run c ys w')"
  by (induction xs arbitrary: w) (auto split: option.splits)

lemma internal_run_bound: "adm_run c ks w = Some w' \<Longrightarrow> list_all internal ks \<Longrightarrow> length ks + work_left w' \<le> work_left w"
proof (induction ks arbitrary: w)
  case (Cons l ks)
  obtain w1 where w1: "adm_step c l w = Some w1" "adm_run c ks w1 = Some w'" using Cons.prems(1) by (auto split: option.splits)
  then show ?case using Cons.IH [OF w1(2)] internal_decreases [OF w1(1)] Cons.prems(2) by simp
qed simp

lemma can_finish: "adm_inv c w \<Longrightarrow> \<exists>ks w'. list_all internal ks \<and> adm_run c ks w = Some w' \<and> quiescent w'"
proof (induction "work_left w" arbitrary: w rule: less_induct)
  case less
  show ?case
  proof (cases "quiescent w")
    case True
    then have "list_all internal [] \<and> adm_run c [] w = Some w \<and> quiescent w" by simp
    then show ?thesis by blast
  next
    case False
    then obtain l w1 where l: "internal l" "adm_step c l w = Some w1" using not_stuck [OF less.prems] by blast
    then obtain ks w' where "list_all internal ks" "adm_run c ks w1 = Some w'" "quiescent w'"
      using less.hyps internal_decreases [OF l(2,1)] adm_inv_step [OF l(2) less.prems] by blast
    then have "list_all internal (l # ks) \<and> adm_run c (l # ks) w = Some w' \<and> quiescent w'" using l by simp
    then show ?thesis by blast
  qed
qed

lemma shutdown_step:
  "adm_step c l w = Some w' \<Longrightarrow> ad_shuttingDown (w_adm w) \<Longrightarrow>
   ad_shuttingDown (w_adm w') \<and> set (ad_preauth (w_adm w')) \<subseteq> set (ad_preauth (w_adm w)) \<and>
   set (ad_sessions (w_adm w')) \<subseteq> set (ad_sessions (w_adm w))"
  by (cases l) (auto simp: slot_defs Let_def go_h_def go_s_def split: if_splits option.splits)

lemma shutdown_run:
  "adm_run c ls w = Some w' \<Longrightarrow> ad_shuttingDown (w_adm w) \<Longrightarrow>
   ad_shuttingDown (w_adm w') \<and> set (ad_preauth (w_adm w')) \<subseteq> set (ad_preauth (w_adm w)) \<and>
   set (ad_sessions (w_adm w')) \<subseteq> set (ad_sessions (w_adm w))"
proof (induction ls arbitrary: w)
  case (Cons l ls)
  obtain w1 where w1: "adm_step c l w = Some w1" "adm_run c ls w1 = Some w'" using Cons.prems(1) by (auto split: option.splits)
  then show ?case using Cons.IH [OF w1(2)] shutdown_step [OF w1(1) Cons.prems(2)] by blast
qed simp

section \<open>Properties\<close>

text \<open>
  C14. Admission never exceeds its capacities and never loses count, however the goroutines
  interleave: in every reachable state the pre-authentication, authenticated and global stream
  channels hold exactly one token for each goroutine entitled to one and stay within their
  capacities; each session has at most \<open>MaxStreamsPerSession\<close> streams; and every goroutine
  about to receive from a channel finds a token in it, so no release ever blocks.
\<close>

theorem admission_accounts:
  assumes "adm_run configured ls (init_world pre auth streams) = Some w"
  shows "ad_preAuthSlots (w_adm w) = cnt (\<lambda>h. holds_pre (snd h)) (w_handlers w) \<and> ad_preAuthSlots (w_adm w) \<le> safeChannelCapacity pre \<and>
    ad_authSlots (w_adm w) = cnt (\<lambda>h. holds_auth (snd h)) (w_handlers w) \<and> ad_authSlots (w_adm w) \<le> safeChannelCapacity auth \<and>
    ad_globalSlots (w_adm w) = cnt holds_global (w_streams w) \<and> ad_globalSlots (w_adm w) \<le> safeChannelCapacity streams \<and>
    (\<forall>t. t < length (w_handlers w) \<and> has_session (snd (w_handlers w ! t)) \<longrightarrow> int (cnt (holds_slot t) (w_streams w)) \<le> max 0 configured) \<and>
    (\<forall>t. at_h HReleasing t w \<or> at_h HPromoted t w \<longrightarrow> 0 < ad_preAuthSlots (w_adm w)) \<and>
    (\<forall>t. at_h HAuth t w \<or> at_h HDropping t w \<longrightarrow> 0 < ad_authSlots (w_adm w)) \<and>
    (\<forall>r. at_s SGlobal r w \<or> at_s SReturning r w \<longrightarrow> 0 < ad_globalSlots (w_adm w)) \<and>
    (\<forall>r. at_s SLeased r w \<or> at_s SOpen r w \<longrightarrow> 0 < ls_slots (ad_leases (w_adm w) (sess_of w r)))"
proof -
  have inv: "adm_inv configured w" using adm_inv_run [OF assms adm_inv_init] .
  have cp: "caps w = (safeChannelCapacity pre, safeChannelCapacity auth, safeChannelCapacity streams)"
    using caps_run [OF assms] by (simp add: init_world_def newAdmission_def)
  have per: "lease_ok configured w t" if "t < length (w_handlers w)" "has_session (snd (w_handlers w ! t))" for t
    using inv that by (simp add: adm_inv_def leases_inv_def)
  have slots: "0 < ls_slots (ad_leases (w_adm w) (sess_of w r))" if r: "at_s SLeased r w \<or> at_s SOpen r w" for r
  proof -
    have "lease_ok configured w (sess_of w r)" using r inv per by (auto simp: adm_inv_def stream_inv_def at_s_def)
    moreover have "0 < cnt (holds_slot (sess_of w r)) (w_streams w)"
      using r cnt_s_pos [of _ r w "holds_slot (sess_of w r)"] by (auto simp: holds_slot_def)
    ultimately show ?thesis by (simp add: lease_ok_def Let_def)
  qed
  have "0 < cnt holds_global (w_streams w)" if "at_s SGlobal r w \<or> at_s SReturning r w" for r
    using that cnt_s_pos [of _ r w holds_global] by (auto simp: holds_global_def)
  moreover have "0 < cnt (\<lambda>h. holds_auth (snd h)) (w_handlers w)" if "at_h HAuth t w \<or> at_h HDropping t w" for t
    using that cnt_h_pos [of _ t w holds_auth] by (auto simp: holds_auth_def)
  moreover have "0 < cnt (\<lambda>h. holds_pre (snd h)) (w_handlers w)" if "at_h HReleasing t w \<or> at_h HPromoted t w" for t
    using that cnt_h_pos [of _ t w holds_pre] by (auto simp: holds_pre_def)
  moreover have "int (cnt (holds_slot t) (w_streams w)) \<le> max 0 configured"
    if "t < length (w_handlers w) \<and> has_session (snd (w_handlers w ! t))" for t
    using per that by (fastforce simp: lease_ok_def Let_def)
  ultimately show ?thesis using inv cp slots unfolding adm_inv_def pre_inv_def auth_inv_def stream_inv_def by simp
qed

definition ex_labels :: "adm_label list" where
  "ex_labels = [Accept KindQUIC, Enter 0, Accept KindTCP, Authenticate 0, Promote 0 0, PromoteReturn 0, Accept KindTCP, Enter 1,
     HandshakeFails 1 (Some ''protocol''), Request 0, LeaseGlobal 0, LeaseSession 0, Opened 0, Request 0, LeaseGlobal 1, ShutdownBegin, DropBegin 0, Request 0]"

theorem admission_accounts_witness:
  "\<exists>w. adm_run 8 ex_labels (init_world 2 1 1) = Some w \<and> ad_authSlots (w_adm w) = 1 \<and> cnt holds_global (w_streams w) \<le> 1"
proof -
  have "adm_run 8 ex_labels (init_world 2 1 1) \<noteq> None \<and> map_option (\<lambda>w. ad_authSlots (w_adm w)) (adm_run 8 ex_labels (init_world 2 1 1)) = Some 1"
    by code_simp
  then obtain w where w: "adm_run 8 ex_labels (init_world 2 1 1) = Some w" "ad_authSlots (w_adm w) = 1" by auto
  show ?thesis using admission_accounts [OF w(1)] w by (auto simp: safeChannelCapacity_def)
qed

text \<open>
  C15. Draining terminates and leaks nothing. From any reachable state, once no new transport or
  request arrives, every schedule of the goroutines makes at most \<open>work_left\<close> steps, some
  schedule ends with every goroutine finished, and a schedule that can go no further has done
  so: there is no deadlock between \<open>dropSession\<close>'s waits and the stream watchers. In that state
  every slot has been returned and no transport or session is registered.
\<close>

theorem admission_drains:
  assumes "adm_run c ls (init_world pre auth streams) = Some w"
  shows "(\<forall>ks w'. list_all internal ks \<longrightarrow> adm_run c ks w = Some w' \<longrightarrow> length ks \<le> work_left w \<and>
      ((\<forall>l. internal l \<longrightarrow> adm_step c l w' = None) \<longrightarrow> quiescent w' \<and>
        ad_preAuthSlots (w_adm w') = 0 \<and> ad_authSlots (w_adm w') = 0 \<and> ad_globalSlots (w_adm w') = 0 \<and> ad_streamWG (w_adm w') = 0 \<and>
        ad_preauth (w_adm w') = [] \<and> ad_sessions (w_adm w') = [])) \<and>
    (\<exists>ks w'. list_all internal ks \<and> adm_run c ks w = Some w' \<and> quiescent w')"
proof -
  have inv: "adm_inv c w" using adm_inv_run [OF assms adm_inv_init] .
  have "length ks \<le> work_left w" if "list_all internal ks" "adm_run c ks w = Some w'" for ks w'
    using internal_run_bound [OF that(2,1)] by simp
  moreover have "quiescent w'" if "adm_run c ks w = Some w'" "\<forall>l. internal l \<longrightarrow> adm_step c l w' = None" for ks w'
    using not_stuck [OF adm_inv_run [OF that(1) inv]] that(2) by metis
  ultimately show ?thesis using can_finish [OF inv] quiescent_empty [OF adm_inv_run [OF _ inv]] by blast
qed

theorem admission_drains_witness:
  "\<exists>w ks w'. adm_run 8 ex_labels (init_world 2 1 1) = Some w \<and> \<not> quiescent w \<and> adm_run 8 ks w = Some w' \<and> quiescent w'"
proof -
  have "map_option quiescent (adm_run 8 ex_labels (init_world 2 1 1)) = Some False" by code_simp
  then obtain w where w: "adm_run 8 ex_labels (init_world 2 1 1) = Some w" "\<not> quiescent w" by auto
  show ?thesis using admission_drains [OF w(1)] w by blast
qed



end
