(* ===== verification/Tunnel.thy ===== *)
theory Tunnel
  imports Prelude Go_Lib Traffic
begin

text \<open>
  The transport-neutral session (\<open>src/internal/tunnel/session.go\<close>, \<open>errors.go\<close>, \<open>capacity.go\<close>)
  and the lifecycle of its yamux adapter (\<open>yamux.go\<close>): close reasons, the arbitration of the
  first terminal event, the registry of child streams, the open gate, and the order in which a
  session and its streams publish that they are done. The multiplexer itself
  (\<open>hashicorp/yamux\<close>) is not modelled: its events are steps that may happen at any time.
\<close>

section \<open>Errors\<close>

datatype go_error =
    ErrSessionClosed | ErrOpenTimeout | ErrCapacity | EOF | ErrUnexpectedEOF | NetErrClosed
  | DeadlineExceeded | ContextCanceled | NetError bool  \<comment> \<open>a \<open>net.Error\<close> and its \<open>Timeout()\<close>\<close>
  | YamuxShutdown | YamuxWriteTimeout | ErrorText string | Wrap go_error go_error  \<comment> \<open>\<open>fmt.Errorf("%w: %w")\<close>\<close>

fun err_is :: "go_error \<Rightarrow> go_error \<Rightarrow> bool" where
  "err_is (Wrap a b) t \<longleftrightarrow> err_is a t \<or> err_is b t \<or> Wrap a b = t"
| "err_is e t \<longleftrightarrow> e = t"

text \<open>\<open>errors.As(err, &netErr)\<close>: the first \<open>net.Error\<close> of the tree. \<open>context.DeadlineExceeded\<close>
  implements the interface and reports a timeout.\<close>

fun as_net_error :: "go_error \<Rightarrow> bool option" where
  "as_net_error (NetError t) = Some t"
| "as_net_error DeadlineExceeded = Some True"
| "as_net_error (Wrap a b) = (case as_net_error a of Some t \<Rightarrow> Some t | None \<Rightarrow> as_net_error b)"
| "as_net_error _ = None"

definition normalizeYamuxSessionError :: "go_error \<Rightarrow> go_error" where
  "normalizeYamuxSessionError err =
     (if err_is err YamuxShutdown \<or> err_is err YamuxWriteTimeout \<or> err_is err EOF \<or> err_is err NetErrClosed
      then Wrap ErrSessionClosed err else err)"

section \<open>Close information\<close>

definition CloseNormal :: nat where "CloseNormal = 0"
definition CloseShutdown :: nat where "CloseShutdown = 1"
definition CloseProtocol :: nat where "CloseProtocol = 2"
definition CloseAuth :: nat where "CloseAuth = 3"
definition CloseSuperseded :: nat where "CloseSuperseded = 4"
definition CloseCapacity :: nat where "CloseCapacity = 5"
definition CloseIdle :: nat where "CloseIdle = 6"

lemmas close_codes = CloseNormal_def CloseShutdown_def CloseProtocol_def CloseAuth_def CloseSuperseded_def CloseCapacity_def CloseIdle_def

record closeInfo =
  ci_code :: nat
  ci_codeValid :: bool
  ci_remote :: bool
  ci_reason :: string
  ci_cause :: "go_error option"

definition zero_info :: closeInfo where
  "zero_info = \<lparr>ci_code = 0, ci_codeValid = False, ci_remote = False, ci_reason = [], ci_cause = None\<rparr>"

definition closeReason :: "closeInfo \<Rightarrow> string" where
  "closeReason info =
     (if ci_codeValid info then
        (if ci_code info = CloseNormal \<or> ci_code info = CloseSuperseded then ''normal''
         else if ci_code info = CloseShutdown then ''shutdown''
         else if ci_code info = CloseProtocol \<or> ci_code info = CloseAuth then ''protocol''
         else if ci_code info = CloseIdle then ''idle''
         else ''other'')
      else if ci_reason info \<in> {''normal'', ''shutdown'', ''protocol'', ''idle'', ''network'', ''other''} then ci_reason info
      else ''other'')"

text \<open>The trimming loop of \<open>sanitizeReason\<close>: bytes go from the end until the rest is valid.\<close>

fun trim_invalid :: "nat \<Rightarrow> string \<Rightarrow> string" where
  "trim_invalid 0 s = []"
| "trim_invalid (Suc n) s = (if valid_utf8 s then s else trim_invalid n (butlast s))"

definition sanitizeReason :: "string \<Rightarrow> string" where
  "sanitizeReason reason =
     (let reason = (if valid_utf8 reason then reason else concat (map encode_rune (runes_of reason)))
      in if length reason \<le> 256 then reason else trim_invalid 256 (take 256 reason))"

definition prefixSetupTimeout :: "kind \<Rightarrow> int" where
  "prefixSetupTimeout k = (if k = KindTCP then 60 else 5) * 1000000000"

lemma length_trim_invalid: "length (trim_invalid n s) \<le> length s"
proof (induction n s rule: trim_invalid.induct)
  case (2 n s)
  then show ?case by (cases "valid_utf8 s") (auto intro: order_trans)
qed simp

lemma valid_trim_invalid: "length s \<le> n \<Longrightarrow> valid_utf8 (trim_invalid n s)"
  by (induction n s rule: trim_invalid.induct) auto

lemma sanitizeReason_bounded: "length (sanitizeReason reason) \<le> 256"
proof -
  have "length (trim_invalid 256 (take 256 s)) \<le> 256" for s using length_trim_invalid [of 256 "take 256 s"] by simp
  then show ?thesis by (simp add: sanitizeReason_def Let_def)
qed

section \<open>sessionState\<close>

record sessionState =
  ss_terminal :: bool
  ss_finished :: bool
  ss_info :: closeInfo
  ss_children :: "nat list"
  ss_done :: bool

definition newSessionState :: sessionState where
  "newSessionState = \<lparr>ss_terminal = False, ss_finished = False, ss_info = zero_info, ss_children = [], ss_done = False\<rparr>"

definition claim :: "closeInfo \<Rightarrow> sessionState \<Rightarrow> bool \<times> sessionState" where
  "claim info s =
     (let info = info\<lparr>ci_reason := sanitizeReason (ci_reason info)\<rparr>
      in if ss_terminal s then (False, s) else (True, s\<lparr>ss_terminal := True, ss_info := info\<rparr>))"

definition register_child :: "nat \<Rightarrow> sessionState \<Rightarrow> bool \<times> sessionState" where
  "register_child i s = (if ss_terminal s then (False, s) else (True, s\<lparr>ss_children := List.insert i (ss_children s)\<rparr>))"

definition unregister_child :: "nat \<Rightarrow> sessionState \<Rightarrow> sessionState" where
  "unregister_child i s = s\<lparr>ss_children := removeAll i (ss_children s)\<rparr>"

text \<open>\<open>finish\<close> up to the loop over the children, which it returns; \<open>None\<close> when it has run before.\<close>

definition finish_locked :: "closeInfo \<Rightarrow> sessionState \<Rightarrow> nat list option \<times> sessionState" where
  "finish_locked fallback s =
     (let fallback = fallback\<lparr>ci_reason := sanitizeReason (ci_reason fallback)\<rparr>
      in if ss_finished s then (None, s)
         else (let s = (if \<not> ss_terminal s then s\<lparr>ss_terminal := True, ss_info := fallback\<rparr> else s)
               in (Some (ss_children s), s\<lparr>ss_finished := True, ss_children := []\<rparr>)))"

section \<open>Streams of the yamux adapter\<close>

datatype cphase =
    CIdle      \<comment> \<open>\<open>complete\<close> has not run\<close>
  | CStarted   \<comment> \<open>inside \<open>doneOnce\<close>: completed, open slot returned\<close>
  | CClosed    \<comment> \<open>\<open>close(done)\<close>\<close>
  | CEnded     \<comment> \<open>unregistered, \<open>doneOnce\<close> has ended\<close>

record yamuxStream =
  ys_localClosed :: bool
  ys_remoteDone :: bool
  ys_completed :: bool
  ys_closeTimer :: bool     \<comment> \<open>armed\<close>
  ys_expired :: bool        \<comment> \<open>the timer has fired\<close>
  ys_holdsOpenSlot :: bool
  ys_refused :: bool        \<comment> \<open>\<open>registerYamuxStream\<close> found the session terminal\<close>
  ys_phase :: cphase

definition newYamuxStream :: "bool \<Rightarrow> yamuxStream" where
  "newYamuxStream holds =
     \<lparr>ys_localClosed = False, ys_remoteDone = False, ys_completed = False, ys_closeTimer = False, ys_expired = False,
      ys_holdsOpenSlot = holds, ys_refused = False, ys_phase = CIdle\<rparr>"

definition markLocalClosed :: "yamuxStream \<Rightarrow> yamuxStream" where
  "markLocalClosed s =
     (if \<not> ys_localClosed s then
        s\<lparr>ys_localClosed := True, ys_closeTimer := ys_closeTimer s \<or> (\<not> ys_completed s \<and> \<not> ys_remoteDone s)\<rparr>
      else s)"

definition markRemoteDone :: "yamuxStream \<Rightarrow> yamuxStream" where
  "markRemoteDone s = s\<lparr>ys_remoteDone := True\<rparr>"

text \<open>The first part of \<open>complete\<close>, up to the return of the open slot.\<close>

definition complete_start :: "yamuxStream \<Rightarrow> yamuxStream" where
  "complete_start s = s\<lparr>ys_completed := True, ys_closeTimer := False, ys_phase := CStarted\<rparr>"

section \<open>The session\<close>

record yamuxSession =
  y_state :: sessionState
  y_gate :: nat
  y_panic :: bool
  y_opening :: nat                       \<comment> \<open>\<open>OpenStream\<close> calls that hold a slot and have no stream yet\<close>
  y_streams :: "yamuxStream list"
  y_terminating :: "nat list option"     \<comment> \<open>the loop of \<open>finish\<close>: the children still to terminate\<close>

definition yamuxStreamLimit :: nat where
  "yamuxStreamLimit = 128"

definition newYamuxSession :: yamuxSession where
  "newYamuxSession = \<lparr>y_state = newSessionState, y_gate = 0, y_panic = False, y_opening = 0, y_streams = [], y_terminating = None\<rparr>"

definition releaseOpenSlot :: "yamuxSession \<Rightarrow> yamuxSession" where
  "releaseOpenSlot y = (if 0 < y_gate y then y\<lparr>y_gate := y_gate y - 1\<rparr> else y\<lparr>y_panic := True\<rparr>)"

definition registerYamuxStream :: "bool \<Rightarrow> yamuxSession \<Rightarrow> yamuxSession" where
  "registerYamuxStream holds y =
     (let i = length (y_streams y); s = newYamuxStream holds
      in case register_child i (y_state y) of (ok, st) \<Rightarrow>
           if ok then y\<lparr>y_state := st, y_streams := y_streams y @ [s]\<rparr>
           else y\<lparr>y_streams := y_streams y @ [(markLocalClosed s)\<lparr>ys_refused := True\<rparr>]\<rparr>)"

definition observeConnError :: "go_error \<Rightarrow> yamuxSession \<Rightarrow> yamuxSession" where
  "observeConnError err y =
     (if ss_terminal (y_state y) then y
      else (let info = (if err_is err EOF then zero_info\<lparr>ci_cause := Some err, ci_remote := True, ci_reason := ''normal''\<rparr>
                        else zero_info\<lparr>ci_cause := Some err, ci_reason := ''network''\<rparr>)
            in y\<lparr>y_state := snd (claim info (y_state y))\<rparr>))"

datatype y_label =
    OpenGate | OpenFails | StreamOpened | StreamAccepted | Claim closeInfo | ConnError go_error
  | Finish closeInfo "nat list"  \<comment> \<open>the order in which the loop visits the children\<close>
  | FinishNext | FinishEnd
  | LocalClose nat | RemoteDone nat | TimerFires nat | CompleteStream nat | CloseDone nat | ChildGone nat

abbreviation upd_stream :: "nat \<Rightarrow> (yamuxStream \<Rightarrow> yamuxStream) \<Rightarrow> yamuxSession \<Rightarrow> yamuxSession" where
  "upd_stream i f y \<equiv> y\<lparr>y_streams := (y_streams y)[i := f (y_streams y ! i)]\<rparr>"

definition in_phase :: "cphase \<Rightarrow> nat \<Rightarrow> yamuxSession \<Rightarrow> bool" where
  "in_phase p i y \<longleftrightarrow> i < length (y_streams y) \<and> ys_phase (y_streams y ! i) = p"

text \<open>Who calls \<open>complete\<close>: both directions ended, the timer, the loop of \<open>finish\<close>, a refused registration.\<close>

definition may_complete :: "nat \<Rightarrow> yamuxSession \<Rightarrow> bool" where
  "may_complete i y \<longleftrightarrow> (let s = y_streams y ! i in
     (ys_localClosed s \<and> ys_remoteDone s) \<or> ys_expired s \<or> ys_refused s \<or>
     (case y_terminating y of Some (c # _) \<Rightarrow> c = i | _ \<Rightarrow> False))"

fun y_step :: "y_label \<Rightarrow> yamuxSession \<Rightarrow> yamuxSession option" where
  "y_step OpenGate y = (if y_gate y < yamuxStreamLimit then Some (y\<lparr>y_gate := y_gate y + 1, y_opening := y_opening y + 1\<rparr>) else None)"
| "y_step OpenFails y = (if 0 < y_opening y then Some (releaseOpenSlot (y\<lparr>y_opening := y_opening y - 1\<rparr>)) else None)"
| "y_step StreamOpened y = (if 0 < y_opening y then Some (registerYamuxStream True (y\<lparr>y_opening := y_opening y - 1\<rparr>)) else None)"
| "y_step StreamAccepted y = Some (registerYamuxStream False y)"
| "y_step (Claim info) y = Some (y\<lparr>y_state := snd (claim info (y_state y))\<rparr>)"
| "y_step (ConnError err) y = Some (observeConnError err y)"
| "y_step (Finish info order) y =
     (case finish_locked info (y_state y) of
        (None, st) \<Rightarrow> Some y
      | (Some cs, st) \<Rightarrow> if set order = set cs then Some (y\<lparr>y_state := st, y_terminating := Some order\<rparr>) else None)"
| "y_step FinishNext y =
     (case y_terminating y of
        Some (c # cs) \<Rightarrow> if in_phase CEnded c y then Some (y\<lparr>y_terminating := Some cs\<rparr>) else None
      | _ \<Rightarrow> None)"
| "y_step FinishEnd y =
     (if y_terminating y = Some [] then Some (y\<lparr>y_terminating := None, y_state := (y_state y)\<lparr>ss_done := True\<rparr>\<rparr>) else None)"
| "y_step (LocalClose i) y = (if i < length (y_streams y) then Some (upd_stream i markLocalClosed y) else None)"
| "y_step (RemoteDone i) y = (if i < length (y_streams y) then Some (upd_stream i markRemoteDone y) else None)"
| "y_step (TimerFires i) y =
     (if i < length (y_streams y) \<and> ys_closeTimer (y_streams y ! i) then Some (upd_stream i (\<lambda>s. s\<lparr>ys_expired := True\<rparr>) y) else None)"
| "y_step (CompleteStream i) y =
     (if in_phase CIdle i y \<and> may_complete i y then
        (let y' = upd_stream i complete_start y
         in Some (if ys_holdsOpenSlot (y_streams y ! i) then releaseOpenSlot y' else y'))
      else None)"
| "y_step (CloseDone i) y = (if in_phase CStarted i y then Some (upd_stream i (\<lambda>s. s\<lparr>ys_phase := CClosed\<rparr>) y) else None)"
| "y_step (ChildGone i) y =
     (if in_phase CClosed i y
      then Some ((upd_stream i (\<lambda>s. s\<lparr>ys_phase := CEnded\<rparr>) y)\<lparr>y_state := unregister_child i (y_state y)\<rparr>) else None)"

fun y_run :: "y_label list \<Rightarrow> yamuxSession \<Rightarrow> yamuxSession option" where
  "y_run [] y = Some y"
| "y_run (l # ls) y = (case y_step l y of None \<Rightarrow> None | Some y' \<Rightarrow> y_run ls y')"

section \<open>Invariants\<close>

definition slot_held :: "yamuxStream \<Rightarrow> bool" where
  "slot_held s \<longleftrightarrow> ys_holdsOpenSlot s \<and> ys_phase s = CIdle"

text \<open>A registered stream that has not published its end.\<close>

definition unpublished :: "yamuxStream \<Rightarrow> bool" where
  "unpublished s \<longleftrightarrow> \<not> ys_refused s \<and> (ys_phase s = CIdle \<or> ys_phase s = CStarted)"

definition open_gate_inv :: "yamuxSession \<Rightarrow> bool" where
  "open_gate_inv y \<longleftrightarrow> \<not> y_panic y \<and> y_gate y = y_opening y + cnt slot_held (y_streams y) \<and> y_gate y \<le> yamuxStreamLimit"

text \<open>Who still has to see the end of the streams: the registry, then the loop of \<open>finish\<close>.\<close>

definition responsible :: "yamuxSession \<Rightarrow> nat set" where
  "responsible y = (if ss_finished (y_state y) then (case y_terminating y of None \<Rightarrow> {} | Some cs \<Rightarrow> set cs) else set (ss_children (y_state y)))"

definition finish_inv :: "yamuxSession \<Rightarrow> bool" where
  "finish_inv y \<longleftrightarrow> (ss_finished (y_state y) \<longrightarrow> ss_terminal (y_state y)) \<and> (y_terminating y \<noteq> None \<longrightarrow> ss_finished (y_state y)) \<and>
     (ss_done (y_state y) \<longleftrightarrow> ss_finished (y_state y) \<and> y_terminating y = None)"

definition child_inv :: "yamuxSession \<Rightarrow> bool" where
  "child_inv y \<longleftrightarrow> (\<forall>i < length (y_streams y). unpublished (y_streams y ! i) \<longrightarrow> i \<in> responsible y)"

definition cause_inv :: "yamuxSession \<Rightarrow> bool" where
  "cause_inv y \<longleftrightarrow> (\<forall>s \<in> set (y_streams y). ys_phase s \<noteq> CIdle \<longrightarrow>
     (ys_localClosed s \<and> ys_remoteDone s) \<or> ys_expired s \<or> ys_refused s \<or> ss_finished (y_state y))"

lemmas y_defs = claim_def register_child_def unregister_child_def finish_locked_def registerYamuxStream_def observeConnError_def
  markLocalClosed_def markRemoteDone_def complete_start_def newYamuxStream_def releaseOpenSlot_def in_phase_def

lemma cnt_slot_pos: "in_phase CIdle i y \<Longrightarrow> ys_holdsOpenSlot (y_streams y ! i) \<Longrightarrow> 0 < cnt slot_held (y_streams y)"
  by (auto simp: in_phase_def slot_held_def intro: cnt_pos)

lemma open_gate_inv_step: "y_step l y = Some y' \<Longrightarrow> open_gate_inv y \<Longrightarrow> open_gate_inv y'"
proof (cases l)
  case (CompleteStream i)
  assume s: "y_step l y = Some y'" and inv: "open_gate_inv y"
  have i: "in_phase CIdle i y" using s CompleteStream by (auto split: if_splits)
  show ?thesis using s inv cnt_slot_pos [OF i] i unfolding CompleteStream
    by (auto simp: open_gate_inv_def y_defs slot_held_def Let_def cnt_update split: if_splits)
qed (auto simp: open_gate_inv_def y_defs slot_held_def Let_def cnt_update split: if_splits option.splits prod.splits list.splits)

lemma finish_inv_step: "y_step l y = Some y' \<Longrightarrow> finish_inv y \<Longrightarrow> finish_inv y'"
proof (cases l)
  case (Finish info order)
  assume "y_step l y = Some y'" and "finish_inv y"
  then show ?thesis unfolding Finish
    by (cases "ss_finished (y_state y)"; cases "ss_terminal (y_state y)") (auto simp: finish_inv_def finish_locked_def Let_def split: if_splits)
qed (auto simp: finish_inv_def y_defs Let_def split: if_splits option.splits prod.splits list.splits)

lemma cause_inv_step:
  assumes "y_step l y = Some y'" and "cause_inv y" and "finish_inv y"
  shows "cause_inv y'"
proof -
  have upd: "cause_inv y'" if "y_streams y' = (y_streams y)[i := s]" "ss_finished (y_state y) \<longrightarrow> ss_finished (y_state y')"
    "ys_phase s \<noteq> CIdle \<longrightarrow> (ys_localClosed s \<and> ys_remoteDone s) \<or> ys_expired s \<or> ys_refused s \<or> ss_finished (y_state y')" for i s y'
    using that assms(2) by (auto simp: cause_inv_def dest!: subsetD [OF set_update_subset_insert])
  have old: "i < length (y_streams y) \<Longrightarrow> ys_phase (y_streams y ! i) \<noteq> CIdle \<Longrightarrow>
      (ys_localClosed (y_streams y ! i) \<and> ys_remoteDone (y_streams y ! i)) \<or> ys_expired (y_streams y ! i) \<or> ys_refused (y_streams y ! i) \<or>
      ss_finished (y_state y)" for i
    using assms(2) by (auto simp: cause_inv_def)
  show ?thesis
  proof (cases l)
    case (LocalClose i)
    then show ?thesis using assms(1) old [of i] by (auto intro!: upd [of _ i] simp: markLocalClosed_def split: if_splits)
  next
    case (RemoteDone i)
    then show ?thesis using assms(1) old [of i] by (auto intro!: upd [of _ i] simp: markRemoteDone_def split: if_splits)
  next
    case (TimerFires i)
    then show ?thesis using assms(1) old [of i] by (auto intro!: upd [of _ i] split: if_splits)
  next
    case (CompleteStream i)
    then show ?thesis using assms(1,3)
      by (auto intro!: upd [of _ i] simp: Let_def releaseOpenSlot_def complete_start_def may_complete_def finish_inv_def split: if_splits option.splits list.splits)
  next
    case (CloseDone i)
    then show ?thesis using assms(1) old [of i] by (auto intro!: upd [of _ i] simp: in_phase_def split: if_splits)
  next
    case (ChildGone i)
    then show ?thesis using assms(1) old [of i] by (auto intro!: upd [of _ i] simp: in_phase_def unregister_child_def split: if_splits)
  qed (use assms(1,2) in \<open>auto simp: cause_inv_def y_defs Let_def split: if_splits option.splits prod.splits list.splits\<close>)
qed

text \<open>Streams only stop being unpublished, and they stay the responsibility of someone until then.\<close>

lemma child_inv_step:
  assumes "y_step l y = Some y'" and inv: "child_inv y" and fin: "finish_inv y"
  shows "child_inv y'"
proof -
  have upd: "child_inv y'" if "y_streams y' = (y_streams y)[i := s]" "responsible y - {j. \<not> unpublished (y_streams y' ! j)} \<subseteq> responsible y'"
    "unpublished s \<longrightarrow> unpublished (y_streams y ! i)" for i s y'
    unfolding child_inv_def
  proof (intro allI impI)
    fix j assume j: "j < length (y_streams y')" "unpublished (y_streams y' ! j)"
    then have "unpublished (y_streams y ! j)" using that(1,3) by (cases "j = i") auto
    then have "j \<in> responsible y" using inv j(1) that(1) by (simp add: child_inv_def)
    then show "j \<in> responsible y'" using that(2) j(2) by blast
  qed
  have frame: "child_inv y'" if "y_streams y' = y_streams y" "responsible y - {j. \<not> unpublished (y_streams y ! j)} \<subseteq> responsible y'" for y'
    using that inv unfolding child_inv_def by auto
  show ?thesis
  proof (cases l)
    case (Finish info order)
    then show ?thesis using assms(1) fin
      by (auto intro!: frame simp: finish_locked_def finish_inv_def responsible_def Let_def split: if_splits)
  next
    case FinishNext
    then show ?thesis using assms(1)
      by (auto intro!: frame simp: responsible_def in_phase_def unpublished_def split: if_splits option.splits list.splits)
  next
    case (LocalClose i)
    then show ?thesis using assms(1) by (auto intro!: upd [of _ i] simp: markLocalClosed_def responsible_def unpublished_def split: if_splits)
  next
    case (RemoteDone i)
    then show ?thesis using assms(1) by (auto intro!: upd [of _ i] simp: markRemoteDone_def responsible_def unpublished_def split: if_splits)
  next
    case (TimerFires i)
    then show ?thesis using assms(1) by (auto intro!: upd [of _ i] simp: responsible_def unpublished_def split: if_splits)
  next
    case (CompleteStream i)
    then show ?thesis using assms(1)
      by (auto intro!: upd [of _ i] simp: Let_def releaseOpenSlot_def complete_start_def in_phase_def responsible_def unpublished_def split: if_splits)
  next
    case (CloseDone i)
    then show ?thesis using assms(1) by (auto intro!: upd [of _ i] simp: in_phase_def responsible_def unpublished_def split: if_splits)
  next
    case (ChildGone i)
    then show ?thesis using assms(1)
      by (auto intro!: upd [of _ i] simp: in_phase_def unregister_child_def responsible_def unpublished_def nth_list_update
          split: if_splits option.splits)
  qed (use assms in \<open>auto simp: child_inv_def y_defs responsible_def unpublished_def finish_inv_def Let_def nth_append less_Suc_eq
      split: if_splits option.splits prod.splits\<close>)
qed

definition range_inv :: "yamuxSession \<Rightarrow> bool" where
  "range_inv y \<longleftrightarrow> (\<forall>i \<in> set (ss_children (y_state y)). i < length (y_streams y)) \<and>
     (\<forall>cs. y_terminating y = Some cs \<longrightarrow> (\<forall>i \<in> set cs. i < length (y_streams y)))"

lemma range_inv_step: "y_step l y = Some y' \<Longrightarrow> range_inv y \<Longrightarrow> range_inv y'"
  by (cases l) (auto simp: range_inv_def y_defs Let_def less_Suc_eq split: if_splits option.splits prod.splits list.splits)

definition y_inv :: "yamuxSession \<Rightarrow> bool" where
  "y_inv y \<longleftrightarrow> open_gate_inv y \<and> finish_inv y \<and> child_inv y \<and> cause_inv y \<and> range_inv y"

lemma y_inv_init: "y_inv newYamuxSession"
  by (simp add: y_inv_def open_gate_inv_def finish_inv_def child_inv_def cause_inv_def range_inv_def responsible_def
      newYamuxSession_def newSessionState_def)

lemma y_inv_step: "y_step l y = Some y' \<Longrightarrow> y_inv y \<Longrightarrow> y_inv y'"
  using open_gate_inv_step finish_inv_step child_inv_step cause_inv_step range_inv_step by (auto simp: y_inv_def)

lemma y_inv_run: "y_run ls y = Some y' \<Longrightarrow> y_inv y \<Longrightarrow> y_inv y'"
  by (induction ls arbitrary: y) (auto intro: y_inv_step split: option.splits)

lemma info_step: "y_step l y = Some y' \<Longrightarrow> ss_terminal (y_state y) \<Longrightarrow> ss_terminal (y_state y') \<and> ss_info (y_state y') = ss_info (y_state y)"
  by (cases l) (auto simp: y_defs Let_def split: if_splits option.splits prod.splits list.splits)

lemma info_run: "y_run ls y = Some y' \<Longrightarrow> ss_terminal (y_state y) \<Longrightarrow> ss_terminal (y_state y') \<and> ss_info (y_state y') = ss_info (y_state y)"
proof (induction ls arbitrary: y)
  case (Cons l ls)
  obtain y1 where y1: "y_step l y = Some y1" "y_run ls y1 = Some y'" using Cons.prems(1) by (auto split: option.splits)
  then show ?case using Cons.IH [OF y1(2)] info_step [OF y1(1) Cons.prems(2)] by simp
qed simp

section \<open>Finishing\<close>

lemma y_run_append: "y_run (xs @ ys) y = (case y_run xs y of None \<Rightarrow> None | Some y' \<Rightarrow> y_run ys y')"
  by (induction xs arbitrary: y) (auto split: option.splits)

text \<open>The head of the loop can always be brought to its end, whatever state it is in.\<close>

lemma head_completes:
  assumes "y_terminating y = Some (c # cs)" and "c < length (y_streams y)"
  shows "\<exists>ks y'. y_run ks y = Some y' \<and> y_terminating y' = Some cs"
proof -
  have ended: "\<exists>ks y'. y_run ks y = Some y' \<and> y_terminating y' = Some cs"
    if "y_terminating y = Some (c # cs)" "in_phase CEnded c y" for y
    using that by (intro exI [of _ "[FinishNext]"]) simp
  have chain: "\<exists>ks y'. y_run ks y = Some y' \<and> y_terminating y' = Some cs"
    if "y_step l y = Some y1" "\<exists>ks y'. y_run ks y1 = Some y' \<and> y_terminating y' = Some cs" for l y y1
  proof -
    from that(2) obtain ks y' where "y_run ks y1 = Some y'" "y_terminating y' = Some cs" by blast
    then have "y_run (l # ks) y = Some y' \<and> y_terminating y' = Some cs" using that(1) by simp
    then show ?thesis by blast
  qed
  have closed: "\<exists>ks y'. y_run ks y = Some y' \<and> y_terminating y' = Some cs"
    if "y_terminating y = Some (c # cs)" "in_phase CClosed c y" for y
  proof -
    let ?y = "the (y_step (ChildGone c) y)"
    have "y_step (ChildGone c) y = Some ?y" "y_terminating ?y = Some (c # cs)" "in_phase CEnded c ?y" using that by (auto simp: in_phase_def)
    then show ?thesis using chain ended by blast
  qed
  have started: "\<exists>ks y'. y_run ks y = Some y' \<and> y_terminating y' = Some cs"
    if "y_terminating y = Some (c # cs)" "in_phase CStarted c y" for y
  proof -
    let ?y = "the (y_step (CloseDone c) y)"
    have "y_step (CloseDone c) y = Some ?y" "y_terminating ?y = Some (c # cs)" "in_phase CClosed c ?y" using that by (auto simp: in_phase_def)
    then show ?thesis using chain closed by blast
  qed
  have idle: "\<exists>ks y'. y_run ks y = Some y' \<and> y_terminating y' = Some cs" if "in_phase CIdle c y"
  proof -
    let ?y = "the (y_step (CompleteStream c) y)"
    have "y_step (CompleteStream c) y = Some ?y" "y_terminating ?y = Some (c # cs)" "in_phase CStarted c ?y" using that assms by (auto simp: in_phase_def may_complete_def Let_def releaseOpenSlot_def complete_start_def)
    then show ?thesis using chain started by blast
  qed
  have "in_phase CIdle c y \<or> in_phase CStarted c y \<or> in_phase CClosed c y \<or> in_phase CEnded c y"
    using assms(2) by (cases "ys_phase (y_streams y ! c)") (simp_all add: in_phase_def)
  then show ?thesis using ended [OF assms(1)] closed [OF assms(1)] started [OF assms(1)] idle by blast
qed

lemma finish_can_end:
  "y_inv y \<Longrightarrow> y_terminating y = Some cs \<Longrightarrow> \<exists>ks y'. y_run ks y = Some y' \<and> ss_done (y_state y')"
proof (induction cs arbitrary: y)
  case Nil
  then show ?case by (intro exI [of _ "[FinishEnd]"]) simp
next
  case (Cons c cs)
  have "c < length (y_streams y)" using Cons.prems by (auto simp: y_inv_def range_inv_def responsible_def finish_inv_def)
  then obtain ks y1 where y1: "y_run ks y = Some y1" "y_terminating y1 = Some cs"
    using head_completes [OF Cons.prems(2)] by blast
  then obtain ks' y' where "y_run ks' y1 = Some y'" "ss_done (y_state y')" using Cons.IH y_inv_run [OF y1(1) Cons.prems(1)] by blast
  then have "y_run (ks @ ks') y = Some y' \<and> ss_done (y_state y')" using y1 by (simp add: y_run_append)
  then show ?case by blast
qed

section \<open>Properties\<close>

text \<open>
  C19. A session is done after its streams: in every interleaving of opens, accepts, closes,
  timers, connection errors and \<open>finish\<close>, once the session's \<open>Done\<close> is closed every stream it
  ever handed out has closed its own; a stream closes its \<open>Done\<close> only when both directions have
  ended, its close timer has fired after a local close, or the session has finished; and a
  session whose \<open>finish\<close> has begun can always reach \<open>Done\<close>.
\<close>

theorem session_done_last:
  assumes "y_run ls newYamuxSession = Some y"
  shows "(ss_done (y_state y) \<longrightarrow> (\<forall>s \<in> set (y_streams y). ys_refused s \<or> ys_phase s = CClosed \<or> ys_phase s = CEnded)) \<and>
    (\<forall>s \<in> set (y_streams y). (ys_phase s = CClosed \<or> ys_phase s = CEnded) \<longrightarrow>
      (ys_localClosed s \<and> ys_remoteDone s) \<or> ys_expired s \<or> ys_refused s \<or> ss_finished (y_state y)) \<and>
    (ss_finished (y_state y) \<longrightarrow> (\<exists>ks y'. y_run ks y = Some y' \<and> ss_done (y_state y')))"
proof -
  have inv: "y_inv y" using y_inv_run [OF assms y_inv_init] .
  have "ys_refused s \<or> ys_phase s = CClosed \<or> ys_phase s = CEnded" if d: "ss_done (y_state y)" and s: "s \<in> set (y_streams y)" for s
  proof -
    have "responsible y = {}" using inv d by (auto simp: y_inv_def finish_inv_def responsible_def)
    then have "\<not> unpublished s" using inv s by (auto simp: y_inv_def child_inv_def in_set_conv_nth)
    then show ?thesis by (cases "ys_phase s") (auto simp: unpublished_def)
  qed
  moreover have "\<exists>ks y'. y_run ks y = Some y' \<and> ss_done (y_state y')" if "ss_finished (y_state y)"
  proof (cases "y_terminating y")
    case None
    then have "y_run [] y = Some y \<and> ss_done (y_state y)" using that inv by (simp add: y_inv_def finish_inv_def)
    then show ?thesis by blast
  next
    case (Some cs)
    then show ?thesis using finish_can_end [OF inv] by blast
  qed
  moreover have "cause_inv y" using inv by (simp add: y_inv_def)
  ultimately show ?thesis unfolding cause_inv_def by auto
qed

definition ex_y :: "y_label list" where
  "ex_y = [OpenGate, StreamOpened, StreamAccepted, LocalClose 0, RemoteDone 0, CompleteStream 0, Claim (zero_info\<lparr>ci_code := 6, ci_codeValid := True\<rparr>),
     CloseDone 0, Finish zero_info [0, 1], StreamAccepted, CompleteStream 2, ChildGone 0, FinishNext, CompleteStream 1, CloseDone 1, ChildGone 1, FinishNext, FinishEnd]"

theorem session_done_last_witness:
  "\<exists>y. y_run ex_y newYamuxSession = Some y \<and> ss_done (y_state y) \<and>
     (\<forall>s \<in> set (y_streams y). ys_refused s \<or> ys_phase s = CClosed \<or> ys_phase s = CEnded)"
proof -
  have "map_option (\<lambda>y. ss_done (y_state y)) (y_run ex_y newYamuxSession) = Some True" by code_simp
  then obtain y where "y_run ex_y newYamuxSession = Some y" "ss_done (y_state y)" by auto
  then show ?thesis using session_done_last [of ex_y y] by blast
qed

text \<open>
  C20. The open gate is exact: it holds one token per \<open>OpenStream\<close> call that has no stream yet and
  per opened stream that has not completed, never more than 128, and \<open>releaseOpenSlot\<close> never
  finds it empty, so its panic is unreachable.
\<close>

theorem open_gate_exact:
  assumes "y_run ls newYamuxSession = Some y"
  shows "\<not> y_panic y \<and> y_gate y \<le> 128 \<and>
    y_gate y = y_opening y + length (filter (\<lambda>s. ys_holdsOpenSlot s \<and> ys_phase s = CIdle) (y_streams y))"
  using y_inv_run [OF assms y_inv_init]
  by (simp add: y_inv_def open_gate_inv_def yamuxStreamLimit_def cnt_def slot_held_def [abs_def])

theorem open_gate_exact_witness: "\<exists>y. y_run [OpenGate, OpenGate, StreamOpened, OpenFails] newYamuxSession = Some y \<and> y_gate y = 1 \<and> \<not> y_panic y"
proof -
  have "map_option y_gate (y_run [OpenGate, OpenGate, StreamOpened, OpenFails] newYamuxSession) = Some 1" by code_simp
  then obtain y where "y_run [OpenGate, OpenGate, StreamOpened, OpenFails] newYamuxSession = Some y" "y_gate y = 1" by auto
  then show ?thesis using open_gate_exact by blast
qed



end
