(* ===== verification/Control.thy ===== *)
theory Control
  imports Auth Admission Tunnel
begin

text \<open>
  The control channel: the line reader of \<open>src/internal/proto/proto.go\<close>, and the edge's side of
  the protocol in \<open>src/internal/edge/edge.go\<close> (the hello exchange of \<open>handleTunnelSession\<close>,
  \<open>handleControlMsg\<close>, \<open>heartbeatWatch\<close>). JSON decoding is the environment's: a message arrives
  decoded, or as the error that decoding gave.
\<close>

section \<open>Reading a line\<close>

datatype read_error = ErrLineTooLong | ReadErr

datatype slice_result = SliceOK | SliceFull | SliceErr

text \<open>
  \<open>bufio.Reader.ReadSlice('\n')\<close> with a buffer of \<open>n\<close> bytes on a stream that will deliver \<open>data\<close>
  and then fail: the fragment, how the call ended, and what is left.
\<close>

definition newline :: char where
  "newline = char_of (10 :: nat)"

definition readSlice :: "nat \<Rightarrow> string \<Rightarrow> string \<times> slice_result \<times> string" where
  "readSlice n data =
     (case index_byte newline (take n data) of
        Some i \<Rightarrow> (take (i + 1) data, SliceOK, drop (i + 1) data)
      | None \<Rightarrow> if n \<le> length data then (take n data, SliceFull, drop n data) else (data, SliceErr, []))"

lemma index_byte_lt: "index_byte c s = Some i \<Longrightarrow> i < length s"
  by (induction s arbitrary: i) (auto split: if_splits option.splits)

text \<open>The loop of \<open>readLineCapped\<close>. A buffer of no bytes does not exist in \<open>bufio\<close>.\<close>

function readLine_loop :: "nat \<Rightarrow> nat \<Rightarrow> string \<Rightarrow> string \<Rightarrow> (read_error + string) \<times> string" where
  "readLine_loop n mx line data =
     (case readSlice n data of (frag, res, rest) \<Rightarrow>
        (let line = line @ frag
         in if mx < length line then (Inl ErrLineTooLong, rest)
            else (case res of
                    SliceOK \<Rightarrow> (Inr line, rest)
                  | SliceFull \<Rightarrow> if n = 0 then (Inl ReadErr, rest) else readLine_loop n mx line rest
                  | SliceErr \<Rightarrow> (Inl ReadErr, rest))))"
  by pat_completeness auto
termination
  by (relation "measure (\<lambda>(n, mx, line, data). length data)") (auto simp: readSlice_def split: option.splits if_splits)

declare readLine_loop.simps [simp del]

definition readLineCapped :: "nat \<Rightarrow> nat \<Rightarrow> string \<Rightarrow> (read_error + string) \<times> string" where
  "readLineCapped n mx data = readLine_loop n mx [] data"

definition MaxLineBytes :: nat where
  "MaxLineBytes = 1048576"

section \<open>Messages\<close>

record hello =
  h_token :: string
  h_scope :: string
  h_maxStreams :: int
  h_protoVersion :: int

definition ProtoVersion :: int where
  "ProtoVersion = 1"

datatype edge_msg =
    MsgError (err_code: string) (err_name: string) (err_text: string)
  | MsgHelloOK (ok_slug: string) (ok_baseDomain: string) (ok_shape: string) (ok_version: int)
  | MsgRegistered (reg_name: string) (reg_url: string)

text \<open>What the handler reads as the first message: no control stream, no line or another type, JSON that
  does not decode as a hello, or a hello.\<close>

datatype first_msg = NoControl string | NotHello | BadHello string | GotHello hello

datatype close_req = CloseReq nat string

text \<open>A refused handshake: the category counted, the reply written, the close requested.\<close>

record refusal =
  rf_category :: "string option"
  rf_reply :: "edge_msg option"
  rf_close :: "close_req option"

definition checkHello :: "(string \<Rightarrow> string \<Rightarrow> string option) \<Rightarrow> first_msg \<Rightarrow> refusal + string \<times> hello" where
  "checkHello resolve m =
     (case m of
        NoControl category \<Rightarrow> Inl \<lparr>rf_category = Some category, rf_reply = None, rf_close = None\<rparr>
      | NotHello \<Rightarrow> Inl \<lparr>rf_category = Some ''protocol'', rf_reply = Some (MsgError ''bad_hello'' [] ''first message must be hello''),
                        rf_close = Some (CloseReq CloseProtocol ''first message must be hello'')\<rparr>
      | BadHello err \<Rightarrow> Inl \<lparr>rf_category = Some ''protocol'', rf_reply = Some (MsgError ''bad_hello'' [] err),
                            rf_close = Some (CloseReq CloseProtocol ''malformed hello'')\<rparr>
      | GotHello h \<Rightarrow>
          if h_protoVersion h \<noteq> ProtoVersion then
            Inl \<lparr>rf_category = Some ''protocol'',
                 rf_reply = Some (MsgError ''bad_version'' [] (''protocol version '' @ itoa (h_protoVersion h) @ '' is not supported; expected '' @ itoa ProtoVersion)),
                 rf_close = Some (CloseReq CloseProtocol ''protocol version mismatch'')\<rparr>
          else (case resolve (h_token h) (h_scope h) of
                  None \<Rightarrow>
                    Inl \<lparr>rf_category = Some ''protocol'',
                         rf_reply = Some (MsgError ''bad_token'' []
                           (if h_scope h \<noteq> [] then ''invalid token, or scope '' @ [CHR 0x22] @ h_scope h @ [CHR 0x22] @ '' not available to this login'' else ''invalid token'')),
                         rf_close = Some (CloseReq CloseAuth ''authentication rejected'')\<rparr>
                | Some slug \<Rightarrow> Inr (slug, h)))"

section \<open>handleTunnelSession up to the control loop\<close>

text \<open>The part of the edge's state a handler works on.\<close>

record edge =
  ed_adm :: admission
  ed_reg :: registry
  ed_maxStreamsPerSession :: int

text \<open>
  \<open>writeOK\<close>: does writing \<open>hello_ok\<close> succeed. The result: what was sent, the close requested, and
  whether the session was admitted. The transport is in \<open>preauth\<close> when the handler starts.
\<close>

definition refuse :: "nat \<Rightarrow> kind \<Rightarrow> refusal \<Rightarrow> edge \<Rightarrow> (edge_msg list \<times> close_req \<times> bool) \<times> edge" where
  "refuse t k r e =
     (let a = (case rf_category r of None \<Rightarrow> ed_adm e | Some c \<Rightarrow> on_metrics (recordHandshakeError k c) (ed_adm e))
      in ((case rf_reply r of None \<Rightarrow> [] | Some m \<Rightarrow> [m],
           case rf_close r of Some c \<Rightarrow> c | None \<Rightarrow> CloseReq CloseNormal ''session handler ended'', False),
          e\<lparr>ed_adm := releasePreauth t k a\<rparr>))"

definition handshake ::
    "(string \<Rightarrow> string \<Rightarrow> string option) \<Rightarrow> bool \<Rightarrow> bool \<Rightarrow> nat \<Rightarrow> kind \<Rightarrow> first_msg \<Rightarrow> edge \<Rightarrow> (edge_msg list \<times> close_req \<times> bool) \<times> edge" where
  "handshake resolve writeOK closed t k m e =
     (case checkHello resolve m of
        Inl r \<Rightarrow> refuse t k r e
      | Inr (slug, h) \<Rightarrow>
          (case acquireAuthenticated (ed_adm e) of (ok, a) \<Rightarrow>
             let e = e\<lparr>ed_adm := a\<rparr>
             in if \<not> ok then
                  (if ad_shuttingDown a then
                     refuse t k \<lparr>rf_category = None, rf_reply = None, rf_close = Some (CloseReq CloseShutdown ''edge shutting down'')\<rparr> e
                   else refuse t k \<lparr>rf_category = None, rf_reply = Some (MsgError ''over_limit'' [] ''authenticated session capacity reached''),
                                    rf_close = Some (CloseReq CloseCapacity ''authenticated session capacity reached'')\<rparr> e)
                else if \<not> writeOK then
                  refuse t k \<lparr>rf_category = Some ''other'', rf_reply = None, rf_close = Some (CloseReq CloseProtocol ''write hello_ok failed'')\<rparr>
                    (e\<lparr>ed_adm := auth_return a\<rparr>)
                else
                  (let hok = MsgHelloOK slug (baseDomain (ed_reg e)) (shape_string (urlShape (ed_reg e))) ProtoVersion;
                       l = newSession k (effectiveSessionStreamCapacity (ed_maxStreamsPerSession e) (h_maxStreams h))
                   in case promoteAuthenticated t l a of (ok, a) \<Rightarrow>
                        if \<not> ok then
                          (case refuse t k \<lparr>rf_category = None, rf_reply = None, rf_close = Some (CloseReq CloseShutdown ''edge shutting down'')\<rparr>
                                  (e\<lparr>ed_adm := auth_return a\<rparr>) of ((ms, c, b), e') \<Rightarrow> ((hok # ms, c, b), e'))
                        else (([hok], CloseReq CloseNormal [], True),
                              e\<lparr>ed_adm := session_opened k a, ed_reg := add_session t slug closed (ed_reg e)\<rparr>))))"

section \<open>handleControlMsg\<close>

datatype control_msg =
    CtlRegister string int    \<comment> \<open>name and port\<close>
  | CtlUnregister string
  | CtlHeartbeat
  | CtlBad string             \<comment> \<open>a register or unregister that does not decode\<close>
  | CtlUnknown string

definition registerReply :: "string \<Rightarrow> register_error + string \<Rightarrow> edge_msg" where
  "registerReply name r = (case r of Inl err \<Rightarrow> MsgError (register_code err) name [] | Inr url \<Rightarrow> MsgRegistered name url)"

text \<open>The texts of the errors of \<open>register\<close> and \<open>ValidateLabel\<close> are left empty.\<close>

definition handleControlMsg ::
    "scopeHostnames http \<Rightarrow> time \<Rightarrow> time \<Rightarrow> nat \<Rightarrow> control_msg \<Rightarrow> (time \<times> registry) \<Rightarrow> edge_msg list \<times> (time \<times> registry)" where
  "handleControlMsg http now now' sid m s =
     (case s of (lastActivity, e) \<Rightarrow>
        (case m of
           CtlRegister n port \<Rightarrow>
             (let name = (if n = [] then labelFromPort port else n)
              in if validateLabel name \<noteq> None then ([MsgError ''invalid_name'' name []], s)
                 else (case register http now now' sid name e of (r, e') \<Rightarrow> ([registerReply name r], (lastActivity, e'))))
         | CtlUnregister n \<Rightarrow> ([], (lastActivity, unregister sid n e))
         | CtlHeartbeat \<Rightarrow> ([], (now, e))
         | CtlBad err \<Rightarrow> ([MsgError ''bad_message'' [] err], s)
         | CtlUnknown typ \<Rightarrow> ([MsgError ''unknown_message'' [] (''unknown type: '' @ typ)], s)))"

section \<open>heartbeatWatch\<close>

definition heartbeatInterval :: "time \<Rightarrow> time" where
  "heartbeatInterval timeout = (let i = timeout div 6 in if i < 50000000 then 50000000 else i)"

text \<open>What a watcher sees: ticks of its ticker, and activity of the session.\<close>

datatype hb_event = Tick time | Activity time

fun heartbeatWatch :: "time \<Rightarrow> time \<Rightarrow> hb_event list \<Rightarrow> time option" where
  "heartbeatWatch timeout lastActivity [] = None"
| "heartbeatWatch timeout lastActivity (Activity t # es) = heartbeatWatch timeout t es"
| "heartbeatWatch timeout lastActivity (Tick t # es) =
     (if timeout < t - lastActivity then Some t else heartbeatWatch timeout lastActivity es)"

section \<open>Classification of errors\<close>

text \<open>\<open>message\<close> is \<open>err.Error()\<close>.\<close>

definition contains :: "string \<Rightarrow> string \<Rightarrow> bool" where
  "contains s sub \<longleftrightarrow> (\<exists>i \<in> set [0..<length s + 1]. has_prefix sub (drop i s))"

definition classifyHandshakeError :: "(go_error \<times> string) option \<Rightarrow> string" where
  "classifyHandshakeError e =
     (case e of
        None \<Rightarrow> ''other''
      | Some (err, message) \<Rightarrow>
          if err_is err DeadlineExceeded \<or> as_net_error err = Some True then ''timeout''
          else (let m = to_lower message
                in if contains m ''tls'' \<or> contains m ''certificate'' \<or> contains m ''x509'' then ''tls''
                   else if contains m ''protocol'' \<or> contains m ''version'' \<or> contains m ''alpn'' \<or> contains m ''application protocol'' then ''protocol''
                   else ''other''))"

definition classifyStreamOpenError :: "go_error \<Rightarrow> string" where
  "classifyStreamOpenError err =
     (if err_is err Tunnel.ErrOpenTimeout \<or> err_is err DeadlineExceeded then ''timeout''
      else if err_is err Tunnel.ErrSessionClosed \<or> err_is err NetErrClosed then ''closed''
      else ''other'')"

section \<open>Lines\<close>

lemma index_byte_take: "index_byte c (take n s) = (case index_byte c s of None \<Rightarrow> None | Some i \<Rightarrow> if i < n then Some i else None)"
proof (induction s arbitrary: n)
  case (Cons x s)
  then show ?case by (cases n) (auto simp del: index_byte_None split: option.splits)
qed simp

lemma index_byte_drop: "index_byte c (take n s) = None \<Longrightarrow>
    index_byte c s = map_option (\<lambda>i. i + n) (index_byte c (drop n s)) \<or> length s < n"
proof (induction s arbitrary: n)
  case (Cons x s)
  show ?case
  proof (cases n)
    case 0
    then show ?thesis by (simp add: option.map_ident)
  next
    case (Suc m)
    then have "x \<noteq> c" "index_byte c (take m s) = None" using Cons.prems by (auto split: if_splits)
    then show ?thesis using Cons.IH [of m] Suc by (auto simp: option.map_comp comp_def)
  qed
qed simp

text \<open>The reference: the first newline within the limit, whatever the buffer.\<close>

definition first_line :: "nat \<Rightarrow> string \<Rightarrow> read_error + string" where
  "first_line mx data =
     (case index_byte newline data of
        Some i \<Rightarrow> if i + 1 \<le> mx then Inr (take (i + 1) data) else Inl ErrLineTooLong
      | None \<Rightarrow> if mx < length data then Inl ErrLineTooLong else Inl ReadErr)"

lemma readLine_loop_exact:
  assumes "0 < n" and "index_byte newline line = None" and "length line \<le> mx"
  shows "fst (readLine_loop n mx line data) = first_line mx (line @ data) \<and>
    (\<forall>l. fst (readLine_loop n mx line data) = Inr l \<longrightarrow> l @ snd (readLine_loop n mx line data) = line @ data)"
  using assms
proof (induction n mx line data rule: readLine_loop.induct)
  case (1 n mx line data)
  have app: "index_byte newline (line @ d) = map_option (\<lambda>i. i + length line) (index_byte newline d)" for d
    using "1.prems"(2) by (induction line) (auto simp: option.map_comp comp_def option.map_ident split: if_splits option.splits)
  show ?case
  proof (cases "index_byte newline (take n data)")
    case (Some i)
    then have i: "index_byte newline data = Some i" "i < n" by (auto simp: index_byte_take split: option.splits if_splits)
    have len: "length (take (Suc i) data) = Suc i" using index_byte_lt [OF i(1)] by simp
    show ?thesis using Some i len
      by (auto simp: readLine_loop.simps [of n mx line data] readSlice_def first_line_def app Let_def simp del: index_byte_None)
  next
    case None
    show ?thesis
    proof (cases "n \<le> length data")
      case False
      then have "index_byte newline data = None" using None by simp
      then show ?thesis using None False
        by (auto simp: readLine_loop.simps [of n mx line data] readSlice_def first_line_def app Let_def simp del: index_byte_None)
    next
      case True
      then have dr: "index_byte newline data = map_option (\<lambda>i. i + n) (index_byte newline (drop n data))"
        using index_byte_drop [OF None] by auto
      let ?line = "line @ take n data"
      have sl: "readSlice n data = (take n data, SliceFull, drop n data)" using None True by (simp add: readSlice_def del: index_byte_None)
      show ?thesis
      proof (cases "mx < length ?line")
        case True
        then have "first_line mx (line @ data) = Inl ErrLineTooLong"
          using dr \<open>n \<le> length data\<close> by (auto simp: first_line_def app split: option.splits)
        then show ?thesis using True by (simp add: readLine_loop.simps [of n mx line data] sl Let_def)
      next
        case False
        have nl: "index_byte newline ?line = None" using app [of "take n data"] None by (simp del: index_byte_None)
        have step: "readLine_loop n mx line data = readLine_loop n mx ?line (drop n data)"
          using False "1.prems"(1) by (simp add: readLine_loop.simps [of n mx line data] sl Let_def)
        show ?thesis using "1.IH" [OF sl [symmetric] refl refl False refl] "1.prems"(1) nl False step by (simp del: index_byte_None)
      qed
    qed
  qed
qed

section \<open>Heartbeats\<close>

text \<open>The times of a list of events do not decrease, starting at \<open>t\<close>.\<close>

fun hb_time :: "hb_event \<Rightarrow> time" where
  "hb_time (Tick t) = t"
| "hb_time (Activity t) = t"

text \<open>The last activity before the end of a list of events.\<close>

fun last_active :: "time \<Rightarrow> hb_event list \<Rightarrow> time" where
  "last_active t [] = t"
| "last_active t (Activity u # es) = last_active u es"
| "last_active t (Tick _ # es) = last_active t es"

lemma heartbeat_fires:
  "heartbeatWatch timeout t es = Some d \<Longrightarrow> \<exists>pre post. es = pre @ Tick d # post \<and> timeout < d - last_active t pre"
proof (induction timeout t es rule: heartbeatWatch.induct)
  case (2 timeout l t es)
  then obtain pre post where "es = pre @ Tick d # post" "timeout < d - last_active t pre" by auto
  then have "Activity t # es = (Activity t # pre) @ Tick d # post \<and> timeout < d - last_active l (Activity t # pre)" by simp
  then show ?case by blast
next
  case (3 timeout l t es)
  show ?case
  proof (cases "timeout < t - l")
    case True
    then have "Tick t # es = [] @ Tick d # es \<and> timeout < d - last_active l []" using "3.prems" by simp
    then show ?thesis by blast
  next
    case False
    then obtain pre post where "es = pre @ Tick d # post" "timeout < d - last_active l pre" using 3 by auto
    then have "Tick t # es = (Tick t # pre) @ Tick d # post \<and> timeout < d - last_active l (Tick t # pre)" by simp
    then show ?thesis by blast
  qed
qed simp

lemma heartbeat_silent:
  "heartbeatWatch timeout t pre = None \<Longrightarrow> Tick d \<in> set es \<Longrightarrow> timeout < d - last_active t pre \<Longrightarrow> \<forall>u. Activity u \<notin> set es \<Longrightarrow>
   \<exists>d'. heartbeatWatch timeout t (pre @ es) = Some d'"
proof (induction timeout t pre rule: heartbeatWatch.induct)
  case (1 timeout t)
  then show ?case
  proof (induction es)
    case (Cons e es)
    then show ?case by (cases e) auto
  qed simp
qed (auto split: if_splits)

section \<open>Properties\<close>

text \<open>
  C22. Reading a control line does not depend on how the stream is buffered: for every buffer
  size, \<open>readLineCapped\<close> returns the bytes up to and including the first newline exactly when
  they are within the limit and leaves the rest unread, reports \<open>ErrLineTooLong\<close> when they are
  not or when more than the limit arrives without a newline, and fails otherwise; it always
  returns.
\<close>

theorem readLineCapped_exact:
  assumes "0 < n"
  shows "fst (readLineCapped n mx data) = first_line mx data \<and>
    (\<forall>line. fst (readLineCapped n mx data) = Inr line \<longrightarrow> line @ snd (readLineCapped n mx data) = data \<and> length line \<le> mx)"
proof -
  note ex = readLine_loop_exact [OF assms, of "[]" mx data]
  have "length line \<le> mx" if "first_line mx data = Inr line" for line
    using that by (auto simp: first_line_def split: option.splits if_splits)
  then show ?thesis using ex by (simp add: readLineCapped_def)
qed

theorem readLineCapped_exact_witness:
  "fst (readLineCapped 2 5 (''ab'' @ [newline] @ ''cd'')) = Inr (''ab'' @ [newline]) \<and> fst (readLineCapped 2 2 (''abc'' @ [newline])) = Inl ErrLineTooLong"
proof -
  have "first_line 5 (''ab'' @ [newline] @ ''cd'') = Inr (''ab'' @ [newline])" "first_line 2 (''abc'' @ [newline]) = Inl ErrLineTooLong"
    by code_simp+
  then show ?thesis using readLineCapped_exact [of 2 5 "''ab'' @ [newline] @ ''cd''"] readLineCapped_exact [of 2 2 "''abc'' @ [newline]"] by simp
qed

text \<open>
  The heartbeat watcher closes a session only at a tick more than the timeout after the
  session's last activity, and it does close a session that stays silent: any tick later than
  that makes it act.
\<close>

theorem heartbeat_exact:
  "(heartbeatWatch timeout t es = Some d \<longrightarrow> (\<exists>pre post. es = pre @ Tick d # post \<and> timeout < d - last_active t pre)) \<and>
   (heartbeatWatch timeout t pre = None \<longrightarrow> Tick d \<in> set es \<longrightarrow> timeout < d - last_active t pre \<longrightarrow> (\<forall>u. Activity u \<notin> set es) \<longrightarrow>
     (\<exists>d'. heartbeatWatch timeout t (pre @ es) = Some d'))"
  using heartbeat_fires heartbeat_silent by blast

theorem heartbeat_exact_witness:
  "\<exists>d'. heartbeatWatch 60 0 ([Tick 10, Activity 12, Tick 70] @ [Tick 80]) = Some d'"
proof -
  have "heartbeatWatch 60 0 [Tick 10, Activity 12, Tick 70] = None" "last_active 0 [Tick 10, Activity 12, Tick 70] = 12" by code_simp+
  then show ?thesis using heartbeat_exact [of 60 0 _ _ "[Tick 10, Activity 12, Tick 70]"] by simp
qed

text \<open>
  C23. The control channel implements the steps of the route table. Whatever message a session
  sends, \<open>handleControlMsg\<close> either leaves the table alone or performs one step of that session,
  with the label it validated; a register message gets exactly one reply, which carries the name
  it was about (the port when it had none); and only a heartbeat counts as activity.
\<close>

theorem control_refines_steps:
  fixes e :: registry
  assumes "sid \<in> set (sessions e)" and "http_ok (baseDomain e) (hostnames e) http"
    and "handleControlMsg http now now' sid m (la, e) = (ms, (la', e'))"
  shows "(e' = e \<or> edge_step_of sid e e') \<and> (la' = (if m = CtlHeartbeat then now else la)) \<and> length ms \<le> 1 \<and>
    (\<forall>n port. m = CtlRegister n port \<longrightarrow> (\<exists>reply. ms = [reply] \<and>
       (case reply of MsgError c name txt \<Rightarrow> name = (if n = [] then labelFromPort port else n)
        | MsgRegistered name url \<Rightarrow> name = (if n = [] then labelFromPort port else n) | MsgHelloOK _ _ _ _ \<Rightarrow> False)))"
proof (cases m)
  case (CtlRegister n port)
  define name where "name = (if n = [] then labelFromPort port else n)"
  have run: "handleControlMsg http now now' sid m (la, e) = (if \<not> labelRegex name then ([MsgError ''invalid_name'' name []], (la, e))
      else ([registerReply name (fst (register http now now' sid name e))], (la, snd (register http now now' sid name e))))"
    using CtlRegister by (simp add: handleControlMsg_def Let_def name_def split: prod.splits)
  show ?thesis
  proof (cases "labelRegex name")
    case False
    then show ?thesis using assms(3) CtlRegister run by (auto simp: name_def)
  next
    case True
    then have "edge_step_of sid e (snd (register http now now' sid name e))" using assms(1,2) by (intro step_register)
    moreover have "ms = [registerReply name (fst (register http now now' sid name e))]" "la' = la" "e' = snd (register http now now' sid name e)"
      using assms(3) True unfolding run by auto
    moreover have "\<forall>n' port'. m = CtlRegister n' port' \<longrightarrow> (if n' = [] then labelFromPort port' else n') = name"
      using CtlRegister by (simp add: name_def)
    ultimately show ?thesis using CtlRegister by (auto simp: registerReply_def split: sum.splits)
  qed
next
  case (CtlUnregister n)
  then show ?thesis using assms step_unregister [of sid e n] by (auto simp: handleControlMsg_def)
qed (use assms in \<open>auto simp: handleControlMsg_def\<close>)

theorem control_refines_steps_witness:
  "\<exists>ms la' e'. handleControlMsg no_http 5 5 1 (CtlRegister [] 3000) (0, run_open) = (ms, (la', e')) \<and> edge_step_of 1 run_open e' \<and> length ms \<le> 1"
proof -
  let ?r = "handleControlMsg no_http 5 5 1 (CtlRegister [] 3000) (0, run_open)"
  have s: "1 \<in> set (sessions run_open)" and d: "routes (snd (snd ?r)) \<noteq> routes run_open" by code_simp+
  have h: "http_ok (baseDomain run_open) (hostnames run_open) no_http" by (simp add: run_labels)
  have r: "?r = (fst ?r, (fst (snd ?r), snd (snd ?r)))" by (simp only: prod.collapse)
  note cr = control_refines_steps [OF s h r]
  have "edge_step_of 1 run_open (snd (snd ?r))" using conjunct1 [OF cr] d by metis
  moreover have "length (fst ?r) \<le> 1" using cr by blast
  ultimately show ?thesis using r by blast
qed

section \<open>The hello exchange\<close>

lemma refuse_fields:
  assumes "refuse t k r e = ((ms, c, b), e')"
  shows "\<not> b \<and> ed_reg e' = ed_reg e \<and> length ms \<le> 1 \<and> (\<forall>m \<in> set ms. rf_reply r = Some m) \<and>
    ad_authSlots (ed_adm e') = ad_authSlots (ed_adm e) \<and> ad_sessions (ed_adm e') = ad_sessions (ed_adm e) \<and>
    (t \<in> set (ad_preauth (ed_adm e)) \<longrightarrow> t \<notin> set (ad_preauth (ed_adm e')) \<and> ad_preAuthSlots (ed_adm e') = ad_preAuthSlots (ed_adm e) - 1)"
  using assms by (auto simp: refuse_def Let_def releasePreauth_def preauth_leave_def preauth_return_def split: option.splits)

lemma refusal_is_error: "checkHello resolve m = Inl r \<Longrightarrow> rf_reply r = Some msg \<Longrightarrow> \<exists>c txt. msg = MsgError c [] txt"
  by (auto simp: checkHello_def split: first_msg.splits if_splits option.splits)

lemma checkHello_Inr:
  "checkHello resolve m = Inr (slug, h) \<longleftrightarrow> m = GotHello h \<and> h_protoVersion h = ProtoVersion \<and> resolve (h_token h) (h_scope h) = Some slug"
  by (auto simp: checkHello_def split: first_msg.splits if_splits option.splits)


definition ex_hs_edge :: edge where
  "ex_hs_edge = \<lparr>ed_adm = snd (acquirePreauth 7 KindQUIC (newAdmission 4 4 9)), ed_reg = run_open, ed_maxStreamsPerSession = 100\<rparr>"


end
