(* ===== verification/Proxy.thy ===== *)
theory Proxy
  imports Config Control
begin

text \<open>
  The public side of the edge (\<open>src/internal/edge/edge.go\<close>: \<open>handler\<close>, \<open>handleMetrics\<close>,
  \<open>beginProxy\<close>, the error handler and the header rewriting of \<open>proxyFor\<close>, the framing headers;
  \<open>reqevents.go\<close>: \<open>metaFor\<close>, \<open>emitRequest\<close>; \<open>reqlog.go\<close>: \<open>TruncateIP\<close>;
  \<open>single_listener.go\<close>): which requests reach a tunnel, what the operator endpoints give away,
  and what is recorded about a visitor. The reverse proxy of \<open>net/http/httputil\<close> is an argument:
  the way one proxied request ended.
\<close>

section \<open>Requests and configuration\<close>

record request =
  rq_path :: string         \<comment> \<open>\<open>URL.Path\<close>\<close>
  rq_escapedPath :: string  \<comment> \<open>\<open>URL.EscapedPath()\<close>\<close>
  rq_host :: string
  rq_method :: string
  rq_remoteAddr :: string
  rq_userAgent :: string
  rq_referer :: string
  rq_authorization :: string
  rq_contentLength :: int

record edge_conf =
  ec_baseDomain :: string
  ec_metricsToken :: string
  ec_maxRequestBodyBytes :: int
  ec_capPath :: bool
  ec_capClientIP :: bool
  ec_capUserAgent :: bool
  ec_capReferer :: bool
  ec_ipTruncate :: bool

text \<open>The part of \<open>New\<close> that derives the capture flags.\<close>

definition newEdgeConf :: "server \<Rightarrow> edge_conf" where
  "newEdgeConf cfg =
     (case captures (rl_capture (c_requestLog cfg)) of (capPath, capIP, capUA, capRef) \<Rightarrow>
        let off = (rl_ipMode (c_requestLog cfg) = ''off'')
        in \<lparr>ec_baseDomain = c_baseDomain cfg, ec_metricsToken = c_metricsToken cfg,
            ec_maxRequestBodyBytes = c_maxRequestBodyBytes cfg, ec_capPath = capPath, ec_capClientIP = (if off then False else capIP),
            ec_capUserAgent = capUA, ec_capReferer = capRef, ec_ipTruncate = (\<not> off)\<rparr>)"

section \<open>Operator endpoints\<close>

definition host_only :: "string \<Rightarrow> string" where
  "host_only hp = (case split_host_port hp of Some (h, _) \<Rightarrow> h | None \<Rightarrow> hp)"

definition isBaseHost :: "edge_conf \<Rightarrow> string \<Rightarrow> bool" where
  "isBaseHost c hostport = equal_fold (host_only hostport) (ec_baseDomain c)"

definition bearerTokenOK :: "request \<Rightarrow> string \<Rightarrow> bool" where
  "bearerTokenOK r want =
     (let h = rq_authorization r
      in has_prefix ''Bearer '' h \<and> trim_prefix ''Bearer '' h = want)"

datatype metrics_answer = MetricsNotFound | MetricsUnauthorized | MetricsDump

definition handleMetrics :: "edge_conf \<Rightarrow> request \<Rightarrow> metrics_answer" where
  "handleMetrics c r =
     (if ec_metricsToken c = [] then MetricsNotFound
      else if \<not> bearerTokenOK r (ec_metricsToken c) then MetricsUnauthorized
      else MetricsDump)"

section \<open>Visitors' addresses\<close>

text \<open>
  \<open>TruncateIP\<close> on the bytes \<open>net.ParseIP\<close> gives: 16, an IPv4 address being mapped. Parsing and
  printing addresses are arguments.
\<close>

type_synonym ip = "8 word list"

definition v4_mapped :: "ip \<Rightarrow> bool" where
  "v4_mapped b \<longleftrightarrow> take 12 b = replicate 10 0 @ [255, 255]"

definition truncate_bytes :: "ip \<Rightarrow> ip option" where
  "truncate_bytes b =
     (if length b \<noteq> 16 then None
      else if v4_mapped b then Some (b[15 := 0])
      else Some (take 6 b @ replicate 10 0))"

definition truncateIP :: "(string \<Rightarrow> ip option) \<Rightarrow> (ip \<Rightarrow> string) \<Rightarrow> string \<Rightarrow> string" where
  "truncateIP parseIP ipString ip =
     (case parseIP ip of
        None \<Rightarrow> []
      | Some b \<Rightarrow> (case truncate_bytes b of None \<Rightarrow> [] | Some t \<Rightarrow> ipString t))"

section \<open>Events\<close>

record reqMeta =
  me_host :: string
  me_slug :: string
  me_transport :: string
  me_method :: string
  me_path :: string
  me_clientIP :: string
  me_userAgent :: string
  me_referer :: string
  me_started :: time

definition metaFor ::
    "(string \<Rightarrow> ip option) \<Rightarrow> (ip \<Rightarrow> string) \<Rightarrow> edge_conf \<Rightarrow> string \<Rightarrow> string \<Rightarrow> string \<Rightarrow> request \<Rightarrow> time \<Rightarrow> reqMeta" where
  "metaFor parseIP ipString c host slug transport r started =
     \<lparr>me_host = host, me_slug = slug, me_transport = transport, me_method = rq_method r,
      me_path = (if ec_capPath c then rq_escapedPath r else []),
      me_clientIP =
        (if ec_capClientIP c then
           (let ip = host_only (rq_remoteAddr r) in if ec_ipTruncate c then truncateIP parseIP ipString ip else ip)
         else []),
      me_userAgent = (if ec_capUserAgent c then rq_userAgent r else []),
      me_referer = (if ec_capReferer c then rq_referer r else []), me_started = started\<rparr>"

datatype outcome = OutcomeOK | OutcomeNoRoute | OutcomeSizeLimit | OutcomeBackendError

record requestEvent =
  ev_meta :: reqMeta
  ev_status :: int
  ev_outcome :: outcome
  ev_bytesIn :: int64
  ev_bytesOut :: int64
  ev_ttfb :: "time option"

definition emitRequest :: "reqMeta \<Rightarrow> int \<Rightarrow> outcome \<Rightarrow> int64 \<Rightarrow> int64 \<Rightarrow> time option \<Rightarrow> requestEvent" where
  "emitRequest m status oc bytesIn bytesOut firstByteAt =
     \<lparr>ev_meta = m, ev_status = status, ev_outcome = oc, ev_bytesIn = bytesIn, ev_bytesOut = bytesOut,
      ev_ttfb = map_option (\<lambda>t. (t - me_started m) div 1000000) firstByteAt\<rparr>"

section \<open>handler\<close>

text \<open>
  How the reverse proxy ended: a response, an upgrade owned by its heartbeat goroutine, or an
  error given to the error handler at some time (\<open>tooLarge\<close>: a \<open>MaxBytesError\<close>; \<open>gone\<close>: the
  visitor's context ended). \<open>px_in\<close>: request bytes read so far.
\<close>

datatype proxied =
    Response (px_status: int) (px_in: int64) (px_out: int64) (px_first: "time option")
  | Upgraded
  | Failed (px_err: stream_error) (px_tooLarge: bool) (px_gone: bool) (px_in: int64) (px_at: time)

definition json_error :: "string \<Rightarrow> string" where
  "json_error msg = ''{'' @ [CHR 0x22] @ ''error'' @ [CHR 0x22] @ '':'' @ [CHR 0x22] @ msg @ [CHR 0x22] @ ''}''"

text \<open>The status and the line the error handler writes; \<open>None\<close> when it writes nothing.\<close>

definition errorHandler :: "stream_error \<Rightarrow> bool \<Rightarrow> bool \<Rightarrow> (int \<times> string) option" where
  "errorHandler err tooLarge gone =
     (if gone then None
      else if tooLarge then Some (413, ''request body too large'')
      else if err = Admission.ErrCapacity then Some (503, json_error ''tunnel capacity reached'')
      else Some (502, json_error ''bad gateway''))"

datatype answer =
    Healthz | MetricsAnswer metrics_answer | AuthDiscovery
  | Served (an_status: int) (an_route: "route option") (an_event: "requestEvent option")

definition beginProxy :: "bool \<Rightarrow> nat \<Rightarrow> bool \<times> nat" where
  "beginProxy shuttingDown proxyWG = (if shuttingDown then (False, proxyWG) else (True, proxyWG + 1))"

definition outcome_of :: "route option \<Rightarrow> int \<Rightarrow> outcome" where
  "outcome_of rt status =
     (if rt = None then OutcomeNoRoute else if status = 413 then OutcomeSizeLimit else if 500 \<le> status then OutcomeBackendError
      else OutcomeOK)"

text \<open>The event of a finished request: \<open>metaFor\<close>, the outcome, \<open>emitRequest\<close>.\<close>

definition request_event ::
    "(string \<Rightarrow> ip option) \<Rightarrow> (ip \<Rightarrow> string) \<Rightarrow> edge_conf \<Rightarrow> (nat \<Rightarrow> kind) \<Rightarrow> time \<Rightarrow> request \<Rightarrow> registry \<Rightarrow> int \<Rightarrow> int64 \<Rightarrow> int64 \<Rightarrow> time option \<Rightarrow> requestEvent" where
  "request_event parseIP ipString c kinds start r e status bytesIn bytesOut first =
     (let host = host_only (rq_host r);
          rt = map_of (routes e) host;
          slug = (case rt of None \<Rightarrow> [] | Some x \<Rightarrow> s_slug (sess e (rt_session x)));
          transport = (case rt of None \<Rightarrow> [] | Some x \<Rightarrow> if kinds (rt_session x) = KindQUIC then ''quic'' else ''tcp'');
          oc = outcome_of rt status
      in emitRequest (metaFor parseIP ipString c host slug transport r start) status oc bytesIn bytesOut
           (if oc = OutcomeNoRoute then None else first))"

text \<open>The answer of the edge itself: a line of text at time \<open>now\<close>, the request body unread.\<close>

definition line_bytes :: "string \<Rightarrow> int64" where
  "line_bytes line = of_nat (length line + 1)"

definition serveProxied :: "(int \<Rightarrow> int64 \<Rightarrow> int64 \<Rightarrow> time option \<Rightarrow> requestEvent) \<Rightarrow> route \<Rightarrow> proxied \<Rightarrow> answer" where
  "serveProxied event x p =
     (case p of
        Response status i out first \<Rightarrow>
          (let status = (if status = 0 then 200 else status) in Served status (Some x) (Some (event status i out first)))
      | Upgraded \<Rightarrow> Served 101 (Some x) None
      | Failed err tooLarge gone i t \<Rightarrow>
          (case errorHandler err tooLarge gone of
             None \<Rightarrow> Served 200 (Some x) (Some (event 200 i 0 None))
           | Some (status, line) \<Rightarrow> Served status (Some x) (Some (event status i (line_bytes line) (Some t)))))"

text \<open>\<open>an_route\<close> is the route the request was proxied to, if it was.\<close>

definition handler ::
    "(string \<Rightarrow> ip option) \<Rightarrow> (ip \<Rightarrow> string) \<Rightarrow> edge_conf \<Rightarrow> (nat \<Rightarrow> kind) \<Rightarrow> bool \<Rightarrow> time \<Rightarrow> time \<Rightarrow> (route \<Rightarrow> proxied) \<Rightarrow> request \<Rightarrow> registry \<Rightarrow> answer" where
  "handler parseIP ipString c kinds shuttingDown start now proxy r e =
     (if rq_path r = ''/healthz'' then Healthz
      else if rq_path r = ''/metrics'' \<and> isBaseHost c (rq_host r) then MetricsAnswer (handleMetrics c r)
      else if rq_path r = ''/.well-known/beam-auth'' then AuthDiscovery
      else
        (let host = host_only (rq_host r);
             event = request_event parseIP ipString c kinds start r e;
             declaredTooLarge = (0 < ec_maxRequestBodyBytes c \<and> ec_maxRequestBodyBytes c < rq_contentLength r)
         in case map_of (routes e) host of
              None \<Rightarrow> Served 404 None (Some (event 404 0 (line_bytes (''no route for host '' @ host)) (Some now)))
            | Some x \<Rightarrow>
                if declaredTooLarge then Served 413 None (Some (event 413 0 (line_bytes ''request body too large'') (Some now)))
                else if \<not> fst (beginProxy shuttingDown 0) then
                  Served 503 None (Some (event 503 0 (line_bytes (json_error ''edge shutting down'')) (Some now)))
                else serveProxied event x (proxy x)))"

section \<open>Headers\<close>

definition is_blank :: "char \<Rightarrow> bool" where
  "is_blank c \<longleftrightarrow> (of_char c :: nat) = 32 \<or> (of_char c :: nat) = 9"

definition directive_name :: "string \<Rightarrow> string" where
  "directive_name d = takeWhile (\<lambda>c. \<not> is_blank c) d"

definition stripFrameAncestors :: "string \<Rightarrow> string" where
  "stripFrameAncestors csp =
     join_with ''; '' (filter (\<lambda>d. d \<noteq> [] \<and> \<not> equal_fold (directive_name d) ''frame-ancestors'')
       (map (trim_of is_space) (split_on CHR '';'' csp)))"

text \<open>Headers as a map from canonical names; \<open>Get\<close> reads the first value, \<open>Set\<close> replaces all.\<close>

type_synonym headers = "(string, string list) gomap"

definition header_get :: "headers \<Rightarrow> string \<Rightarrow> string" where
  "header_get h k = (case map_of h k of Some (v # _) \<Rightarrow> v | _ \<Rightarrow> [])"

definition relax_csp :: "string \<Rightarrow> headers \<Rightarrow> headers" where
  "relax_csp k h =
     (let csp = header_get h k
      in if csp = [] then h
         else (let relaxed = stripFrameAncestors csp
               in if relaxed = [] then AList.delete k h else AList.update k [relaxed] h))"

definition stripFramingHeaders :: "headers \<Rightarrow> headers" where
  "stripFramingHeaders h =
     relax_csp ''Content-Security-Policy-Report-Only'' (relax_csp ''Content-Security-Policy'' (AList.delete ''X-Frame-Options'' h))"

definition clientIPHeaders :: "string list" where
  "clientIPHeaders = [''Forwarded'', ''Forwarded-For'', ''X-Forwarded'', ''X-Original-Forwarded-For'', ''X-Real-Ip'', ''Client-Ip'',
     ''True-Client-Ip'', ''Cf-Connecting-Ip'', ''Fastly-Client-Ip'', ''X-Client-Ip'', ''X-Cluster-Client-Ip'', ''Proxy-Client-Ip'',
     ''Wl-Proxy-Client-Ip'', ''X-Proxyuser-Ip'']"

text \<open>
  The \<open>Rewrite\<close> function of the proxy. Before it runs \<open>httputil\<close> has removed the inbound
  \<open>Forwarded\<close> and \<open>X-Forwarded-*\<close> headers; \<open>SetXForwarded\<close> sets the latter from the connection
  (\<open>clientIP\<close>, \<open>inHost\<close>).
\<close>

definition rewrite :: "string \<Rightarrow> string \<Rightarrow> headers \<Rightarrow> headers" where
  "rewrite clientIP inHost h =
     (let h = fold AList.delete [''Forwarded'', ''X-Forwarded-For'', ''X-Forwarded-Host'', ''X-Forwarded-Proto''] h;
          h = AList.update ''X-Forwarded-For'' [clientIP] h;
          h = AList.update ''X-Forwarded-Host'' [inHost] h;
          h = AList.update ''X-Forwarded-Proto'' [''https''] h;
          h = fold AList.delete clientIPHeaders h;
          h = AList.update ''X-Forwarded-Proto'' [''https''] h
      in if map_of h ''User-Agent'' = None then AList.update ''User-Agent'' [[]] h else h)"

section \<open>singleConnListener\<close>

record singleConnListener =
  sl_served :: bool
  sl_isClosed :: bool

datatype accepted = AcceptConn | AcceptBlocks | AcceptExhausted

definition sl_accept :: "singleConnListener \<Rightarrow> accepted \<times> singleConnListener" where
  "sl_accept l =
     (if sl_isClosed l then (AcceptExhausted, l)
      else if \<not> sl_served l then (AcceptConn, l\<lparr>sl_served := True\<rparr>)
      else (AcceptBlocks, l))"

definition sl_close :: "singleConnListener \<Rightarrow> singleConnListener" where
  "sl_close l = l\<lparr>sl_isClosed := True\<rparr>"

section \<open>Content security policies\<close>

definition is_frame_ancestors :: "string \<Rightarrow> bool" where
  "is_frame_ancestors d \<longleftrightarrow> equal_fold (directive_name d) ''frame-ancestors''"

definition directives :: "string \<Rightarrow> string list" where
  "directives csp = filter (\<lambda>d. d \<noteq> []) (map (trim_of is_space) (split_on CHR '';'' csp))"

lemma trim_right_id: "s = [] \<or> \<not> P (last s) \<Longrightarrow> trim_right_of P s = s"
  by (cases s rule: rev_cases) (auto simp: trim_right_of_def)

lemma trim_of_id: "s = [] \<or> \<not> P (hd s) \<and> \<not> P (last s) \<Longrightarrow> trim_of P s = s"
  by (cases s) (auto simp: trim_of_def trim_right_id)

lemma hd_dropWhile_not: "dropWhile P s \<noteq> [] \<Longrightarrow> \<not> P (hd (dropWhile P s))"
  by (rule hd_dropWhile)

lemma trim_right_ends: "trim_right_of P s \<noteq> [] \<Longrightarrow> \<not> P (last (trim_right_of P s)) \<and> hd (trim_right_of P s) = hd s"
proof -
  assume ne: "trim_right_of P s \<noteq> []"
  then have l: "\<not> P (last (trim_right_of P s))" using hd_dropWhile [of P "rev s"] by (auto simp: trim_right_of_def last_rev)
  have "\<exists>z. s = trim_right_of P s @ z"
    unfolding trim_right_of_def by (metis rev_append rev_rev_ident takeWhile_dropWhile_id)
  then show ?thesis using l ne by (metis hd_append2)
qed

lemma trim_of_ends: "trim_of P s \<noteq> [] \<Longrightarrow> \<not> P (hd (trim_of P s)) \<and> \<not> P (last (trim_of P s))"
  unfolding trim_of_def using trim_right_ends [of P "dropWhile P s"] hd_dropWhile [of P s]
  by (metis dropWhile.simps(1) rev.simps(1) trim_right_of_def)

lemma trim_of_set: "set (trim_of P s) \<subseteq> set s"
proof
  fix x assume "x \<in> set (trim_of P s)"
  then have "x \<in> set (dropWhile P (rev (dropWhile P s)))" by (simp add: trim_of_def trim_right_of_def)
  then have "x \<in> set (rev (dropWhile P s))" by (rule set_dropWhileD)
  then show "x \<in> set s" unfolding set_rev by (rule set_dropWhileD)
qed

lemma directives_parts:
  assumes "d \<in> set (directives csp)"
  shows "d \<noteq> []" "\<not> is_space (hd d)" "\<not> is_space (last d)" "CHR '';'' \<notin> set d"
proof -
  obtain p where p: "p \<in> set (split_on CHR '';'' csp)" "d = trim_of is_space p" "d \<noteq> []" using assms by (auto simp: directives_def)
  then show "d \<noteq> []" "\<not> is_space (hd d)" "\<not> is_space (last d)" using trim_of_ends [of is_space p] by auto
  show "CHR '';'' \<notin> set d" using p split_on_parts [OF p(1)] trim_of_set [of is_space p] by auto
qed

text \<open>A policy rendered from well-formed directives is read back as them.\<close>

lemma directives_join:
  "\<forall>d \<in> set ds. d \<noteq> [] \<and> \<not> is_space (hd d) \<and> \<not> is_space (last d) \<and> CHR '';'' \<notin> set d \<Longrightarrow> directives (join_with ''; '' ds) = ds"
proof (induction ds)
  case Nil
  then show ?case by (simp add: directives_def trim_of_def trim_right_of_def)
next
  case (Cons x ds)
  show ?case
  proof (cases ds)
    case Nil
    then show ?thesis using Cons.prems by (simp add: directives_def trim_of_id)
  next
    case (Cons y xs)
    have sp: "is_space CHR '' ''" by code_simp
    have semi: "CHR '';'' \<notin> set x" and x: "trim_of is_space x = x" "x \<noteq> []" using Cons.prems by (simp_all add: trim_of_id)
    have "split_on CHR '';'' (join_with ''; '' (x # ds)) = x # split_on CHR '';'' (CHR '' '' # join_with ''; '' ds)"
      using split_on_append [OF semi] Cons by simp
    moreover have "map (trim_of is_space) (split_on CHR '';'' (CHR '' '' # s)) = map (trim_of is_space) (split_on CHR '';'' s)" for s
      by (cases "split_on CHR '';'' s") (auto simp: trim_of_def sp)
    ultimately have "directives (join_with ''; '' (x # ds)) = x # directives (join_with ''; '' ds)"
      using x unfolding directives_def by (simp del: split_on.simps)
    then show ?thesis using Cons.IH Cons.prems by simp
  qed
qed

lemma strip_directives: "directives (stripFrameAncestors csp) = filter (\<lambda>d. \<not> is_frame_ancestors d) (directives csp)"
proof -
  let ?ds = "filter (\<lambda>d. \<not> is_frame_ancestors d) (directives csp)"
  have "stripFrameAncestors csp = join_with ''; '' ?ds"
    unfolding stripFrameAncestors_def directives_def filter_filter is_frame_ancestors_def by (rule arg_cong [where f = "join_with _"]) (auto intro: filter_cong)
  moreover have "\<forall>d \<in> set ?ds. d \<noteq> [] \<and> \<not> is_space (hd d) \<and> \<not> is_space (last d) \<and> CHR '';'' \<notin> set d"
    using directives_parts by auto
  ultimately show ?thesis using directives_join by simp
qed

section \<open>Properties\<close>

text \<open>
  Preview embedding removes exactly the framing rules: read as a list of directives, the
  policy \<open>stripFrameAncestors\<close> returns is the original one without its frame-ancestors
  directives, in the same order, whatever their case, spacing and number; applying it again
  changes nothing.
\<close>

theorem stripFrameAncestors_exact:
  "directives (stripFrameAncestors csp) = filter (\<lambda>d. \<not> is_frame_ancestors d) (directives csp) \<and>
   stripFrameAncestors (stripFrameAncestors csp) = stripFrameAncestors csp"
proof -
  have strip: "stripFrameAncestors c = join_with ''; '' (filter (\<lambda>d. \<not> is_frame_ancestors d) (directives c))" for c
    unfolding stripFrameAncestors_def directives_def filter_filter is_frame_ancestors_def
    by (rule arg_cong [where f = "join_with _"]) (auto intro: filter_cong)
  show ?thesis using strip_directives [of csp] strip [of csp] strip [of "stripFrameAncestors csp"] by simp
qed

text \<open>What the handler answers, by cases.\<close>

lemma event_fields:
  "ev_status (request_event parseIP ipString c kinds start r e status i out first) = status"
  "ev_outcome (request_event parseIP ipString c kinds start r e status i out first) = outcome_of (map_of (routes e) (host_only (rq_host r))) status"
  "\<exists>slug tr. ev_meta (request_event parseIP ipString c kinds start r e status i out first) =
     metaFor parseIP ipString c (host_only (rq_host r)) slug tr r start"
  by (auto simp: request_event_def Let_def emitRequest_def)

lemma serveProxied_Served:
  "\<exists>status ev. serveProxied event x p = Served status (Some x) ev \<and> (ev = None \<longleftrightarrow> p = Upgraded) \<and>
     (\<forall>v. ev = Some v \<longrightarrow> (\<exists>i out first. v = event status i out first))"
  by (cases p) (auto simp: serveProxied_def Let_def split: option.splits)

lemma handler_Served_eq:
  assumes "handler parseIP ipString c kinds sd start now proxy r e = Served status rt ev"
  shows "(case map_of (routes e) (host_only (rq_host r)) of
      None \<Rightarrow> Served 404 None (Some (request_event parseIP ipString c kinds start r e 404 0 (line_bytes (''no route for host '' @ host_only (rq_host r))) (Some now)))
    | Some x \<Rightarrow>
        if 0 < ec_maxRequestBodyBytes c \<and> ec_maxRequestBodyBytes c < rq_contentLength r
        then Served 413 None (Some (request_event parseIP ipString c kinds start r e 413 0 (line_bytes ''request body too large'') (Some now)))
        else if sd then Served 503 None (Some (request_event parseIP ipString c kinds start r e 503 0 (line_bytes (json_error ''edge shutting down'')) (Some now)))
        else serveProxied (request_event parseIP ipString c kinds start r e) x (proxy x)) = Served status rt ev"
proof -
  have b: "fst (beginProxy sd 0) = (\<not> sd)" by (simp add: beginProxy_def)
  show ?thesis using assms unfolding handler_def Let_def b not_not by (simp only: answer.distinct if_False split: if_splits)
qed

lemma serveProxied_not_metrics: "serveProxied event x p \<noteq> MetricsAnswer m"
  by (cases p) (auto simp: serveProxied_def Let_def split: option.splits)

lemma handler_metrics:
  "handler parseIP ipString c kinds sd start now proxy r e = MetricsAnswer m \<Longrightarrow> isBaseHost c (rq_host r) \<and> m = handleMetrics c r"
  unfolding handler_def Let_def by (simp add: serveProxied_not_metrics split: if_splits option.splits)

lemma handler_cases [consumes 1, case_names refused proxied]:
  assumes "handler parseIP ipString c kinds sd start now proxy r e = Served status rt ev"
  obtains (refused) i out first where "rt = None" "ev = Some (request_event parseIP ipString c kinds start r e status i out first)"
      "map_of (routes e) (host_only (rq_host r)) = None \<longrightarrow> status = 404"
  | (proxied) x where "rt = Some x" "map_of (routes e) (host_only (rq_host r)) = Some x" "\<not> sd"
      "\<not> (0 < ec_maxRequestBodyBytes c \<and> ec_maxRequestBodyBytes c < rq_contentLength r)"
      "serveProxied (request_event parseIP ipString c kinds start r e) x (proxy x) = Served status rt ev"
proof (cases "map_of (routes e) (host_only (rq_host r))")
  case None
  then show ?thesis using handler_Served_eq [OF assms] by (auto intro: refused)
next
  case (Some x)
  note eq = handler_Served_eq [OF assms, unfolded Some option.case]
  show ?thesis
  proof (cases "(0 < ec_maxRequestBodyBytes c \<and> ec_maxRequestBodyBytes c < rq_contentLength r) \<or> sd")
    case True
    then show ?thesis using eq Some by (auto intro: refused split: if_splits)
  next
    case False
    then have sp: "serveProxied (request_event parseIP ipString c kinds start r e) x (proxy x) = Served status rt ev" using eq by auto
    then have "rt = Some x" using serveProxied_Served [of "request_event parseIP ipString c kinds start r e" x "proxy x"] by auto
    then show ?thesis using proxied Some False sp by blast
  qed
qed

lemma handler_served:
  assumes "handler parseIP ipString c kinds sd start now proxy r e = Served status rt ev"
  shows "(ev = None \<longleftrightarrow> (\<exists>x. rt = Some x \<and> proxy x = Upgraded)) \<and>
    (\<forall>v. ev = Some v \<longrightarrow> (\<exists>i out first. v = request_event parseIP ipString c kinds start r e status i out first))"
  using assms
proof (cases rule: handler_cases)
  case (proxied x)
  then show ?thesis using serveProxied_Served [of "request_event parseIP ipString c kinds start r e" x "proxy x"] by auto
qed auto


definition ex_request :: request where
  "ex_request = \<lparr>rq_path = ''/x'', rq_escapedPath = ''/x'', rq_host = ''x.b.io:8443'', rq_method = ''GET'', rq_remoteAddr = ''1.2.3.4:5'',
     rq_userAgent = ''ua'', rq_referer = [], rq_authorization = [], rq_contentLength = 5\<rparr>"

definition ex_conf :: edge_conf where
  "ex_conf = \<lparr>ec_baseDomain = ''b.io'', ec_metricsToken = ''tok'', ec_maxRequestBodyBytes = 10, ec_capPath = True, ec_capClientIP = True,
     ec_capUserAgent = True, ec_capReferer = True, ec_ipTruncate = True\<rparr>"


text \<open>
  C26. The operator endpoints leak nothing and visitors stay anonymous. The metrics dump is
  served only on the base domain itself and only to a request that carries the configured,
  non-empty token; on any other host \<open>/metrics\<close> belongs to the tunnel. And with the capture flags
  the edge derives from any configuration, the address in every event is empty or the printed
  form of an address whose host bits (the last byte of an IPv4, the last ten of an IPv6 address)
  are zero, however addresses are parsed and printed.
\<close>

theorem operator_and_privacy:
  assumes "c = newEdgeConf cfg" and "handler parseIP ipString c kinds sd start now proxy r e = a"
  shows "(a = MetricsAnswer MetricsDump \<longrightarrow> equal_fold (host_only (rq_host r)) (c_baseDomain cfg) \<and> c_metricsToken cfg \<noteq> [] \<and>
      rq_authorization r = ''Bearer '' @ c_metricsToken cfg) \<and>
    (\<forall>status rt v. a = Served status rt (Some v) \<longrightarrow> me_clientIP (ev_meta v) = [] \<or>
      (\<exists>b. length b = 16 \<and> me_clientIP (ev_meta v) = ipString b \<and> b ! 15 = 0 \<and> (\<not> v4_mapped b \<longrightarrow> drop 6 b = replicate 10 0)))"
proof -
  have conf: "ec_baseDomain c = c_baseDomain cfg" "ec_metricsToken c = c_metricsToken cfg" "ec_capClientIP c \<Longrightarrow> ec_ipTruncate c"
    using assms(1) by (auto simp: newEdgeConf_def captures_def Let_def)
  have tok: "rq_authorization r = ''Bearer '' @ w" if "bearerTokenOK r w" for w
    using that has_prefix_iff [of "''Bearer ''" "rq_authorization r"] by (auto simp: bearerTokenOK_def Let_def simp del: append_Cons append_Nil)
  have dump: "equal_fold (host_only (rq_host r)) (c_baseDomain cfg) \<and> c_metricsToken cfg \<noteq> [] \<and> rq_authorization r = ''Bearer '' @ c_metricsToken cfg"
    if "a = MetricsAnswer MetricsDump"
    using handler_metrics [OF assms(2) [unfolded that]] tok [of "ec_metricsToken c"] conf
    by (auto simp: isBaseHost_def handleMetrics_def split: if_splits)
  have trunc: "s = [] \<or> (\<exists>b. length b = 16 \<and> s = ipString b \<and> b ! 15 = 0 \<and> (\<not> v4_mapped b \<longrightarrow> drop 6 b = replicate 10 0))"
    if "s = truncateIP parseIP ipString x" for s x
  proof (cases "parseIP x")
    case None
    then show ?thesis using that by (simp add: truncateIP_def)
  next
    case (Some b)
    show ?thesis
    proof (cases "length b = 16")
      case False
      then show ?thesis using that Some by (simp add: truncateIP_def truncate_bytes_def)
    next
      case True
      show ?thesis
      proof (cases "v4_mapped b")
        case v4: True
        then have "v4_mapped (b[15 := 0])" by (simp add: v4_mapped_def)
        then show ?thesis using that Some True v4 by (intro disjI2 exI [of _ "b[15 := 0]"]) (simp add: truncateIP_def truncate_bytes_def)
      next
        case False
        then show ?thesis using that Some True
          by (intro disjI2 exI [of _ "take 6 b @ replicate 10 0"]) (simp add: truncateIP_def truncate_bytes_def nth_append)
      qed
    qed
  qed
  have "me_clientIP (ev_meta v) = [] \<or> (\<exists>b. length b = 16 \<and> me_clientIP (ev_meta v) = ipString b \<and> b ! 15 = 0 \<and> (\<not> v4_mapped b \<longrightarrow> drop 6 b = replicate 10 0))"
    if s: "a = Served status rt (Some v)" for status rt v
  proof -
    obtain slug tr where m: "ev_meta v = metaFor parseIP ipString c (host_only (rq_host r)) slug tr r start"
      using handler_served [OF assms(2) [unfolded s]] event_fields(3) by metis
    show ?thesis unfolding m using conf(3) trunc [OF refl, of "host_only (rq_remoteAddr r)"] by (simp add: metaFor_def Let_def)
  qed
  then show ?thesis using dump by blast
qed

theorem operator_and_privacy_witness:
  "handler (\<lambda>_. Some (replicate 10 0 @ [255, 255, 1, 2, 3, 4])) (\<lambda>b. map (\<lambda>x. char_of (unat x)) (drop 12 b)) (newEdgeConf (zero_server\<lparr>c_baseDomain := ''b.io'', c_metricsToken := ''t''\<rparr>))
      (\<lambda>_. KindTCP) False 0 1 (\<lambda>_. Upgraded) (ex_request\<lparr>rq_path := ''/metrics'', rq_host := ''B.io'', rq_authorization := ''Bearer t''\<rparr>) run_serving =
     MetricsAnswer MetricsDump \<and> ''Bearer t'' = ''Bearer '' @ ''t''"
proof -
  let ?c = "newEdgeConf (zero_server\<lparr>c_baseDomain := ''b.io'', c_metricsToken := ''t''\<rparr>)"
  let ?r = "ex_request\<lparr>rq_path := ''/metrics'', rq_host := ''B.io'', rq_authorization := ''Bearer t''\<rparr>"
  let ?a = "handler (\<lambda>_. Some (replicate 10 0 @ [255, 255, 1, 2, 3, 4])) (\<lambda>b. map (\<lambda>x. char_of (unat x)) (drop 12 b)) ?c (\<lambda>_. KindTCP) False 0 1 (\<lambda>_. Upgraded) ?r run_serving"
  have "isBaseHost ?c ''B.io''" "handleMetrics ?c ?r = MetricsDump" by code_simp+
  then have a: "?a = MetricsAnswer MetricsDump" by (simp add: handler_def)
  show ?thesis using operator_and_privacy [OF refl refl, of "\<lambda>_. Some (replicate 10 0 @ [255, 255, 1, 2, 3, 4])" "\<lambda>b. map (\<lambda>x. char_of (unat x)) (drop 12 b)"
      "zero_server\<lparr>c_baseDomain := ''b.io'', c_metricsToken := ''t''\<rparr>" "\<lambda>_. KindTCP" False 0 1 "\<lambda>_. Upgraded" ?r run_serving] a by auto
qed

text \<open>Two behaviours of the handler worth knowing: a visitor who goes away is recorded as a successful request,
  and routing is case-sensitive although the operator endpoints are not.\<close>

lemma visitor_gone_recorded_ok:
  "\<exists>v. handler (\<lambda>_. None) (\<lambda>_. []) ex_conf (\<lambda>_. KindTCP) False 0 1 (\<lambda>_. Failed Canceled False True 3 2) ex_request run_serving =
     Served 200 (map_of (routes run_serving) ''x.b.io'') (Some v) \<and> ev_outcome v = OutcomeOK"
proof -
  let ?a = "handler (\<lambda>_. None) (\<lambda>_. []) ex_conf (\<lambda>_. KindTCP) False 0 1 (\<lambda>_. Failed Canceled False True 3 2) ex_request run_serving"
  have "case ?a of Served st rt (Some v) \<Rightarrow> st = 200 \<and> rt = map_of (routes run_serving) ''x.b.io'' \<and> ev_outcome v = OutcomeOK | _ \<Rightarrow> False" by code_simp
  then show ?thesis by (auto split: answer.splits option.splits)
qed

lemma route_case_sensitive:
  "map_of (routes run_serving) ''x.b.io'' \<noteq> None \<and>
   (case handler (\<lambda>_. None) (\<lambda>_. []) ex_conf (\<lambda>_. KindTCP) False 0 1 (\<lambda>_. Upgraded) (ex_request\<lparr>rq_host := ''X.b.io''\<rparr>) run_serving of
      Served st rt ev \<Rightarrow> st = 404 | _ \<Rightarrow> False)"
  by code_simp

end
