(* ===== verification/Quic.thy ===== *)
theory Quic
  imports Tunnel
begin

text \<open>
  The QUIC adapter (\<open>src/internal/tunnel/quic.go\<close>, \<open>quic_stream.go\<close>): how a failed dial and a
  closed connection are classified, the dialer over resolved addresses, who closes a session
  and what the peer is told, the two directions of a stream, handshake attempts, and the server
  keys on disk. \<open>quic-go\<close> is not modelled: its errors are given by what \<open>errors.Is\<close> and
  \<open>errors.As\<close> report about them, its calls are recorded.
\<close>

section \<open>Errors of quic-go\<close>

datatype transport_code = NoViablePathError | ConnectionRefused | TransportCode nat

record err_view =
  ev_deadline :: bool            \<comment> \<open>\<open>context.DeadlineExceeded\<close>\<close>
  ev_canceled :: bool            \<comment> \<open>\<open>context.Canceled\<close>\<close>
  ev_noAddresses :: bool         \<comment> \<open>\<open>errNoResolvedAddresses\<close>\<close>
  ev_netClosed :: bool           \<comment> \<open>\<open>net.ErrClosed\<close>\<close>
  ev_serverClosed :: bool        \<comment> \<open>\<open>quic.ErrServerClosed\<close>\<close>
  ev_certificate :: bool         \<comment> \<open>one of the four certificate errors\<close>
  ev_handshakeTimeout :: bool
  ev_idleTimeout :: bool
  ev_statelessReset :: bool
  ev_versionNegotiation :: bool
  ev_transport :: "(transport_code \<times> bool) option"      \<comment> \<open>code and \<open>Remote\<close>\<close>
  ev_application :: "(nat \<times> bool \<times> string) option"      \<comment> \<open>code, \<open>Remote\<close>, message\<close>
  ev_net :: "bool option"        \<comment> \<open>a \<open>net.Error\<close> and its \<open>Timeout()\<close>\<close>

definition plain_error :: err_view where
  "plain_error = \<lparr>ev_deadline = False, ev_canceled = False, ev_noAddresses = False, ev_netClosed = False, ev_serverClosed = False,
     ev_certificate = False, ev_handshakeTimeout = False, ev_idleTimeout = False, ev_statelessReset = False,
     ev_versionNegotiation = False, ev_transport = None, ev_application = None, ev_net = None\<rparr>"

text \<open>The cause of a closed connection: the error and its view.\<close>

definition closeInfoFromQUIC :: "(go_error \<times> err_view) option \<Rightarrow> closeInfo" where
  "closeInfoFromQUIC c =
     (case c of
        None \<Rightarrow> zero_info\<lparr>ci_reason := ''other''\<rparr>
      | Some (err, v) \<Rightarrow>
          (let info = zero_info\<lparr>ci_cause := Some err, ci_reason := ''other''\<rparr>
           in case ev_application v of
                Some (code, remote, msg) \<Rightarrow> info\<lparr>ci_code := code, ci_codeValid := True, ci_remote := remote, ci_reason := msg\<rparr>
              | None \<Rightarrow>
                  if ev_idleTimeout v then info\<lparr>ci_reason := ''idle''\<rparr>
                  else if ev_statelessReset v then info\<lparr>ci_reason := ''network''\<rparr>
                  else (case ev_transport v of
                          Some (code, remote) \<Rightarrow>
                            info\<lparr>ci_remote := remote,
                                 ci_reason := (if code = NoViablePathError \<or> code = ConnectionRefused then ''network'' else ''protocol'')\<rparr>
                        | None \<Rightarrow>
                            if ev_versionNegotiation v then info\<lparr>ci_reason := ''protocol''\<rparr>
                            else if ev_net v \<noteq> None then info\<lparr>ci_reason := ''network''\<rparr>
                            else info)))"

section \<open>Dialing\<close>

datatype dialCategory = DialNetwork | DialTimeout | DialHandshake | DialTerminal

record dialFailure =
  df_category :: dialCategory
  df_address :: string
  df_err :: err_view

definition fallbackEligible :: "dialFailure \<Rightarrow> bool" where
  "fallbackEligible f \<longleftrightarrow> df_category f \<noteq> DialTerminal"

definition dial_category :: "err_view \<Rightarrow> dialCategory" where
  "dial_category v =
     (if ev_deadline v then DialTimeout
      else if ev_canceled v then DialTerminal
      else if ev_noAddresses v then DialNetwork
      else if ev_certificate v then DialTerminal
      else if ev_handshakeTimeout v then DialTimeout
      else if ev_statelessReset v then DialNetwork
      else if ev_versionNegotiation v then DialHandshake
      else (case ev_transport v of
              Some (code, remote) \<Rightarrow>
                (case code of
                   NoViablePathError \<Rightarrow> DialNetwork
                 | ConnectionRefused \<Rightarrow> DialNetwork
                 | TransportCode n \<Rightarrow> if 0x100 \<le> n \<and> n \<le> 0x1ff then DialTerminal else DialHandshake)
            | None \<Rightarrow>
                (case ev_net v of
                   Some timeout \<Rightarrow> if timeout then DialTimeout else DialNetwork
                 | None \<Rightarrow> DialTerminal)))"

definition quic_classifyDialFailure :: "string \<Rightarrow> err_view \<Rightarrow> dialFailure" where
  "quic_classifyDialFailure address v = \<lparr>df_category = dial_category v, df_address = address, df_err = v\<rparr>"

text \<open>
  \<open>parseAddr\<close>: \<open>netip.ParseAddr\<close> and the canonical text; \<open>lookup\<close>: the resolver's addresses with
  their zones. \<open>net.JoinHostPort\<close> brackets a host with a colon.
\<close>

definition join_host_port :: "string \<Rightarrow> string \<Rightarrow> string" where
  "join_host_port host port =
     (if CHR '':'' \<in> set host then ''['' @ host @ '']:'' @ port else host @ '':'' @ port)"

definition resolve_addrs ::
    "(string \<Rightarrow> string option) \<Rightarrow> (string \<Rightarrow> err_view + (string \<times> string) list) \<Rightarrow> string \<Rightarrow> string \<Rightarrow> err_view + string list" where
  "resolve_addrs parseAddr lookup host port =
     (case parseAddr host of
        Some ip \<Rightarrow> Inr [join_host_port ip port]
      | None \<Rightarrow>
          (case lookup host of
             Inl err \<Rightarrow> Inl err
           | Inr ips \<Rightarrow>
               (let addresses = map (\<lambda>(ip, zone). join_host_port (if zone \<noteq> [] then ip @ ''%'' @ zone else ip) port) ips
                in if addresses = [] then Inl (plain_error\<lparr>ev_noAddresses := True\<rparr>) else Inr addresses)))"

definition quic_resolve ::
    "(string \<Rightarrow> string option) \<Rightarrow> (string \<Rightarrow> err_view + (string \<times> string) list) \<Rightarrow> string \<Rightarrow> dialFailure + string \<times> string list" where
  "quic_resolve parseAddr lookup address =
     (case split_host_port address of
        None \<Rightarrow> Inl \<lparr>df_category = DialTerminal, df_address = address, df_err = plain_error\<rparr>
      | Some (host, port) \<Rightarrow>
          (case resolve_addrs parseAddr lookup host port of
             Inl err \<Rightarrow> Inl (quic_classifyDialFailure address err)
           | Inr addresses \<Rightarrow> Inr (host, addresses)))"

text \<open>\<open>ctxErr\<close>: the context's error when the address is tried; \<open>conn\<close>: the connection or why there is none.\<close>

definition dialResolved :: "(string \<Rightarrow> err_view option) \<Rightarrow> (string \<Rightarrow> err_view + 'conn) \<Rightarrow> string \<Rightarrow> dialFailure + 'conn" where
  "dialResolved ctxErr dialAddr a =
     (case ctxErr a of
        Some err \<Rightarrow> Inl (quic_classifyDialFailure a err)
      | None \<Rightarrow> (case dialAddr a of Inl err \<Rightarrow> Inl (quic_classifyDialFailure a err) | Inr c \<Rightarrow> Inr c))"

text \<open>The loop of \<open>Dial\<close>, with the addresses it has dialed.\<close>

fun dial_loop :: "(string \<Rightarrow> dialFailure + 'conn) \<Rightarrow> string \<Rightarrow> dialFailure option \<Rightarrow> string list \<Rightarrow> (dialFailure + 'conn) \<times> string list" where
  "dial_loop dial address lastFailure [] =
     (Inl (case lastFailure of
             Some f \<Rightarrow> f
           | None \<Rightarrow> \<lparr>df_category = DialNetwork, df_address = address, df_err = plain_error\<lparr>ev_noAddresses := True\<rparr>\<rparr>), [])"
| "dial_loop dial address lastFailure (a # rest) =
     (case dial a of
        Inr c \<Rightarrow> (Inr c, [a])
      | Inl f \<Rightarrow>
          if df_category f \<noteq> DialNetwork then (Inl f, [a])
          else (case dial_loop dial address (Some f) rest of (r, tried) \<Rightarrow> (r, a # tried)))"

definition quic_dial ::
    "(string \<Rightarrow> string option) \<Rightarrow> (string \<Rightarrow> err_view + (string \<times> string) list) \<Rightarrow> (string \<Rightarrow> err_view option) \<Rightarrow>
     (string \<Rightarrow> err_view + 'conn) \<Rightarrow> string \<Rightarrow> (dialFailure + 'conn) \<times> string list" where
  "quic_dial parseAddr lookup ctxErr dialAddr address =
     (case quic_resolve parseAddr lookup address of
        Inl f \<Rightarrow> (Inl f, [])
      | Inr (host, addresses) \<Rightarrow> dial_loop (dialResolved ctxErr dialAddr) address None addresses)"

section \<open>Closing a session\<close>

text \<open>
  A call of \<open>CloseWithError\<close> reads the connection's cause, claims the session, tells the peer and
  finishes; other calls and the end of the connection fall in between. The loop of \<open>finish\<close> over
  the streams is that of theory \<open>Tunnel\<close>.
\<close>

datatype qphase = QChecked | QClaimed | QSent | QReturned

record quicSession =
  q_state :: sessionState
  q_cause :: "(go_error \<times> err_view) option"   \<comment> \<open>\<open>context.Cause\<close> of the connection\<close>
  q_calls :: "((nat \<times> string) \<times> qphase) list"
  q_sent :: "(nat \<times> string) list"             \<comment> \<open>calls of the connection's own \<open>CloseWithError\<close>\<close>

definition newQUICSession :: quicSession where
  "newQUICSession = \<lparr>q_state = newSessionState, q_cause = None, q_calls = [], q_sent = []\<rparr>"

definition local_close :: "nat \<Rightarrow> string \<Rightarrow> closeInfo" where
  "local_close code reason = zero_info\<lparr>ci_code := code, ci_codeValid := True, ci_reason := reason\<rparr>"

definition q_finish :: "closeInfo \<Rightarrow> quicSession \<Rightarrow> quicSession" where
  "q_finish info q = q\<lparr>q_state := snd (finish_locked info (q_state q))\<rparr>"

definition call_at :: "qphase \<Rightarrow> nat \<Rightarrow> quicSession \<Rightarrow> bool" where
  "call_at p i q \<longleftrightarrow> i < length (q_calls q) \<and> snd (q_calls q ! i) = p"

definition go_call :: "nat \<Rightarrow> qphase \<Rightarrow> quicSession \<Rightarrow> quicSession" where
  "go_call i p q = q\<lparr>q_calls := (q_calls q)[i := (fst (q_calls q ! i), p)]\<rparr>"

datatype q_label =
    QClose nat string | QClaim nat | QSend nat | QFinish nat
  | ConnEnds go_error err_view | QWatch

fun q_step :: "q_label \<Rightarrow> quicSession \<Rightarrow> quicSession option" where
  "q_step (QClose code reason) q =
     Some (if q_cause q \<noteq> None
           then (q_finish (closeInfoFromQUIC (q_cause q)) q)\<lparr>q_calls := q_calls q @ [((code, reason), QReturned)]\<rparr>
           else q\<lparr>q_calls := q_calls q @ [((code, reason), QChecked)]\<rparr>)"
| "q_step (QClaim i) q =
     (if call_at QChecked i q then
        (case claim (local_close (fst (fst (q_calls q ! i))) (snd (fst (q_calls q ! i)))) (q_state q) of (ok, st) \<Rightarrow>
           Some (go_call i (if ok then QClaimed else QReturned) (q\<lparr>q_state := st\<rparr>)))
      else None)"
| "q_step (QSend i) q =
     (if call_at QClaimed i q then
        Some (go_call i QSent (q\<lparr>q_sent := q_sent q @ [(fst (fst (q_calls q ! i)), sanitizeReason (snd (fst (q_calls q ! i))))]\<rparr>))
      else None)"
| "q_step (QFinish i) q =
     (if call_at QSent i q then
        Some (go_call i QReturned (q_finish (local_close (fst (fst (q_calls q ! i))) (snd (fst (q_calls q ! i)))) q))
      else None)"
| "q_step (ConnEnds err v) q = (if q_cause q = None then Some (q\<lparr>q_cause := Some (err, v)\<rparr>) else None)"
| "q_step QWatch q = (if q_cause q \<noteq> None then Some (q_finish (closeInfoFromQUIC (q_cause q)) q) else None)"

fun q_run :: "q_label list \<Rightarrow> quicSession \<Rightarrow> quicSession option" where
  "q_run [] q = Some q"
| "q_run (l # ls) q = (case q_step l q of None \<Rightarrow> None | Some q' \<Rightarrow> q_run ls q')"

section \<open>Opening and accepting streams\<close>

text \<open>
  What an open meets: the caller's context error, the cause of the derived context (with the
  open timeout), the raw result, and whether the connection's context has ended.
\<close>

record stream_env =
  oe_ctx :: "go_error option"
  oe_cause :: "go_error option"
  oe_raw :: "(go_error \<times> err_view) option"   \<comment> \<open>the error of \<open>OpenStreamSync\<close> or \<open>AcceptStream\<close>\<close>
  oe_connEnded :: bool

definition normalizeSessionError :: "bool \<Rightarrow> go_error \<times> err_view \<Rightarrow> go_error" where
  "normalizeSessionError connEnded e =
     (if connEnded \<or> ev_netClosed (snd e) then Wrap Tunnel.ErrSessionClosed (fst e) else fst e)"

definition derivedOpenError :: "go_error option \<Rightarrow> go_error \<Rightarrow> go_error" where
  "derivedOpenError caller cause =
     (case caller of Some err \<Rightarrow> err | None \<Rightarrow> if err_is cause Tunnel.ErrOpenTimeout then Tunnel.ErrOpenTimeout else cause)"

definition registerQUICStream :: "nat \<Rightarrow> sessionState \<Rightarrow> (go_error + nat) \<times> sessionState" where
  "registerQUICStream i st =
     (case register_child i st of (ok, st') \<Rightarrow> if ok then (Inr i, st') else (Inl Tunnel.ErrSessionClosed, st'))"

definition quic_openStream :: "stream_env \<Rightarrow> nat \<Rightarrow> sessionState \<Rightarrow> (go_error + nat) \<times> sessionState" where
  "quic_openStream env i st =
     (case oe_raw env of
        Some e \<Rightarrow>
          (Inl (case oe_ctx env of
                  Some err \<Rightarrow> err
                | None \<Rightarrow>
                    (case oe_cause env of
                       Some cause \<Rightarrow> if err_is cause Tunnel.ErrOpenTimeout then Tunnel.ErrOpenTimeout else normalizeSessionError (oe_connEnded env) e
                     | None \<Rightarrow> normalizeSessionError (oe_connEnded env) e)), st)
      | None \<Rightarrow>
          (case oe_cause env of
             Some cause \<Rightarrow> (Inl (derivedOpenError (oe_ctx env) cause), st)
           | None \<Rightarrow> registerQUICStream i st))"

definition quic_acceptStream :: "stream_env \<Rightarrow> nat \<Rightarrow> sessionState \<Rightarrow> (go_error + nat) \<times> sessionState" where
  "quic_acceptStream env i st =
     (case oe_raw env of
        Some e \<Rightarrow> (Inl (case oe_ctx env of Some err \<Rightarrow> err | None \<Rightarrow> normalizeSessionError (oe_connEnded env) e), st)
      | None \<Rightarrow> registerQUICStream i st)"

lemma quic_stream_registered:
  assumes "quic_openStream env i st = (r, st')"
  shows "(\<forall>j. r = Inr j \<longrightarrow> j = i \<and> i \<in> set (ss_children st') \<and> \<not> ss_terminal st' \<and> oe_cause env = None) \<and> (\<forall>e. r = Inl e \<longrightarrow> st' = st)"
  using assms by (auto simp: quic_openStream_def registerQUICStream_def register_child_def split: option.splits prod.splits if_splits)

section \<open>A stream\<close>

datatype sendState = SendOpen | SendFIN | SendReset

datatype raw_call = RawWrite | RawClose | RawCancelWrite nat | RawCancelRead nat

record quicStream =
  qs_send :: sendState
  qs_receive :: bool           \<comment> \<open>\<open>receiveTerminal\<close>\<close>
  qs_writing :: bool           \<comment> \<open>a \<open>Write\<close> holds \<open>writeMu\<close>\<close>
  qs_done :: nat               \<comment> \<open>how often \<open>childDone\<close> has run\<close>
  qs_raw :: "raw_call list"    \<comment> \<open>calls on the stream of quic-go, in order\<close>

definition newQUICStream :: quicStream where
  "newQUICStream = \<lparr>qs_send = SendOpen, qs_receive = False, qs_writing = False, qs_done = 0, qs_raw = []\<rparr>"

definition completeLocked :: "quicStream \<Rightarrow> quicStream" where
  "completeLocked s = (if qs_done s = 0 then s\<lparr>qs_done := 1\<rparr> else s)"

definition maybeCompleteLocked :: "quicStream \<Rightarrow> quicStream" where
  "maybeCompleteLocked s = (if qs_send s \<noteq> SendOpen \<and> qs_receive s then completeLocked s else s)"

definition raw_log :: "raw_call \<Rightarrow> quicStream \<Rightarrow> quicStream" where
  "raw_log c s = s\<lparr>qs_raw := qs_raw s @ [c]\<rparr>"

definition closeWriteLocked :: "quicStream \<Rightarrow> quicStream" where
  "closeWriteLocked s =
     (case qs_send s of
        SendOpen \<Rightarrow> maybeCompleteLocked (raw_log RawClose (s\<lparr>qs_send := SendFIN\<rparr>))
      | _ \<Rightarrow> s)"

definition qs_abort :: "nat \<Rightarrow> quicStream \<Rightarrow> quicStream" where
  "qs_abort code s =
     (let s = (if qs_send s \<noteq> SendReset then raw_log (RawCancelWrite code) (s\<lparr>qs_send := SendReset\<rparr>) else s);
          s = raw_log (RawCancelRead code) s
      in completeLocked (s\<lparr>qs_receive := True\<rparr>))"

definition StreamCanceled :: nat where "StreamCanceled = 16"
definition StreamCapacity :: nat where "StreamCapacity = 17"

text \<open>The second part of \<open>Close\<close>, after \<open>closeWriteLocked\<close>.\<close>

definition close_receive :: "quicStream \<Rightarrow> quicStream" where
  "close_receive s = maybeCompleteLocked ((raw_log (RawCancelRead StreamCanceled) s)\<lparr>qs_receive := True\<rparr>)"

definition markReceiveTerminal :: "quicStream \<Rightarrow> quicStream" where
  "markReceiveTerminal s = maybeCompleteLocked (s\<lparr>qs_receive := True\<rparr>)"

definition parentTerminated :: "quicStream \<Rightarrow> quicStream" where
  "parentTerminated s = completeLocked (s\<lparr>qs_send := SendReset, qs_receive := True\<rparr>)"

text \<open>\<open>receiveErrorIsTerminal\<close> on a read error.\<close>

definition receiveErrorIsTerminal :: "go_error \<Rightarrow> bool" where
  "receiveErrorIsTerminal err \<longleftrightarrow> err_is err EOF \<or> err_is err Tunnel.ErrSessionClosed \<or> as_net_error err \<noteq> Some True"

datatype qs_label = WriteBegin | WriteEnd | CloseSend | CloseRest | AbortWith nat | ReadFails go_error | ParentEnds

fun qs_step :: "qs_label \<Rightarrow> quicStream \<Rightarrow> quicStream option" where
  "qs_step WriteBegin s =
     (if qs_writing s then None
      else Some (if qs_send s = SendOpen then raw_log RawWrite (s\<lparr>qs_writing := True\<rparr>) else s))"
| "qs_step WriteEnd s = (if qs_writing s then Some (s\<lparr>qs_writing := False\<rparr>) else None)"
| "qs_step CloseSend s = (if qs_writing s then None else Some (closeWriteLocked s))"
| "qs_step CloseRest s = Some (close_receive s)"
| "qs_step (AbortWith code) s = Some (qs_abort code s)"
| "qs_step (ReadFails err) s = Some (if receiveErrorIsTerminal err then markReceiveTerminal s else s)"
| "qs_step ParentEnds s = Some (parentTerminated s)"

fun qs_run :: "qs_label list \<Rightarrow> quicStream \<Rightarrow> quicStream option" where
  "qs_run [] s = Some s"
| "qs_run (l # ls) s = (case qs_step l s of None \<Rightarrow> None | Some s' \<Rightarrow> qs_run ls s')"

section \<open>Handshake attempts\<close>

record quicAttempt =
  qa_resolved :: bool
  qa_accepted :: bool
  qa_observed :: "err_view list"

definition newQUICAttempt :: quicAttempt where
  "newQUICAttempt = \<lparr>qa_resolved = False, qa_accepted = False, qa_observed = []\<rparr>"

definition markAccepted :: "quicAttempt \<Rightarrow> bool \<times> quicAttempt" where
  "markAccepted a =
     (if qa_resolved a then (qa_accepted a, a) else (True, a\<lparr>qa_resolved := True, qa_accepted := True\<rparr>))"

definition observeQUICError :: "err_view \<Rightarrow> quicAttempt \<Rightarrow> quicAttempt" where
  "observeQUICError v a =
     (if ev_canceled v \<or> ev_netClosed v \<or> ev_serverClosed v then a else a\<lparr>qa_observed := qa_observed a @ [v]\<rparr>)"

text \<open>The watcher, when the connection's context ends with a cause.\<close>

definition attempt_watch :: "err_view \<Rightarrow> quicAttempt \<Rightarrow> quicAttempt" where
  "attempt_watch v a = (if qa_resolved a then a else observeQUICError v (a\<lparr>qa_resolved := True\<rparr>))"

section \<open>Server keys\<close>

text \<open>
  Files by path; \<open>io\<close> says which call of the operating system fails. \<open>random\<close> is what
  \<open>rand.Read\<close> gives, \<open>temp\<close> the name \<open>os.CreateTemp\<close> chooses.
\<close>

record key_file =
  kf_regular :: bool
  kf_mode :: nat
  kf_data :: "8 word list"

datatype key_error = NotRegular | BadMode nat | ReadKeyFails | BadLength nat | GenerateFails | WriteKeyFails | MkdirFails

record key_io =
  ki_stat :: bool       \<comment> \<open>\<open>os.Stat\<close> fails other than with \<open>ErrNotExist\<close>\<close>
  ki_read :: bool
  ki_random :: bool
  ki_create :: bool     \<comment> \<open>\<open>os.CreateTemp\<close>\<close>
  ki_write :: bool      \<comment> \<open>\<open>Chmod\<close>, \<open>Write\<close>, \<open>Sync\<close> or \<open>Close\<close>\<close>
  ki_rename :: bool

definition key_io_ok :: key_io where
  "key_io_ok = \<lparr>ki_stat = False, ki_read = False, ki_random = False, ki_create = False, ki_write = False, ki_rename = False\<rparr>"

definition writeQUICKeyAtomic ::
    "key_io \<Rightarrow> string \<Rightarrow> string \<Rightarrow> 8 word list \<Rightarrow> (string, key_file) gomap \<Rightarrow> key_error option \<times> (string, key_file) gomap" where
  "writeQUICKeyAtomic io temp path data fs =
     (if ki_create io then (Some WriteKeyFails, fs)
      else (let file = \<lparr>kf_regular = True, kf_mode = 384, kf_data = data\<rparr>;
                fs1 = AList.update temp file fs
            in if ki_write io \<or> ki_rename io then (Some WriteKeyFails, AList.delete temp fs1)
               else (None, AList.update path file (AList.delete temp fs1))))"

definition loadOrCreateQUICKey ::
    "key_io \<Rightarrow> 8 word list \<Rightarrow> string \<Rightarrow> string \<Rightarrow> (string, key_file) gomap \<Rightarrow> (key_error + 8 word list) \<times> (string, key_file) gomap" where
  "loadOrCreateQUICKey io random temp path fs =
     (if ki_stat io then (Inl ReadKeyFails, fs)
      else (case map_of fs path of
              Some f \<Rightarrow>
                (if \<not> kf_regular f then Inl NotRegular
                 else if kf_mode f \<noteq> 384 then Inl (BadMode (kf_mode f))
                 else if ki_read io then Inl ReadKeyFails
                 else if length (kf_data f) \<noteq> 32 then Inl (BadLength (length (kf_data f)))
                 else Inr (kf_data f), fs)
            | None \<Rightarrow>
                if ki_random io then (Inl GenerateFails, fs)
                else (case writeQUICKeyAtomic io temp path random fs of
                        (Some err, fs') \<Rightarrow> (Inl err, fs')
                      | (None, fs') \<Rightarrow> (Inr random, fs'))))"

definition statelessResetKeyFile :: string where "statelessResetKeyFile = ''quic-stateless-reset.key''"
definition tokenGeneratorKeyFile :: string where "tokenGeneratorKeyFile = ''quic-token-generator.key''"

definition loadQUICServerKeys ::
    "bool \<Rightarrow> (string \<Rightarrow> key_io) \<Rightarrow> (string \<Rightarrow> 8 word list) \<Rightarrow> (string \<Rightarrow> string) \<Rightarrow> string \<Rightarrow> (string, key_file) gomap \<Rightarrow>
     (key_error + 8 word list \<times> 8 word list) \<times> (string, key_file) gomap" where
  "loadQUICServerKeys mkdirFails io random temp dataDir fs =
     (if mkdirFails then (Inl MkdirFails, fs)
      else (let resetPath = dataDir @ ''/'' @ statelessResetKeyFile; tokenPath = dataDir @ ''/'' @ tokenGeneratorKeyFile
            in case loadOrCreateQUICKey (io resetPath) (random resetPath) (temp resetPath) resetPath fs of
                 (Inl err, fs) \<Rightarrow> (Inl err, fs)
               | (Inr reset, fs) \<Rightarrow>
                   (case loadOrCreateQUICKey (io tokenPath) (random tokenPath) (temp tokenPath) tokenPath fs of
                      (Inl err, fs) \<Rightarrow> (Inl err, fs)
                    | (Inr token, fs) \<Rightarrow> (Inr (reset, token), fs))))"

section \<open>Closing: lemmas\<close>

definition told :: "(nat \<times> string) \<Rightarrow> closeInfo" where
  "told c = local_close (fst c) (sanitizeReason (snd c))"

text \<open>At most one call is past its claim and not yet finished, or has been sent; what it says is recorded.\<close>

definition q_winner :: "quicSession \<Rightarrow> nat \<Rightarrow> bool" where
  "q_winner q i \<longleftrightarrow> call_at QClaimed i q \<or> call_at QSent i q"

definition q_inv :: "quicSession \<Rightarrow> bool" where
  "q_inv q \<longleftrightarrow>
     (\<forall>i. q_winner q i \<longrightarrow> ss_terminal (q_state q) \<and> ss_info (q_state q) = told (fst (q_calls q ! i))) \<and>
     (\<forall>i j. call_at QClaimed i q \<longrightarrow> q_winner q j \<longrightarrow> i = j) \<and>
     (\<forall>i. call_at QClaimed i q \<longrightarrow> q_sent q = []) \<and>
     (\<forall>c \<in> set (q_sent q). ss_terminal (q_state q) \<and> ss_info (q_state q) = local_close (fst c) (snd c)) \<and>
     length (q_sent q) \<le> 1 \<and> (ss_finished (q_state q) \<longrightarrow> ss_terminal (q_state q))"

lemma q_finish_keeps:
  "ss_terminal (q_state q) \<Longrightarrow> ss_terminal (q_state (q_finish info q)) \<and> ss_info (q_state (q_finish info q)) = ss_info (q_state q)"
  by (simp add: q_finish_def finish_locked_def Let_def)

lemma q_finish_frame [simp]: "q_calls (q_finish info q) = q_calls q" "q_sent (q_finish info q) = q_sent q" "q_cause (q_finish info q) = q_cause q"
  by (simp_all add: q_finish_def)

lemma call_at_append: "call_at p i (q\<lparr>q_calls := q_calls q @ [(c, p')]\<rparr>) \<longleftrightarrow> call_at p i q \<or> (i = length (q_calls q) \<and> p = p')"
  by (auto simp: call_at_def nth_append less_Suc_eq)

lemma call_at_go: "i < length (q_calls q) \<Longrightarrow> call_at p j (go_call i p' q) \<longleftrightarrow> (if j = i then p = p' else call_at p j q)"
  by (auto simp: call_at_def go_call_def nth_list_update)

lemma fst_go_call [simp]: "fst (q_calls (go_call i p q) ! j) = fst (q_calls q ! j)"
  by (cases "i < length (q_calls q)"; cases "i = j") (auto simp: go_call_def list_update_beyond)

lemma go_call_frame [simp]: "q_state (go_call i p q) = q_state q" "q_sent (go_call i p q) = q_sent q" "q_cause (go_call i p q) = q_cause q"
  by (simp_all add: go_call_def)

lemma claim_result: "claim info st = (ok, st') \<Longrightarrow>
    (ok \<longrightarrow> \<not> ss_terminal st \<and> ss_terminal st' \<and> ss_info st' = info\<lparr>ci_reason := sanitizeReason (ci_reason info)\<rparr>) \<and> (\<not> ok \<longrightarrow> ss_terminal st \<and> st' = st)"
  by (auto simp: claim_def Let_def split: if_splits)

lemma winner_finish [simp]: "call_at p i (q_finish info q) = call_at p i q"
  by (simp add: call_at_def)

lemma q_finish_finished: "ss_finished (q_state q) \<longrightarrow> ss_terminal (q_state q) \<Longrightarrow>
    ss_finished (q_state (q_finish info q)) \<longrightarrow> ss_terminal (q_state (q_finish info q))"
  by (simp add: q_finish_def finish_locked_def Let_def)

lemma q_inv_finish: "q_inv q \<Longrightarrow> ss_terminal (q_state q) \<or> (\<forall>i. \<not> q_winner q i) \<and> q_sent q = [] \<Longrightarrow> q_inv (q_finish info q)"
  using q_finish_keeps [of q info] q_finish_finished [of q info] by (auto simp: q_inv_def q_winner_def)

lemma q_inv_idle: "q_inv q \<Longrightarrow> ss_terminal (q_state q) \<or> (\<forall>i. \<not> q_winner q i) \<and> q_sent q = []"
  by (cases "q_sent q") (auto simp: q_inv_def)

lemma q_inv_call:
  assumes "q_inv q" and "p = QChecked \<or> p = QReturned"
  shows "q_inv (q\<lparr>q_calls := q_calls q @ [(c, p)]\<rparr>)"
proof -
  have w: "q_winner (q\<lparr>q_calls := q_calls q @ [(c, p)]\<rparr>) i = q_winner q i"
    "call_at QClaimed i (q\<lparr>q_calls := q_calls q @ [(c, p)]\<rparr>) = call_at QClaimed i q" for i
    using assms(2) by (auto simp: q_winner_def call_at_append)
  have nth: "q_winner q i \<Longrightarrow> (q_calls q @ [(c, p)]) ! i = q_calls q ! i" for i by (auto simp: q_winner_def call_at_def nth_append)
  show ?thesis using assms(1) nth unfolding q_inv_def w by auto
qed

lemma q_inv_step:
  assumes "q_step l q = Some q'" and inv: "q_inv q"
  shows "q_inv q'"
proof (cases l)
  case (QClose code reason)
  have fin: "q_inv (q_finish info q)" for info by (rule q_inv_finish [OF inv q_inv_idle [OF inv]])
  show ?thesis using assms(1) q_inv_call [OF inv] q_inv_call [OF fin] unfolding QClose by (auto split: if_splits)
next
  case (QClaim i)
  obtain c where at: "call_at QChecked i q" and c: "c = fst (q_calls q ! i)" using assms(1) QClaim by (auto split: if_splits)
  then have i: "i < length (q_calls q)" by (simp add: call_at_def)
  obtain ok st where cl: "claim (local_close (fst c) (snd c)) (q_state q) = (ok, st)" by fastforce
  have q': "q' = go_call i (if ok then QClaimed else QReturned) (q\<lparr>q_state := st\<rparr>)" using assms(1) at cl c QClaim by auto
  have at': "call_at p j q' \<longleftrightarrow> (if j = i then p = (if ok then QClaimed else QReturned) else call_at p j q)" for p j
    using call_at_go [of i "q\<lparr>q_state := st\<rparr>"] i unfolding q' by (auto simp: call_at_def)
  have ni: "\<not> q_winner q i" using at by (auto simp: q_winner_def call_at_def)
  show ?thesis
  proof (cases ok)
    case True
    then have st: "\<not> ss_terminal (q_state q)" "ss_terminal st" "ss_info st = told c"
      using claim_result [OF cl] by (auto simp: told_def local_close_def)
    then have idle: "\<forall>j. \<not> q_winner q j" "q_sent q = []" using q_inv_idle [OF inv] by auto
    have w: "q_winner q' j \<longleftrightarrow> j = i" "call_at QClaimed j q' \<longleftrightarrow> j = i" for j using at' [of _ j] idle(1) True by (auto simp: q_winner_def)
    show ?thesis unfolding q_inv_def w using st idle c by (simp add: q')
  next
    case False
    then have st: "st = q_state q" using claim_result [OF cl] by simp
    have w: "q_winner q' j \<longleftrightarrow> q_winner q j" "call_at QClaimed j q' \<longleftrightarrow> call_at QClaimed j q" for j
      using at' [of _ j] False ni by (auto simp: q_winner_def)
    show ?thesis using inv unfolding q_inv_def w by (simp add: q' st)
  qed
next
  case (QSend i)
  have at: "call_at QClaimed i q" using assms(1) QSend by (auto split: if_splits)
  then have i: "i < length (q_calls q)" by (simp add: call_at_def)
  let ?c = "fst (q_calls q ! i)"
  have q': "q' = go_call i QSent (q\<lparr>q_sent := [(fst ?c, sanitizeReason (snd ?c))]\<rparr>)" and sent: "q_sent q = []"
    using assms(1) at inv QSend by (auto simp: q_inv_def)
  have at': "call_at p j q' \<longleftrightarrow> (if j = i then p = QSent else call_at p j q)" for p j
    using call_at_go [of i "q\<lparr>q_sent := [(fst ?c, sanitizeReason (snd ?c))]\<rparr>"] i unfolding q' by (auto simp: call_at_def)
  have w: "q_winner q' j \<longleftrightarrow> j = i" "\<not> call_at QClaimed j q'" for j using at' [of _ j] at inv by (auto simp: q_winner_def q_inv_def)
  have "ss_terminal (q_state q) \<and> ss_info (q_state q) = told ?c" using at inv by (auto simp: q_inv_def q_winner_def)
  then show ?thesis unfolding q_inv_def w(1) using w(2) by (simp add: q' told_def)
next
  case (QFinish i)
  have at: "call_at QSent i q" using assms(1) QFinish by (auto split: if_splits)
  then have i: "i < length (q_calls q)" by (simp add: call_at_def)
  let ?q = "q_finish (local_close (fst (fst (q_calls q ! i))) (snd (fst (q_calls q ! i)))) q"
  have q': "q' = go_call i QReturned ?q" using assms(1) at QFinish by auto
  have inv': "q_inv ?q" by (rule q_inv_finish [OF inv q_inv_idle [OF inv]])
  have at': "call_at p j q' \<longleftrightarrow> (if j = i then p = QReturned else call_at p j ?q)" for p j
    using call_at_go [of i ?q] i unfolding q' by auto
  have w: "q_winner q' j \<longrightarrow> q_winner ?q j" "call_at QClaimed j q' \<longrightarrow> call_at QClaimed j ?q" for j using at' [of _ j] by (auto simp: q_winner_def)
  show ?thesis using inv' w unfolding q_inv_def by (simp add: q') blast
next
  case (ConnEnds err v)
  then have "q' = q\<lparr>q_cause := Some (err, v)\<rparr>" using assms(1) by (auto split: if_splits)
  then show ?thesis using inv by (simp add: q_inv_def q_winner_def call_at_def)
next
  case QWatch
  then show ?thesis using assms(1) q_inv_finish [OF inv q_inv_idle [OF inv]] by (auto split: if_splits)
qed

lemma q_inv_run: "q_run ls q = Some q' \<Longrightarrow> q_inv q \<Longrightarrow> q_inv q'"
  by (induction ls arbitrary: q) (auto split: option.splits dest: q_inv_step)

lemma q_inv_new: "q_inv newQUICSession"
  by (simp add: q_inv_def q_winner_def call_at_def newQUICSession_def newSessionState_def)

text \<open>A connection that has ended before anyone read its cause.\<close>

definition q_ended :: "go_error \<times> err_view \<Rightarrow> quicSession \<Rightarrow> bool" where
  "q_ended c q \<longleftrightarrow> q_cause q = Some c \<and> (ss_finished (q_state q) \<longrightarrow> ss_terminal (q_state q)) \<and> (\<forall>i. call_at QReturned i q \<or> length (q_calls q) \<le> i) \<and> q_sent q = [] \<and>
     (ss_terminal (q_state q) \<longrightarrow> ss_info (q_state q) = (let i = closeInfoFromQUIC (Some c) in i\<lparr>ci_reason := sanitizeReason (ci_reason i)\<rparr>))"

lemma q_ended_finish: "q_ended c q \<Longrightarrow> q_ended c (q_finish (closeInfoFromQUIC (Some c)) q) \<and> ss_terminal (q_state (q_finish (closeInfoFromQUIC (Some c)) q))"
  by (auto simp: q_ended_def q_finish_def finish_locked_def Let_def call_at_def)

lemma q_ended_idle: "q_ended c q \<Longrightarrow> p \<noteq> QReturned \<Longrightarrow> \<not> call_at p i q"
  by (auto simp: q_ended_def call_at_def dest: spec [of _ i])

lemma q_ended_step: "q_step l q = Some q' \<Longrightarrow> q_ended c q \<Longrightarrow> q_ended c q'"
proof (cases l)
  case (QClose code reason)
  assume s: "q_step l q = Some q'" and e: "q_ended c q"
  then have "q_cause q = Some c" by (simp add: q_ended_def)
  then have "q' = (q_finish (closeInfoFromQUIC (Some c)) q)\<lparr>q_calls := q_calls q @ [((code, reason), QReturned)]\<rparr>" using s QClose by auto
  moreover have "q_ended c (q_finish (closeInfoFromQUIC (Some c)) q)" using q_ended_finish [OF e] by blast
  ultimately show ?thesis by (auto simp: q_ended_def call_at_def nth_append less_Suc_eq not_le)
next
  case QWatch
  assume s: "q_step l q = Some q'" and e: "q_ended c q"
  then show ?thesis using q_ended_finish [OF e] QWatch by (auto simp: q_ended_def split: if_splits)
next
  case (QClaim i)
  assume "q_step l q = Some q'" and "q_ended c q"
  then show ?thesis using q_ended_idle [of c q QChecked i] QClaim by simp
next
  case (QSend i)
  assume "q_step l q = Some q'" and "q_ended c q"
  then show ?thesis using q_ended_idle [of c q QClaimed i] QSend by simp
next
  case (QFinish i)
  assume "q_step l q = Some q'" and "q_ended c q"
  then show ?thesis using q_ended_idle [of c q QSent i] QFinish by simp
next
  case (ConnEnds err v)
  assume "q_step l q = Some q'" and "q_ended c q"
  then show ?thesis using ConnEnds by (simp add: q_ended_def)
qed

lemma q_ended_run: "q_run ls q = Some q' \<Longrightarrow> q_ended c q \<Longrightarrow> q_ended c q'"
  by (induction ls arbitrary: q) (auto split: option.splits dest: q_ended_step)

section \<open>Streams: lemmas\<close>

text \<open>The use of a stream that \<open>quic-go\<close> allows: no write and no close after a close or a reset, one reset.\<close>

fun raw_use :: "sendState \<Rightarrow> raw_call list \<Rightarrow> sendState option" where
  "raw_use st [] = Some st"
| "raw_use st (RawWrite # cs) = (if st = SendOpen then raw_use st cs else None)"
| "raw_use st (RawClose # cs) = (if st = SendOpen then raw_use SendFIN cs else None)"
| "raw_use st (RawCancelWrite code # cs) = (if st \<noteq> SendReset then raw_use SendReset cs else None)"
| "raw_use st (RawCancelRead code # cs) = raw_use st cs"

lemma raw_use_append: "raw_use st (xs @ ys) = (case raw_use st xs of None \<Rightarrow> None | Some st' \<Rightarrow> raw_use st' ys)"
  by (induction st xs rule: raw_use.induct) auto

definition qs_inv :: "quicStream \<Rightarrow> bool" where
  "qs_inv s \<longleftrightarrow> qs_done s = (if qs_send s \<noteq> SendOpen \<and> qs_receive s then 1 else 0) \<and>
     (\<exists>st. raw_use SendOpen (qs_raw s) = Some st \<and> (st = qs_send s \<or> qs_send s = SendReset)) \<and>
     \<not> (qs_writing s \<and> qs_send s = SendFIN)"

lemmas qs_defs = completeLocked_def maybeCompleteLocked_def raw_log_def closeWriteLocked_def qs_abort_def close_receive_def
  markReceiveTerminal_def parentTerminated_def

lemma qs_inv_step: "qs_step l s = Some s' \<Longrightarrow> qs_inv s \<Longrightarrow> qs_inv s'"
  by (cases l; cases "qs_send s")
    (auto simp: qs_inv_def qs_defs raw_use_append Let_def split: if_splits)

lemma qs_inv_run: "qs_run ls s = Some s' \<Longrightarrow> qs_inv s \<Longrightarrow> qs_inv s'"
  by (induction ls arbitrary: s) (auto split: option.splits dest: qs_inv_step)

lemma qs_inv_new: "qs_inv newQUICStream"
  by (simp add: qs_inv_def newQUICStream_def)

section \<open>Keys: lemmas\<close>

lemma loadOrCreate_persist:
  assumes "loadOrCreateQUICKey io random temp path fs = (Inr key, fs')" and "length random = 32" and "temp \<noteq> path"
  shows "length key = 32 \<and> map_of fs' path = Some \<lparr>kf_regular = True, kf_mode = 384, kf_data = key\<rparr> \<and>
    (\<forall>p. p \<noteq> path \<and> p \<noteq> temp \<longrightarrow> map_of fs' p = map_of fs p) \<and> (map_of fs path \<noteq> None \<longrightarrow> fs' = fs)"
  using assms by (cases "map_of fs path") (auto simp: loadOrCreateQUICKey_def writeQUICKeyAtomic_def Let_def split: if_splits)

lemma loadOrCreate_again:
  assumes "map_of fs path = Some \<lparr>kf_regular = True, kf_mode = 384, kf_data = key\<rparr>" and "length key = 32" and "\<not> ki_stat io" and "\<not> ki_read io"
  shows "loadOrCreateQUICKey io random temp path fs = (Inr key, fs)"
  using assms by (simp add: loadOrCreateQUICKey_def)

lemma loadOrCreate_fails:
  assumes "loadOrCreateQUICKey io random temp path fs = (Inl err, fs')" and "map_of fs temp = None"
  shows "map_of fs' = map_of fs"
  using assms by (cases "map_of fs path") (auto simp: loadOrCreateQUICKey_def writeQUICKeyAtomic_def Let_def split: if_splits)

lemma key_paths_differ: "dataDir @ ''/'' @ statelessResetKeyFile \<noteq> dataDir @ ''/'' @ tokenGeneratorKeyFile"
  by (simp add: statelessResetKeyFile_def tokenGeneratorKeyFile_def)

section \<open>Attempts and dialing: lemmas\<close>

text \<open>An attempt is dispatched or reported, never both, whichever of the two comes first.\<close>

lemma attempt_once:
  assumes "qa_resolved a \<longrightarrow> (qa_accepted a \<longleftrightarrow> qa_observed a = [])" and "\<not> qa_resolved a \<longrightarrow> a = newQUICAttempt"
    and "\<not> ev_canceled v" and "\<not> ev_netClosed v" and "\<not> ev_serverClosed v"
  shows "fst (markAccepted (attempt_watch v a)) \<longleftrightarrow> qa_observed (attempt_watch v a) = []"
    and "qa_observed (attempt_watch v (snd (markAccepted a))) = [] \<longleftrightarrow> fst (markAccepted a)"
  using assms by (auto simp: markAccepted_def attempt_watch_def observeQUICError_def newQUICAttempt_def)

text \<open>Another address is dialed only after an address-specific failure of every one before it.\<close>

lemma dial_loop_exact:
  "dial_loop dial address lf as = (r, tried) \<Longrightarrow>
    (\<exists>rest. as = tried @ rest) \<and>
    (\<forall>a \<in> set (butlast tried). \<exists>f. dial a = Inl f \<and> df_category f = DialNetwork) \<and>
    (\<forall>c. r = Inr c \<longrightarrow> tried \<noteq> [] \<and> dial (last tried) = Inr c) \<and>
    (\<forall>f. r = Inl f \<longrightarrow> df_category f = DialNetwork \<and> tried = as \<or> lf = Some f \<and> as = [] \<or> tried \<noteq> [] \<and> dial (last tried) = Inl f)"
proof (induction as arbitrary: lf r tried)
  case (Cons a as)
  show ?case
  proof (cases "dial a")
    case (Inr c)
    then show ?thesis using Cons.prems by auto
  next
    case (Inl f)
    show ?thesis
    proof (cases "df_category f = DialNetwork")
      case False
      then show ?thesis using Cons.prems Inl by auto
    next
      case True
      obtain r' t' where rec: "dial_loop dial address (Some f) as = (r', t')" by fastforce
      then have rt: "r = r'" "tried = a # t'" using Cons.prems Inl True by auto
      have ih: "\<exists>rest. as = t' @ rest" "\<forall>a \<in> set (butlast t'). \<exists>f. dial a = Inl f \<and> df_category f = DialNetwork"
        "\<forall>c. r' = Inr c \<longrightarrow> t' \<noteq> [] \<and> dial (last t') = Inr c"
        "\<forall>g. r' = Inl g \<longrightarrow> df_category g = DialNetwork \<and> t' = as \<or> Some f = Some g \<and> as = [] \<or> t' \<noteq> [] \<and> dial (last t') = Inl g"
        using Cons.IH [OF rec] by blast+
      show ?thesis using ih True Inl unfolding rt by (cases t') auto
    qed
  qed
qed (auto split: option.splits)

section \<open>Properties\<close>

text \<open>
  C37. Both ends agree on why a QUIC session ended: however concurrent calls of \<open>CloseWithError\<close>,
  the end of the connection and its watcher interleave, the peer is told at most one close, and
  a close it is told is the close information recorded here. And an end of the connection that
  came first is kept: if no call has read the cause before, no local close is sent afterwards and
  the information is that of the connection, so a rejection by the peer is not overwritten by
  the cleanup of the client.
\<close>

theorem quic_close_agrees:
  assumes "q_run ls newQUICSession = Some q"
  shows "length (q_sent q) \<le> 1 \<and>
    (\<forall>(code, reason) \<in> set (q_sent q). ss_terminal (q_state q) \<and> ss_info (q_state q) = local_close code reason) \<and>
    (\<forall>c ls' q'. q_cause q = Some c \<and> \<not> ss_terminal (q_state q) \<and> (\<forall>(call, p) \<in> set (q_calls q). p = QReturned) \<and> q_run ls' q = Some q' \<longrightarrow>
       q_sent q' = [] \<and>
       (ss_terminal (q_state q') \<longrightarrow>
          ss_info (q_state q') = (closeInfoFromQUIC (Some c))\<lparr>ci_reason := sanitizeReason (ci_reason (closeInfoFromQUIC (Some c)))\<rparr>))"
proof -
  have inv: "q_inv q" by (rule q_inv_run [OF assms q_inv_new])
  have "q_ended c q'" if "q_cause q = Some c" "\<not> ss_terminal (q_state q)" "\<forall>(call, p) \<in> set (q_calls q). p = QReturned" "q_run ls' q = Some q'" for c ls' q'
  proof -
    have "snd (q_calls q ! i) = QReturned" if "i < length (q_calls q)" for i
      using \<open>\<forall>(call, p) \<in> set (q_calls q). p = QReturned\<close> nth_mem [OF that] by (cases "q_calls q ! i") auto
    then have "q_ended c q" using that(1,2) q_inv_idle [OF inv] inv by (auto simp: q_ended_def call_at_def q_inv_def not_le)
    then show ?thesis by (rule q_ended_run [OF that(4)])
  qed
  then have "q_sent q' = [] \<and> (ss_terminal (q_state q') \<longrightarrow>
      ss_info (q_state q') = (closeInfoFromQUIC (Some c))\<lparr>ci_reason := sanitizeReason (ci_reason (closeInfoFromQUIC (Some c)))\<rparr>)"
    if "q_cause q = Some c \<and> \<not> ss_terminal (q_state q) \<and> (\<forall>(call, p) \<in> set (q_calls q). p = QReturned) \<and> q_run ls' q = Some q'" for c ls' q'
    using that unfolding q_ended_def Let_def by blast
  moreover have "length (q_sent q) \<le> 1" "\<forall>(code, reason) \<in> set (q_sent q). ss_terminal (q_state q) \<and> ss_info (q_state q) = local_close code reason"
    using inv by (auto simp: q_inv_def)
  ultimately show ?thesis by blast
qed

definition ex_cause :: "go_error \<times> err_view" where
  "ex_cause = (ErrorText ''rejected'', plain_error\<lparr>ev_application := Some (3, True, ''authentication rejected'')\<rparr>)"

theorem quic_close_agrees_witness:
  "\<exists>q q'. q_run [ConnEnds (fst ex_cause) (snd ex_cause)] newQUICSession = Some q \<and>
     q_run [QClose 0 ''candidate cleanup'', QWatch] q = Some q' \<and> q_sent q' = [] \<and>
     ci_code (ss_info (q_state q')) = 3 \<and> ci_remote (ss_info (q_state q'))"
proof -
  let ?q = "newQUICSession\<lparr>q_cause := Some ex_cause\<rparr>"
  have q: "q_run [ConnEnds (fst ex_cause) (snd ex_cause)] newQUICSession = Some ?q" by (simp add: newQUICSession_def)
  have "map_option (\<lambda>q. ss_terminal (q_state q)) (q_run [QClose 0 ''candidate cleanup'', QWatch] ?q) = Some True" by code_simp
  then obtain q' where q': "q_run [QClose 0 ''candidate cleanup'', QWatch] ?q = Some q'" "ss_terminal (q_state q')" by auto
  have pre: "q_cause ?q = Some ex_cause \<and> \<not> ss_terminal (q_state ?q) \<and> (\<forall>(call, p) \<in> set (q_calls ?q). p = QReturned) \<and>
      q_run [QClose 0 ''candidate cleanup'', QWatch] ?q = Some q'"
    using q'(1) by (simp add: newQUICSession_def newSessionState_def)
  have "q_sent q' = [] \<and> ss_info (q_state q') = (closeInfoFromQUIC (Some ex_cause))\<lparr>ci_reason := sanitizeReason (ci_reason (closeInfoFromQUIC (Some ex_cause)))\<rparr>"
    using quic_close_agrees [OF q] pre q'(2) by blast
  then show ?thesis using q q'(1) by (auto simp: closeInfoFromQUIC_def ex_cause_def plain_error_def zero_info_def)
qed



text \<open>
  C39. The server keys survive restarts: once they have been loaded, both are regular files of mode
  0600 with 32 bytes, every other file is as it was, and any later start that can read them gets
  the same keys, whatever its random generator gives, and writes nothing.
\<close>

theorem quic_keys_persist:
  assumes "loadQUICServerKeys mk io random temp dataDir fs = (Inr keys, fs')"
    and "\<And>p. length (random p) = 32" and "\<And>p. temp p \<notin> {dataDir @ ''/'' @ statelessResetKeyFile, dataDir @ ''/'' @ tokenGeneratorKeyFile}"
    and "\<And>p. \<not> ki_stat (io' p) \<and> \<not> ki_read (io' p)"
  shows "loadQUICServerKeys False io' random' temp' dataDir fs' = (Inr keys, fs') \<and>
    length (fst keys) = 32 \<and> length (snd keys) = 32 \<and>
    map_of fs' (dataDir @ ''/'' @ statelessResetKeyFile) = Some \<lparr>kf_regular = True, kf_mode = 384, kf_data = fst keys\<rparr> \<and>
    map_of fs' (dataDir @ ''/'' @ tokenGeneratorKeyFile) = Some \<lparr>kf_regular = True, kf_mode = 384, kf_data = snd keys\<rparr> \<and>
    (\<forall>p. p \<notin> range temp \<and> p \<notin> {dataDir @ ''/'' @ statelessResetKeyFile, dataDir @ ''/'' @ tokenGeneratorKeyFile} \<longrightarrow> map_of fs' p = map_of fs p)"
proof -
  define r where "r = dataDir @ ''/'' @ statelessResetKeyFile"
  define t where "t = dataDir @ ''/'' @ tokenGeneratorKeyFile"
  have rt: "r \<noteq> t" using key_paths_differ by (simp add: r_def t_def)
  have tmp: "temp p \<noteq> r" "temp p \<noteq> t" for p using assms(3) by (auto simp: r_def t_def)
  have unf: "loadQUICServerKeys mk io random temp dataDir fs =
      (if mk then (Inl MkdirFails, fs)
       else case loadOrCreateQUICKey (io r) (random r) (temp r) r fs of
          (Inl err, fs) \<Rightarrow> (Inl err, fs)
        | (Inr reset, fs) \<Rightarrow> (case loadOrCreateQUICKey (io t) (random t) (temp t) t fs of (Inl err, fs) \<Rightarrow> (Inl err, fs) | (Inr token, fs) \<Rightarrow> (Inr (reset, token), fs)))"
    for mk io random temp fs
    unfolding loadQUICServerKeys_def r_def t_def Let_def by (rule refl)
  obtain k1 k2 fs1 where a: "loadOrCreateQUICKey (io r) (random r) (temp r) r fs = (Inr k1, fs1)"
    and b: "loadOrCreateQUICKey (io t) (random t) (temp t) t fs1 = (Inr k2, fs')" and k: "keys = (k1, k2)"
    using assms(1) unfolding unf by (auto split: if_splits prod.splits sum.splits)
  note p1 = loadOrCreate_persist [OF a assms(2) tmp(1)] and p2 = loadOrCreate_persist [OF b assms(2) tmp(2)]
  have f1: "map_of fs' r = Some \<lparr>kf_regular = True, kf_mode = 384, kf_data = k1\<rparr>" using p1 p2 rt tmp(1) by metis
  have f2: "map_of fs' t = Some \<lparr>kf_regular = True, kf_mode = 384, kf_data = k2\<rparr>" using p2 by blast
  have "loadQUICServerKeys False io' random' temp' dataDir fs' = (Inr keys, fs')"
    unfolding unf using loadOrCreate_again [OF f1] loadOrCreate_again [OF f2] p1 p2 assms(4) k by simp
  moreover have "map_of fs' p = map_of fs p" if "p \<notin> range temp" "p \<noteq> r" "p \<noteq> t" for p
    using p1 p2 that by (metis rangeI)
  ultimately show ?thesis using p1 p2 f1 f2 k unfolding r_def [symmetric] t_def [symmetric] by auto
qed

theorem quic_keys_persist_witness:
  "\<exists>keys fs'. loadQUICServerKeys False (\<lambda>_. key_io_ok) (\<lambda>p. replicate 32 7) (\<lambda>p. ''/d/.tmp'') ''/d'' [] = (Inr keys, fs') \<and>
     loadQUICServerKeys False (\<lambda>_. key_io_ok) (\<lambda>p. replicate 32 9) (\<lambda>p. ''/d/.other'') ''/d'' fs' = (Inr keys, fs') \<and> fst keys = replicate 32 7"
proof -
  have "fst (loadQUICServerKeys False (\<lambda>_. key_io_ok) (\<lambda>p. replicate 32 7) (\<lambda>p. ''/d/.tmp'') ''/d'' []) = Inr (replicate 32 7, replicate 32 7)"
    by code_simp
  then obtain fs' where l: "loadQUICServerKeys False (\<lambda>_. key_io_ok) (\<lambda>p. replicate 32 7) (\<lambda>p. ''/d/.tmp'') ''/d'' [] = (Inr (replicate 32 7, replicate 32 7), fs')"
    by (metis prod.collapse)
  have tmp: "''/d/.tmp'' \<notin> {''/d'' @ ''/'' @ statelessResetKeyFile, ''/d'' @ ''/'' @ tokenGeneratorKeyFile}" by code_simp
  show ?thesis
    using quic_keys_persist [OF l, of "\<lambda>_. key_io_ok" "\<lambda>p. replicate 32 9" "\<lambda>p. ''/d/.other''"] tmp l by (auto simp: key_io_ok_def)
qed

text \<open>
  C40. The dialer tries the resolved addresses in order within one budget and goes on only after an
  address-specific network failure: every address but the last one tried failed that way, a
  connection is the last one tried, a failure is the last one's or, when every address failed
  for the network, a network failure. A timeout, a handshake failure or a refused certificate
  never leads to another address.
\<close>

theorem quic_dial_ordered:
  assumes "quic_resolve parseAddr lookup address = Inr (host, addresses)"
    and "quic_dial parseAddr lookup ctxErr dialAddr address = (r, tried)"
  shows "tried = take (length tried) addresses \<and>
    (\<forall>a \<in> set (butlast tried). \<exists>f. dialResolved ctxErr dialAddr a = Inl f \<and> df_category f = DialNetwork) \<and>
    (case r of
       Inr c \<Rightarrow> tried \<noteq> [] \<and> dialResolved ctxErr dialAddr (last tried) = Inr c
     | Inl f \<Rightarrow> df_category f = DialNetwork \<and> tried = addresses \<or> tried \<noteq> [] \<and> dialResolved ctxErr dialAddr (last tried) = Inl f)"
proof -
  have "dial_loop (dialResolved ctxErr dialAddr) address None addresses = (r, tried)" using assms by (simp add: quic_dial_def)
  from dial_loop_exact [OF this] show ?thesis by (cases r) auto
qed

definition ex_dial :: "string \<Rightarrow> err_view + nat" where
  "ex_dial a = (if a = ''[::1]:443'' then Inl (plain_error\<lparr>ev_net := Some False\<rparr>) else if a = ''10.0.0.1:443'' then Inr 5 else Inl plain_error)"

theorem quic_dial_ordered_witness:
  "quic_dial (\<lambda>_. None) (\<lambda>_. Inr [(''::1'', []), (''10.0.0.1'', []), (''10.0.0.2'', [])]) (\<lambda>_. None) ex_dial ''edge:443'' = (Inr 5, [''[::1]:443'', ''10.0.0.1:443'']) \<and>
   (\<exists>f. dialResolved (\<lambda>_. None) ex_dial ''[::1]:443'' = Inl f \<and> df_category f = DialNetwork)"
proof -
  have a: "quic_resolve (\<lambda>_. None) (\<lambda>_. Inr [(''::1'', []), (''10.0.0.1'', []), (''10.0.0.2'', [])]) ''edge:443'' =
      Inr (''edge'', [''[::1]:443'', ''10.0.0.1:443'', ''10.0.0.2:443''])" by code_simp
  have b: "quic_dial (\<lambda>_. None) (\<lambda>_. Inr [(''::1'', []), (''10.0.0.1'', []), (''10.0.0.2'', [])]) (\<lambda>_. None) ex_dial ''edge:443'' =
      (Inr 5, [''[::1]:443'', ''10.0.0.1:443''])" by code_simp
  show ?thesis using quic_dial_ordered [OF a b] b by auto
qed

end
