(* ===== verification/Dialing.thy ===== *)
theory Dialing
  imports Config Control Quic
begin

text \<open>
  How the client connects (\<open>src/internal/client/client.go\<close>): options, the order of the transport
  candidates, dialing and negotiating one candidate, the classification of its failures, its
  cleanup, falling back to the next, installing the session, and the waits between reconnects.
  What the network, the contexts and the edge do is an argument: for every query of the code the
  answer it gets. The calls on transports are recorded as actions in their order.
\<close>

section \<open>Options\<close>

record options =
  op_heartbeat :: int
  op_registerTimeout :: int
  op_reconnectInitial :: int
  op_reconnectMax :: int
  op_scope :: string
  op_transport :: string

definition applyDefaults :: "options \<Rightarrow> string + options" where
  "applyDefaults o0 =
     (let o1 = o0\<lparr>op_heartbeat := (if op_heartbeat o0 \<le> 0 then 20000000000 else op_heartbeat o0),
                 op_registerTimeout := (if op_registerTimeout o0 \<le> 0 then 5000000000 else op_registerTimeout o0),
                 op_reconnectInitial := (if op_reconnectInitial o0 \<le> 0 then 500000000 else op_reconnectInitial o0),
                 op_reconnectMax := (if op_reconnectMax o0 \<le> 0 then 30000000000 else op_reconnectMax o0),
                 op_transport := (if op_transport o0 = [] then ''tcp'' else op_transport o0)\<rparr>
      in if op_transport o1 \<in> {''tcp'', ''quic'', ''auto''} then Inr o1 else Inl (op_transport o1))"

section \<open>Candidate errors\<close>

record candidateError =
  ce_reason :: string
  ce_eligible :: bool
  ce_err :: go_error

abbreviation terminal :: "go_error \<Rightarrow> candidateError" where
  "terminal err \<equiv> \<lparr>ce_reason = [], ce_eligible = False, ce_err = err\<rparr>"

definition ctx_is :: "go_error option \<Rightarrow> go_error \<Rightarrow> bool" where
  "ctx_is ctx target = (case ctx of None \<Rightarrow> False | Some e \<Rightarrow> err_is e target)"

definition classifyAvailabilityFailure :: "go_error option \<Rightarrow> go_error \<Rightarrow> candidateError" where
  "classifyAvailabilityFailure ctx err =
     (if ctx_is ctx DeadlineExceeded \<or> err_is err DeadlineExceeded \<or> err_is err Tunnel.ErrOpenTimeout
      then \<lparr>ce_reason = ''timeout'', ce_eligible = True, ce_err = err\<rparr>
      else if ctx_is ctx ContextCanceled \<or> err_is err ContextCanceled then terminal err
      else if err_is err Tunnel.ErrSessionClosed \<or> err_is err NetErrClosed \<or> err_is err EOF \<or> err_is err ErrUnexpectedEOF
      then \<lparr>ce_reason = ''network'', ce_eligible = True, ce_err = err\<rparr>
      else if as_net_error err \<noteq> None then \<lparr>ce_reason = ''network'', ce_eligible = True, ce_err = err\<rparr>
      else terminal err)"

text \<open>An error of dialing: with or without a \<open>DialFailure\<close> in its tree.\<close>

datatype dial_error = DialFail dialFailure go_error | DialOther go_error

definition category_name :: "dialCategory \<Rightarrow> string" where
  "category_name c = (case c of DialNetwork \<Rightarrow> ''network'' | DialTimeout \<Rightarrow> ''timeout'' | DialHandshake \<Rightarrow> ''handshake'' | DialTerminal \<Rightarrow> ''terminal'')"

definition client_classifyDialFailure :: "go_error option \<Rightarrow> kind \<Rightarrow> dial_error \<Rightarrow> candidateError" where
  "client_classifyDialFailure ctx k e =
     (case e of
        DialFail f err \<Rightarrow>
          if k = KindQUIC then \<lparr>ce_reason = category_name (df_category f), ce_eligible = fallbackEligible f, ce_err = err\<rparr>
          else classifyAvailabilityFailure ctx err
      | DialOther err \<Rightarrow> classifyAvailabilityFailure ctx err)"

section \<open>Close information as the answer to a hello\<close>

fun hex_str :: "nat \<Rightarrow> string" where
  "hex_str n = (if n < 16 then [''0123456789abcdef'' ! n] else hex_str (n div 16) @ [''0123456789abcdef'' ! (n mod 16)])"

declare hex_str.simps [simp del]

text \<open>The code the switch of \<open>helloRejectionFromCloseInfo\<close> gives.\<close>

definition rejection_code :: "closeInfo \<Rightarrow> string" where
  "rejection_code info =
     (if ci_code info = CloseAuth then ''bad_token''
      else if ci_code info = CloseCapacity then ''over_limit''
      else if ci_code info = CloseProtocol then
        (if contains (to_lower (ci_reason info)) ''version'' then ''bad_version'' else ''bad_hello'')
      else if ci_code info = CloseShutdown then ''shutdown''
      else ''application_close_0x'' @ hex_str (ci_code info))"

definition em_dash :: string where
  "em_dash = map char_of [226 :: nat, 128, 148]"

definition rejected_text :: "string \<Rightarrow> string \<Rightarrow> go_error" where
  "rejected_text code message = ErrorText (''server rejected hello: '' @ code @ '' '' @ em_dash @ '' '' @ message)"

definition helloRejectionFromCloseInfo :: "closeInfo \<Rightarrow> candidateError option" where
  "helloRejectionFromCloseInfo info =
     (if \<not> ci_codeValid info \<or> \<not> ci_remote info then None
      else Some (terminal (rejected_text (rejection_code info) (if ci_reason info = [] then ''connection rejected'' else ci_reason info))))"

definition helloFailureFromCloseInfo :: "closeInfo \<Rightarrow> candidateError option" where
  "helloFailureFromCloseInfo info =
     (if ci_codeValid info then helloRejectionFromCloseInfo info
      else (let reason = closeReason info;
                text = ErrorText (''QUIC session closed during hello ('' @ reason @ '')'');
                err = (case ci_cause info of Some cause \<Rightarrow> Wrap text cause | None \<Rightarrow> text)
            in Some (if reason = ''network'' then \<lparr>ce_reason = ''network'', ce_eligible = True, ce_err = err\<rparr>
                     else if reason = ''idle'' then \<lparr>ce_reason = ''timeout'', ce_eligible = True, ce_err = err\<rparr>
                     else terminal err)))"

section \<open>Negotiating on a transport\<close>

record helloOK =
  ho_slug :: string
  ho_baseDomain :: string
  ho_shape :: string
  ho_version :: int

datatype hello_reply =
    ReplyError string string     \<comment> \<open>code and message\<close>
  | ReplyBadError string         \<comment> \<open>an error that does not decode\<close>
  | ReplyOK helloOK
  | ReplyBadOK string
  | ReplyOther string            \<comment> \<open>another type\<close>

text \<open>A transport, by what it answers.\<close>

record transport =
  tr_kind :: kind
  tr_open :: "go_error option"            \<comment> \<open>opening the control stream\<close>
  tr_write :: "go_error option"           \<comment> \<open>writing the hello\<close>
  tr_read :: "go_error + hello_reply"     \<comment> \<open>reading the reply\<close>
  tr_info :: closeInfo                    \<comment> \<open>\<open>CloseInfo\<close> after a failed read\<close>
  tr_closed :: bool                       \<comment> \<open>\<open>IsClosed\<close> then\<close>
  tr_doneFirst :: bool                    \<comment> \<open>\<open>Done\<close> comes before the end of the context\<close>
  tr_infoDone :: closeInfo                \<comment> \<open>\<open>CloseInfo\<close> after \<open>Done\<close>\<close>
  tr_closedLater :: bool                  \<comment> \<open>the second \<open>IsClosed\<close>\<close>
  tr_ctx :: "go_error option"             \<comment> \<open>\<open>ctx.Err()\<close> when a failure is classified\<close>
  tr_joins :: bool                        \<comment> \<open>\<open>Done\<close> within the cleanup timeout\<close>
  tr_final :: closeInfo                   \<comment> \<open>\<open>CloseInfo\<close> after the cleanup\<close>

datatype dial_action =
    Dialed kind string              \<comment> \<open>a transport exists from here on\<close>
  | SentHello string string         \<comment> \<open>token and scope\<close>
  | ClosedWith nat string
  | AbortedControl
  | JoinedDone | JoinTimeout

definition closedHelloRejection :: "transport \<Rightarrow> candidateError option" where
  "closedHelloRejection t =
     (let info = tr_info t
      in if \<not> ci_codeValid info \<and> tr_closed t then
           (if tr_doneFirst t then helloFailureFromCloseInfo (tr_infoDone t) else None)
         else if \<not> tr_closedLater t \<and> \<not> ci_codeValid info then None
         else helloFailureFromCloseInfo info)"

text \<open>\<open>control\<close>: the control stream has been opened. The result: is there a cleanup error.\<close>

definition cleanupCandidate :: "bool \<Rightarrow> transport \<Rightarrow> bool \<times> dial_action list" where
  "cleanupCandidate control t =
     (\<not> tr_joins t,
      (if control then [AbortedControl] else []) @ [ClosedWith CloseNormal ''candidate cleanup''] @
      (if tr_joins t then [JoinedDone] else [JoinTimeout]))"

definition cleanup_error :: go_error where
  "cleanup_error = ErrorText ''transport candidate cleanup exceeded 1s''"

definition failCandidate :: "bool \<Rightarrow> transport \<Rightarrow> candidateError \<Rightarrow> candidateError \<times> dial_action list" where
  "failCandidate control t failure =
     (case cleanupCandidate control t of (failed, acts) \<Rightarrow>
        if failed then (terminal (Wrap (ce_err failure) cleanup_error), acts)
        else if ce_eligible failure then
          (case helloFailureFromCloseInfo (tr_final t) of Some authoritative \<Rightarrow> (authoritative, acts) | None \<Rightarrow> (failure, acts))
        else (failure, acts))"

definition negotiateCandidate :: "string \<Rightarrow> string \<Rightarrow> transport \<Rightarrow> (candidateError + helloOK) \<times> dial_action list" where
  "negotiateCandidate token scope t =
     (let fail = (\<lambda>control acts failure. case failCandidate control t failure of (err, acts2) \<Rightarrow> (Inl err, acts @ acts2))
      in case tr_open t of
           Some err \<Rightarrow> fail False [] (classifyAvailabilityFailure (tr_ctx t) (Wrap (ErrorText ''open control stream'') err))
         | None \<Rightarrow>
        (case tr_write t of
           Some err \<Rightarrow> fail True [] (classifyAvailabilityFailure (tr_ctx t) (Wrap (ErrorText ''send hello'') err))
         | None \<Rightarrow>
        (let sent = [SentHello token scope]
         in case tr_read t of
           Inl err \<Rightarrow>
             (case closedHelloRejection t of
                Some rejection \<Rightarrow> fail True sent rejection
              | None \<Rightarrow> fail True sent (classifyAvailabilityFailure (tr_ctx t) (Wrap (ErrorText ''read hello reply'') err)))
         | Inr (ReplyError code message) \<Rightarrow>
             fail True (sent @ [ClosedWith (if code = ''bad_token'' then CloseAuth else CloseProtocol) code])
               (terminal (rejected_text code message))
         | Inr (ReplyBadError err) \<Rightarrow>
             fail True (sent @ [ClosedWith CloseProtocol ''malformed hello error'']) (terminal (ErrorText (''parse hello error: '' @ err)))
         | Inr (ReplyBadOK err) \<Rightarrow>
             fail True (sent @ [ClosedWith CloseProtocol ''malformed hello_ok'']) (terminal (ErrorText (''parse hello_ok: '' @ err)))
         | Inr (ReplyOther typ) \<Rightarrow>
             fail True (sent @ [ClosedWith CloseProtocol ''unexpected hello reply'']) (terminal (ErrorText (''expected hello_ok, got '' @ typ)))
         | Inr (ReplyOK hok) \<Rightarrow>
             if ho_version hok \<noteq> ProtoVersion then
               fail True (sent @ [ClosedWith CloseProtocol ''protocol version mismatch''])
                 (terminal (ErrorText (''server protocol version '' @ itoa (ho_version hok) @ '' does not match client version '' @ itoa ProtoVersion)))
             else (Inr hok, sent))))"

section \<open>One candidate\<close>

record cand_env =
  cn_tcp :: "dial_error + transport"
  cn_resolve :: "dial_error + string list"
  cn_dial :: "string \<Rightarrow> dial_error + transport"
  cn_dialCtx :: "string \<Rightarrow> go_error option"     \<comment> \<open>\<open>ctx.Err()\<close> when a failed dial is classified\<close>
  cn_retryCtx :: "string \<Rightarrow> go_error option"    \<comment> \<open>\<open>ctx.Err()\<close> before another address\<close>
  cn_parentAfter :: "go_error option"           \<comment> \<open>the caller's context after a success\<close>
  cn_candidateAfter :: "go_error option"        \<comment> \<open>the candidate's context after a success\<close>
  cn_parentFail :: "go_error option"            \<comment> \<open>the caller's context after a failure\<close>

definition retryResolvedQUICAddress :: "go_error option \<Rightarrow> candidateError \<Rightarrow> bool" where
  "retryResolvedQUICAddress ctx err \<longleftrightarrow> ctx = None \<and> ce_eligible err \<and> ce_reason err = ''network''"

definition no_addresses :: candidateError where
  "no_addresses = \<lparr>ce_reason = ''network'', ce_eligible = True, ce_err = ErrorText ''QUIC resolver returned no addresses''\<rparr>"

definition try_address :: "string \<Rightarrow> string \<Rightarrow> cand_env \<Rightarrow> string \<Rightarrow> (candidateError + transport \<times> helloOK) \<times> dial_action list" where
  "try_address token scope n a =
     (case cn_dial n a of
        Inl e \<Rightarrow> (Inl (client_classifyDialFailure (cn_dialCtx n a) KindQUIC e), [])
      | Inr t \<Rightarrow>
          (case negotiateCandidate token scope t of
             (Inl err, acts) \<Rightarrow> (Inl err, Dialed KindQUIC a # acts)
           | (Inr hok, acts) \<Rightarrow> (Inr (t, hok), Dialed KindQUIC a # acts)))"

fun quic_addresses ::
    "string \<Rightarrow> string \<Rightarrow> cand_env \<Rightarrow> candidateError option \<Rightarrow> string list \<Rightarrow> (candidateError + transport \<times> helloOK) \<times> dial_action list" where
  "quic_addresses token scope n lastErr [] = (Inl (case lastErr of Some err \<Rightarrow> err | None \<Rightarrow> no_addresses), [])"
| "quic_addresses token scope n lastErr (a # rest) =
     (case try_address token scope n a of
        (Inr r, acts) \<Rightarrow> (Inr r, acts)
      | (Inl err, acts) \<Rightarrow>
          if \<not> retryResolvedQUICAddress (cn_retryCtx n a) err then (Inl err, acts)
          else (case quic_addresses token scope n (Some err) rest of (r, acts2) \<Rightarrow> (r, acts @ acts2)))"

definition connectQUICCandidate :: "string \<Rightarrow> string \<Rightarrow> cand_env \<Rightarrow> (candidateError + transport \<times> helloOK) \<times> dial_action list" where
  "connectQUICCandidate token scope n =
     (case cn_resolve n of
        Inl e \<Rightarrow> (Inl (client_classifyDialFailure (cn_dialCtx n []) KindQUIC e), [])
      | Inr addresses \<Rightarrow> quic_addresses token scope n None addresses)"

definition connectCandidate :: "string \<Rightarrow> string \<Rightarrow> string \<Rightarrow> kind \<Rightarrow> cand_env \<Rightarrow> (candidateError + transport \<times> helloOK) \<times> dial_action list" where
  "connectCandidate serverAddr token scope k n =
     (if k = KindQUIC then connectQUICCandidate token scope n
      else (case cn_tcp n of
              Inl e \<Rightarrow> (Inl (client_classifyDialFailure (cn_dialCtx n []) k e), [])
            | Inr t \<Rightarrow>
                (case negotiateCandidate token scope t of
                   (Inl err, acts) \<Rightarrow> (Inl err, Dialed k serverAddr # acts)
                 | (Inr hok, acts) \<Rightarrow> (Inr (t, hok), Dialed k serverAddr # acts))))"

section \<open>The client\<close>

record client =
  cl_serverAddr :: string
  cl_token :: string
  cl_opts :: options
  cl_sess :: "transport option"
  cl_slug :: string
  cl_baseDomain :: string
  cl_shape :: string
  cl_isClosed :: bool
  cl_fallbackCount :: "64 word"
  cl_lastFallback :: "string option"
  cl_lastSuccessful :: "kind option"
  cl_tcpFallbackAt :: "time option"     \<comment> \<open>\<open>None\<close>: the zero time\<close>

datatype connect_error =
    CtxError go_error | Candidate candidateError | ClientClosed | SlugChanged string string

definition candidateOrder :: "bool \<Rightarrow> time \<Rightarrow> client \<Rightarrow> kind list" where
  "candidateOrder first now c =
     (if op_transport (cl_opts c) = ''quic'' then [KindQUIC]
      else if op_transport (cl_opts c) = ''tcp'' then [KindTCP]
      else if first \<or> cl_lastSuccessful c = None \<or> cl_lastSuccessful c = Some KindQUIC then [KindQUIC, KindTCP]
      else if (case cl_tcpFallbackAt c of None \<Rightarrow> False | Some t \<Rightarrow> now - t < minutes 10) then [KindTCP, KindQUIC]
      else [KindQUIC, KindTCP])"

definition rejectCanceledSuccessfulCandidate :: "cand_env \<Rightarrow> transport \<Rightarrow> connect_error option \<times> dial_action list" where
  "rejectCanceledSuccessfulCandidate n t =
     (case cn_parentAfter n of
        Some err \<Rightarrow>
          (case cleanupCandidate True t of (failed, acts) \<Rightarrow> (Some (CtxError (if failed then Wrap err cleanup_error else err)), acts))
      | None \<Rightarrow>
          (case cn_candidateAfter n of
             Some err \<Rightarrow>
               (case failCandidate True t (classifyAvailabilityFailure (Some err) err) of (e, acts) \<Rightarrow> (Some (Candidate e), acts))
           | None \<Rightarrow> (None, [])))"

definition installSession :: "transport \<Rightarrow> helloOK \<Rightarrow> bool \<Rightarrow> client \<Rightarrow> connect_error option \<times> client" where
  "installSession t hok first c =
     (if cl_isClosed c then (Some ClientClosed, c)
      else if \<not> first \<and> ho_slug hok \<noteq> cl_slug c then (Some (SlugChanged (cl_slug c) (ho_slug hok)), c)
      else (let c = (if first then c\<lparr>cl_slug := ho_slug hok, cl_baseDomain := ho_baseDomain hok, cl_shape := ho_shape hok\<rparr> else c)
            in (None, c\<lparr>cl_sess := Some t, cl_lastSuccessful := Some (tr_kind t),
                        cl_tcpFallbackAt := (if tr_kind t = KindQUIC then None else cl_tcpFallbackAt c)\<rparr>)))"

definition note_fallback :: "time \<Rightarrow> string \<Rightarrow> client \<Rightarrow> client" where
  "note_fallback now reason c =
     c\<lparr>cl_fallbackCount := cl_fallbackCount c + 1, cl_lastFallback := Some reason, cl_tcpFallbackAt := Some now\<rparr>"

text \<open>The candidates of \<open>connectOnce\<close> in their order; \<open>lastErr\<close> is \<open>None\<close> only before the first.\<close>

fun connect_loop ::
    "time \<Rightarrow> bool \<Rightarrow> (kind \<Rightarrow> cand_env) \<Rightarrow> connect_error option \<Rightarrow> kind list \<Rightarrow> client \<Rightarrow> (connect_error option \<times> client) \<times> dial_action list" where
  "connect_loop now first env lastErr [] c = ((lastErr, c), [])"
| "connect_loop now first env lastErr (k # rest) c =
     (let n = env k;
          failed = (\<lambda>e acts.
            case cn_parentFail n of
              Some err \<Rightarrow> ((Some (CtxError err), c), acts)
            | None \<Rightarrow>
                (case e of
                   Candidate ce \<Rightarrow>
                     if ce_eligible ce \<and> rest \<noteq> [] then
                       (let c = (if k = KindQUIC \<and> hd rest = KindTCP then note_fallback now (ce_reason ce) c else c)
                        in case connect_loop now first env (Some e) rest c of (r, acts2) \<Rightarrow> (r, acts @ acts2))
                     else ((Some e, c), acts)
                 | _ \<Rightarrow> ((Some e, c), acts)))
      in case connectCandidate (cl_serverAddr c) (cl_token c) (op_scope (cl_opts c)) k n of
           (Inl ce, acts) \<Rightarrow> failed (Candidate ce) acts
         | (Inr (t, hok), acts) \<Rightarrow>
             (case rejectCanceledSuccessfulCandidate n t of
                (Some e, acts2) \<Rightarrow> failed e (acts @ acts2)
              | (None, _) \<Rightarrow>
                  (case installSession t hok first c of
                     (None, c') \<Rightarrow> ((None, c'), acts)
                   | (Some e, c') \<Rightarrow> ((Some e, c'), acts @ snd (cleanupCandidate True t)))))"

definition connectOnce :: "time \<Rightarrow> bool \<Rightarrow> (kind \<Rightarrow> cand_env) \<Rightarrow> client \<Rightarrow> (connect_error option \<times> client) \<times> dial_action list" where
  "connectOnce now first env c = connect_loop now first env None (candidateOrder first now c) c"

definition close_client :: "client \<Rightarrow> transport option \<times> client" where
  "close_client c = (if cl_isClosed c then (None, c) else (cl_sess c, c\<lparr>cl_isClosed := True, cl_sess := None\<rparr>))"

section \<open>Reconnecting\<close>

text \<open>\<open>rand.Int63n\<close> panics on an argument that is not positive; \<open>r\<close> is what it draws.\<close>

definition jitter :: "int \<Rightarrow> int \<Rightarrow> int option" where
  "jitter d r = (if d div 2 \<le> 0 then None else Some (d - d div 4 + r mod (d div 2)))"

definition next_backoff :: "int \<Rightarrow> int \<Rightarrow> int" where
  "next_backoff mx b = (let b = wrap64 (b * 2) in if mx < b then mx else b)"

text \<open>The base of the wait before each attempt; \<open>None\<close> when it starts at once. The list: did the attempt succeed.\<close>

fun reconnect_waits :: "int \<Rightarrow> bool \<Rightarrow> int \<Rightarrow> bool list \<Rightarrow> int option list" where
  "reconnect_waits mx skip backoff [] = []"
| "reconnect_waits mx skip backoff (ok # rest) =
     (if skip then None else Some backoff) #
     (if ok then [] else reconnect_waits mx False (if skip then backoff else next_backoff mx backoff) rest)"

section \<open>One transport at a time\<close>

text \<open>
  The abstract view of a cycle: is there a transport that has not been joined. Dialing needs that
  there is none, sending the hello and joining that there is one; anything else is an error.
\<close>

fun live_run :: "bool \<Rightarrow> dial_action list \<Rightarrow> bool option" where
  "live_run b [] = Some b"
| "live_run b (Dialed k a # acts) = (if b then None else live_run True acts)"
| "live_run b (SentHello token scope # acts) = (if b then live_run b acts else None)"
| "live_run b (JoinedDone # acts) = (if b then live_run False acts else None)"
| "live_run b (ClosedWith code reason # acts) = live_run b acts"
| "live_run b (AbortedControl # acts) = live_run b acts"
| "live_run b (JoinTimeout # acts) = live_run b acts"

fun is_dialed :: "dial_action \<Rightarrow> bool" where
  "is_dialed (Dialed k a) = True"
| "is_dialed _ = False"

lemma live_run_append: "live_run b (xs @ ys) = (case live_run b xs of None \<Rightarrow> None | Some b' \<Rightarrow> live_run b' ys)"
  by (induction b xs rule: live_run.induct) auto

text \<open>How a cleaned-up candidate ends: joined, or stuck with a terminal error.\<close>

definition ended :: "bool option \<Rightarrow> candidateError \<Rightarrow> dial_action list \<Rightarrow> bool" where
  "ended r err acts \<longleftrightarrow> r = Some False \<or> (r = Some True \<and> \<not> ce_eligible err \<and> JoinTimeout \<in> set acts)"

lemma cleanup_live: "live_run True (snd (cleanupCandidate control t)) = Some (fst (cleanupCandidate control t))"
  "fst (cleanupCandidate control t) \<longleftrightarrow> JoinTimeout \<in> set (snd (cleanupCandidate control t))"
  "\<not> list_ex is_dialed (snd (cleanupCandidate control t))"
  by (auto simp: cleanupCandidate_def)

lemma failCandidate_ended:
  assumes "failCandidate control t failure = (err, acts)"
  shows "ended (live_run True acts) err acts" and "\<not> list_ex is_dialed acts"
proof -
  obtain b cs where c: "cleanupCandidate control t = (b, cs)" by fastforce
  then have "acts = cs" "b \<longrightarrow> \<not> ce_eligible err" using assms by (auto simp: failCandidate_def split: if_splits option.splits)
  then show "ended (live_run True acts) err acts" "\<not> list_ex is_dialed acts"
    using cleanup_live [of control t] c by (auto simp: ended_def)
qed

lemma fail_shape:
  assumes "(case failCandidate control t failure of (err, acts2) \<Rightarrow> (Inl err, acts @ acts2)) = (Inl err', acts')"
    and "live_run True acts = Some True" and "\<not> list_ex is_dialed acts"
  shows "ended (live_run True acts') err' acts' \<and> \<not> list_ex is_dialed acts'"
proof -
  obtain e cs where f: "failCandidate control t failure = (e, cs)" by fastforce
  then have "err' = e" "acts' = acts @ cs" using assms(1) by auto
  then show ?thesis using failCandidate_ended [OF f] assms(2,3) by (auto simp: live_run_append ended_def)
qed

lemma fail_not_ok: "(case failCandidate control t failure of (err, acts2) \<Rightarrow> (Inl err, acts @ acts2)) \<noteq> (Inr hok, acts')"
  by (auto split: prod.splits)

lemma negotiate_fails:
  assumes "negotiateCandidate token scope t = (Inl err, acts)"
  shows "ended (live_run True acts) err acts \<and> \<not> list_ex is_dialed acts"
proof (cases "tr_open t")
  case (Some e)
  then show ?thesis using assms fail_shape [where control = False and t = t and acts = "[]"] by (auto simp: negotiateCandidate_def Let_def)
next
  case open_ok: None
  show ?thesis
  proof (cases "tr_write t")
    case (Some e)
    then show ?thesis using assms open_ok fail_shape [where control = True and t = t and acts = "[]"] by (auto simp: negotiateCandidate_def Let_def)
  next
    case None
    have fs: "(case failCandidate True t failure of (err, acts2) \<Rightarrow> (Inl err, (SentHello token scope # xs) @ acts2)) = (Inl err, acts) \<Longrightarrow>
        xs = [] \<or> (\<exists>c r. xs = [ClosedWith c r]) \<Longrightarrow> ?thesis" for failure xs
      by (erule fail_shape) auto
    show ?thesis
    proof (cases "tr_read t")
      case (Inl e)
      then show ?thesis using assms open_ok None fs [where xs = "[]"]
        by (cases "closedHelloRejection t") (simp_all add: negotiateCandidate_def Let_def)
    next
      case (Inr r)
      then show ?thesis using assms open_ok None fs [where xs = "[ClosedWith _ _]"]
        by (cases r) (auto simp: negotiateCandidate_def Let_def split: if_splits)
    qed
  qed
qed

lemma negotiate_ok:
  assumes "negotiateCandidate token scope t = (Inr hok, acts)"
  shows "acts = [SentHello token scope] \<and> tr_read t = Inr (ReplyOK hok) \<and> ho_version hok = ProtoVersion \<and> tr_open t = None \<and> tr_write t = None"
  using assms fail_not_ok
  by (auto simp: negotiateCandidate_def Let_def split: option.splits sum.splits hello_reply.splits if_splits prod.splits)

lemma try_address_shape:
  "try_address token scope n a = (r, acts) \<Longrightarrow>
    (case r of
       Inl err \<Rightarrow> ended (live_run False acts) err acts
     | Inr (t, hok) \<Rightarrow> live_run False acts = Some True \<and> cn_dial n a = Inr t \<and> negotiateCandidate token scope t = (Inr hok, [SentHello token scope])) \<and>
    (acts = [] \<or> (\<exists>xs. acts = Dialed KindQUIC a # xs \<and> \<not> list_ex is_dialed xs))"
  by (auto simp: try_address_def ended_def split: sum.splits prod.splits dest: negotiate_fails negotiate_ok)

lemma quic_addresses_live:
  "quic_addresses token scope n lastErr as = (r, acts) \<Longrightarrow>
    (case r of
       Inl err \<Rightarrow> ended (live_run False acts) err acts
     | Inr (t, hok) \<Rightarrow> live_run False acts = Some True \<and> negotiateCandidate token scope t = (Inr hok, [SentHello token scope]))"
proof (induction as arbitrary: lastErr r acts)
  case Nil
  then show ?case by (auto simp: ended_def)
next
  case (Cons a as)
  obtain r1 acts1 where t: "try_address token scope n a = (r1, acts1)" by fastforce
  note sh = try_address_shape [OF t]
  show ?case
  proof (cases r1)
    case (Inr x)
    then show ?thesis using Cons.prems t sh by (auto split: prod.splits)
  next
    case (Inl err)
    show ?thesis
    proof (cases "retryResolvedQUICAddress (cn_retryCtx n a) err")
      case False
      then show ?thesis using Cons.prems t sh Inl by auto
    next
      case True
      then have el: "ce_eligible err" by (simp add: retryResolvedQUICAddress_def)
      obtain r2 acts2 where rec: "quic_addresses token scope n (Some err) as = (r2, acts2)" by fastforce
      have "live_run False acts1 = Some False" using sh Inl el by (auto simp: ended_def)
      then show ?thesis using Cons.IH [OF rec] Cons.prems t Inl True rec
        by (auto simp: live_run_append ended_def split: sum.splits)
    qed
  qed
qed

lemma connectCandidate_live:
  assumes "connectCandidate addr token scope k n = (r, acts)"
  shows "case r of
       Inl err \<Rightarrow> ended (live_run False acts) err acts
     | Inr (t, hok) \<Rightarrow> live_run False acts = Some True \<and> negotiateCandidate token scope t = (Inr hok, [SentHello token scope])"
proof (cases "k = KindQUIC")
  case True
  show ?thesis
  proof (cases "cn_resolve n")
    case (Inl e)
    then show ?thesis using assms True by (auto simp: connectCandidate_def connectQUICCandidate_def ended_def)
  next
    case (Inr addresses)
    then show ?thesis using assms True by (intro quic_addresses_live) (simp add: connectCandidate_def connectQUICCandidate_def)
  qed
next
  case False
  then show ?thesis using assms
    by (auto simp: connectCandidate_def ended_def split: sum.splits prod.splits dest: negotiate_fails negotiate_ok)
qed

lemma reject_live:
  assumes "rejectCanceledSuccessfulCandidate n t = (Some e, acts)"
  shows "live_run True acts = Some False \<or>
    (live_run True acts = Some True \<and> JoinTimeout \<in> set acts \<and> (\<forall>ce. e = Candidate ce \<longrightarrow> \<not> ce_eligible ce))"
proof (cases "cn_parentAfter n")
  case (Some err)
  obtain b cs where c: "cleanupCandidate True t = (b, cs)" by fastforce
  then show ?thesis using assms Some cleanup_live [of True t] by (auto simp: rejectCanceledSuccessfulCandidate_def)
next
  case None
  then show ?thesis using assms failCandidate_ended(1)
    by (fastforce simp: rejectCanceledSuccessfulCandidate_def ended_def split: option.splits prod.splits)
qed

text \<open>What a cycle of \<open>connectOnce\<close> leaves, relative to the client it began with.\<close>

definition cycle_ok :: "bool \<Rightarrow> client \<Rightarrow> connect_error option \<Rightarrow> client \<Rightarrow> dial_action list \<Rightarrow> bool" where
  "cycle_ok first c r c' acts \<longleftrightarrow> (\<exists>b. live_run False acts = Some b \<and>
     (case r of
        None \<Rightarrow> b \<and> \<not> cl_isClosed c \<and> (\<exists>t hok. cl_sess c' = Some t \<and> tr_read t = Inr (ReplyOK hok) \<and> ho_version hok = ProtoVersion \<and>
          (if first then cl_slug c' = ho_slug hok \<and> cl_baseDomain c' = ho_baseDomain hok \<and> cl_shape c' = ho_shape hok
           else ho_slug hok = cl_slug c \<and> cl_slug c' = cl_slug c \<and> cl_baseDomain c' = cl_baseDomain c \<and> cl_shape c' = cl_shape c))
      | Some e \<Rightarrow> (b \<longrightarrow> JoinTimeout \<in> set acts) \<and> cl_sess c' = cl_sess c \<and> cl_slug c' = cl_slug c \<and>
          cl_baseDomain c' = cl_baseDomain c \<and> cl_shape c' = cl_shape c))"

lemma install_ok:
  assumes "installSession t hok first c = (r, c')" and "tr_read t = Inr (ReplyOK hok)" and "ho_version hok = ProtoVersion"
    and "live_run False acts = Some True"
  shows "case r of None \<Rightarrow> cycle_ok first c None c' acts | Some e \<Rightarrow> cycle_ok first c (Some e) c' (acts @ snd (cleanupCandidate True t))"
  using assms cleanup_live [of True t]
  by (cases r) (auto simp: installSession_def cycle_ok_def live_run_append Let_def split: if_splits)

lemma cycle_fail:
  assumes "live_run False acts = Some b" and "b \<longrightarrow> JoinTimeout \<in> set acts"
  shows "cycle_ok first c (Some e) c acts"
  using assms by (auto simp: cycle_ok_def)

lemma cycle_later:
  assumes "cycle_ok first c1 r c' acts2" and "live_run False acts = Some False"
    and "cl_sess c1 = cl_sess c" "cl_slug c1 = cl_slug c" "cl_baseDomain c1 = cl_baseDomain c" "cl_shape c1 = cl_shape c" "cl_isClosed c1 = cl_isClosed c"
  shows "cycle_ok first c r c' (acts @ acts2)"
proof (cases r)
  case None
  then show ?thesis using assms(1) unfolding cycle_ok_def assms(3-7) live_run_append assms(2) by simp
next
  case (Some e)
  then show ?thesis using assms(1) unfolding cycle_ok_def assms(3-7) live_run_append assms(2) by fastforce
qed

lemma connect_loop_ok:
  "connect_loop now first env lastErr ks c = ((r, c'), acts) \<Longrightarrow> ks \<noteq> [] \<Longrightarrow> cycle_ok first c r c' acts"
proof (induction ks arbitrary: lastErr c acts)
  case (Cons k rest)
  let ?n = "env k"
  have failed: "cycle_ok first c r c' acts"
    if run: "(case cn_parentFail ?n of
              Some err \<Rightarrow> ((Some (CtxError err), c), as)
            | None \<Rightarrow>
                (case e of
                   Candidate ce \<Rightarrow>
                     if ce_eligible ce \<and> rest \<noteq> [] then
                       (let c = (if k = KindQUIC \<and> hd rest = KindTCP then note_fallback now (ce_reason ce) c else c)
                        in case connect_loop now first env (Some e) rest c of (r, acts2) \<Rightarrow> (r, as @ acts2))
                     else ((Some e, c), as)
                 | _ \<Rightarrow> ((Some e, c), as))) = ((r, c'), acts)"
      and live: "live_run False as = Some False \<or>
        (live_run False as = Some True \<and> JoinTimeout \<in> set as \<and> (\<forall>ce. e = Candidate ce \<longrightarrow> \<not> ce_eligible ce))" for e as
  proof -
    have fail: "cycle_ok first c (Some x) c as" for x using live by (auto intro: cycle_fail)
    show ?thesis
    proof (cases "cn_parentFail ?n = None \<and> (\<exists>ce. e = Candidate ce \<and> ce_eligible ce) \<and> rest \<noteq> []")
      case False
      then have "acts = as \<and> c' = c \<and> r \<noteq> None" using run by (auto split: option.splits connect_error.splits if_splits)
      then show ?thesis using fail by auto
    next
      case True
      then obtain ce where e: "e = Candidate ce" "ce_eligible ce" by blast
      let ?c = "if k = KindQUIC \<and> hd rest = KindTCP then note_fallback now (ce_reason ce) c else c"
      obtain r2 c2 acts2 where rec: "connect_loop now first env (Some e) rest ?c = ((r2, c2), acts2)" by (metis prod.collapse)
      have eq: "r = r2" "c' = c2" "acts = as @ acts2" using run rec True e by (auto simp: Let_def)
      have "connect_loop now first env (Some e) rest ?c = ((r, c'), acts2)" using rec eq by simp
      then have "cycle_ok first ?c r c' acts2" using True by (intro Cons.IH) auto
      then show ?thesis unfolding eq(3) using live e
        by (intro cycle_later [of first ?c]) (auto simp: note_fallback_def)
    qed
  qed
  obtain r1 acts1 where cc: "connectCandidate (cl_serverAddr c) (cl_token c) (op_scope (cl_opts c)) k ?n = (r1, acts1)" by fastforce
  note lv = connectCandidate_live [OF cc]
  show ?case
  proof (cases r1)
    case (Inl ce)
    show ?thesis by (rule failed [of "Candidate ce" acts1]) (use Cons.prems cc Inl lv in \<open>auto simp: Let_def ended_def\<close>)
  next
    case (Inr x)
    obtain t hok where x: "x = (t, hok)" by fastforce
    have live: "live_run False acts1 = Some True" and neg: "tr_read t = Inr (ReplyOK hok)" "ho_version hok = ProtoVersion"
      using lv Inr x by (auto dest: negotiate_ok)
    obtain rj acts2 where rej: "rejectCanceledSuccessfulCandidate ?n t = (rj, acts2)" by fastforce
    show ?thesis
    proof (cases rj)
      case (Some e)
      have "live_run False (acts1 @ acts2) = Some False \<or>
        (live_run False (acts1 @ acts2) = Some True \<and> JoinTimeout \<in> set (acts1 @ acts2) \<and> (\<forall>ce. e = Candidate ce \<longrightarrow> \<not> ce_eligible ce))"
        using reject_live rej Some live by (fastforce simp: live_run_append)
      then show ?thesis by (intro failed [of e "acts1 @ acts2"]) (use Cons.prems cc Inr x rej Some in \<open>auto simp: Let_def\<close>)
    next
      case None
      obtain ri ci where ins: "installSession t hok first c = (ri, ci)" by fastforce
      show ?thesis using install_ok [OF ins neg live] Cons.prems cc Inr x rej None ins
        by (cases ri) (auto simp: Let_def)
    qed
  qed
qed simp

lemma candidateOrder_ne: "candidateOrder first now c \<noteq> []"
  by (simp add: candidateOrder_def)

section \<open>Rejections are final\<close>

text \<open>
  The edge has refused the hello on a transport: it answered with an error, or whatever became of
  the answer the connection ended with a close by the edge.
\<close>

definition refused :: "transport \<Rightarrow> bool" where
  "refused t \<longleftrightarrow>
     (tr_open t = None \<and> tr_write t = None \<and> (\<exists>code message. tr_read t = Inr (ReplyError code message))) \<or>
     (ci_codeValid (tr_final t) \<and> ci_remote (tr_final t) \<and> (\<forall>hok. tr_read t \<noteq> Inr (ReplyOK hok)))"

definition transport_at :: "cand_env \<Rightarrow> kind \<Rightarrow> string \<Rightarrow> transport option" where
  "transport_at n k a = (case (if k = KindQUIC then cn_dial n a else cn_tcp n) of Inl _ \<Rightarrow> None | Inr t \<Rightarrow> Some t)"

lemma helloRejection_terminal: "helloRejectionFromCloseInfo info = Some err \<Longrightarrow> \<not> ce_eligible err"
  by (auto simp: helloRejectionFromCloseInfo_def split: if_splits)

lemma failCandidate_remote:
  assumes "failCandidate control t failure = (err, acts)" and "ce_eligible failure \<Longrightarrow> ci_codeValid (tr_final t) \<and> ci_remote (tr_final t)"
  shows "\<not> ce_eligible err"
  using assms by (auto simp: failCandidate_def helloFailureFromCloseInfo_def helloRejectionFromCloseInfo_def split: prod.splits if_splits option.splits)

lemma fail_remote:
  "(case failCandidate control t failure of (err, acts2) \<Rightarrow> (Inl err, f acts2)) = (Inl err', acts') \<Longrightarrow>
    (ce_eligible failure \<longrightarrow> ci_codeValid (tr_final t) \<and> ci_remote (tr_final t)) \<Longrightarrow> \<not> ce_eligible err'"
  using failCandidate_remote by (auto split: prod.splits)

lemma refused_terminal:
  assumes "refused t" and "negotiateCandidate token scope t = (r, acts)"
  shows "\<exists>err. r = Inl err \<and> \<not> ce_eligible err"
proof -
  obtain err where r: "r = Inl err" using assms negotiate_ok [of token scope t _ acts] by (cases r) (auto simp: refused_def)
  note neg = assms(2) [unfolded r negotiateCandidate_def Let_def]
  have "\<not> ce_eligible err"
  proof (cases "ci_codeValid (tr_final t) \<and> ci_remote (tr_final t)")
    case True
    show ?thesis using neg True
      by (auto split: option.splits sum.splits hello_reply.splits if_splits dest!: fail_remote)
  next
    case False
    then obtain code message where "tr_open t = None" "tr_write t = None" "tr_read t = Inr (ReplyError code message)"
      using assms(1) by (auto simp: refused_def)
    then show ?thesis using neg by (auto dest!: fail_remote)
  qed
  then show ?thesis using r by blast
qed

lemma split_at:
  assumes "xs @ ys = pre @ x # post"
  obtains (left) us where "xs = pre @ x # us" "post = us @ ys" | (right) us where "pre = xs @ us" "ys = us @ x # post"
  using assms by (auto simp: append_eq_append_conv2 append_eq_Cons_conv)

lemma no_dialed_split: "\<not> list_ex is_dialed xs \<Longrightarrow> xs = pre @ Dialed k a # post \<Longrightarrow> False"
  by auto

lemma one_dialed:
  assumes "Dialed k a # xs = pre @ Dialed k' a' # post" and "\<not> list_ex is_dialed xs"
  shows "k' = k \<and> a' = a \<and> post = xs"
  using assms by (cases pre) auto

lemma try_address_refused:
  assumes "try_address token scope n a' = (r, pre @ Dialed k a # post)" and "transport_at n k a = Some t" and "refused t"
  shows "\<not> list_ex is_dialed post \<and> (\<exists>err. r = Inl err \<and> \<not> ce_eligible err)"
proof -
  from try_address_shape [OF assms(1)] obtain xs where xs: "pre @ Dialed k a # post = Dialed KindQUIC a' # xs" "\<not> list_ex is_dialed xs"
    by auto
  then have k: "k = KindQUIC" "a = a'" "post = xs" using one_dialed [of KindQUIC a' xs pre k a post] by auto
  then have d: "cn_dial n a' = Inr t" using assms(2) by (auto simp: transport_at_def split: sum.splits)
  obtain r' acts' where neg: "negotiateCandidate token scope t = (r', acts')" by fastforce
  then show ?thesis using refused_terminal [OF assms(3) neg] assms(1) d xs(2) k(3)
    by (auto simp: try_address_def split: sum.splits prod.splits)
qed

lemma quic_addresses_refused:
  assumes "transport_at n k a = Some t" and "refused t"
  shows "quic_addresses token scope n lastErr as = (r, pre @ Dialed k a # post) \<Longrightarrow>
    \<not> list_ex is_dialed post \<and> (\<exists>err. r = Inl err \<and> \<not> ce_eligible err)"
proof (induction as arbitrary: lastErr r pre)
  case (Cons a' as)
  obtain r1 acts1 where ta: "try_address token scope n a' = (r1, acts1)" by fastforce
  have stop: ?case if "acts1 = pre @ Dialed k a # post" "r1 = r"
    using try_address_refused [OF _ assms] ta that by auto
  show ?case
  proof (cases "\<exists>err. r1 = Inl err \<and> retryResolvedQUICAddress (cn_retryCtx n a') err")
    case False
    then show ?thesis using Cons.prems ta stop by (cases r1) auto
  next
    case True
    then obtain err where err: "r1 = Inl err" "retryResolvedQUICAddress (cn_retryCtx n a') err" by blast
    obtain r2 acts2 where rec: "quic_addresses token scope n (Some err) as = (r2, acts2)" by fastforce
    then have eq: "r = r2" "acts1 @ acts2 = pre @ Dialed k a # post" using Cons.prems ta err by auto
    show ?thesis using eq(2)
    proof (cases rule: split_at)
      case (left us)
      then have "ce_eligible err \<longrightarrow> False" using try_address_refused [OF _ assms, of token scope a' r1 pre us] ta err(1) by auto
      then show ?thesis using err(2) by (auto simp: retryResolvedQUICAddress_def)
    next
      case (right us)
      then show ?thesis using Cons.IH [of "Some err" r us] rec eq(1) by auto
    qed
  qed
qed simp

lemma quic_addresses_kind: "quic_addresses token scope n lastErr as = (r, acts) \<Longrightarrow> Dialed k a \<in> set acts \<Longrightarrow> k = KindQUIC"
proof (induction as arbitrary: lastErr r acts)
  case (Cons a' as)
  obtain r1 acts1 where ta: "try_address token scope n a' = (r1, acts1)" by fastforce
  have one: "k = KindQUIC" if "Dialed k a \<in> set acts1"
  proof (rule ccontr)
    assume "k \<noteq> KindQUIC"
    moreover have "acts1 \<noteq> []" using that by auto
    then obtain xs where "acts1 = Dialed KindQUIC a' # xs" "\<not> list_ex is_dialed xs" using conjunct2 [OF try_address_shape [OF ta]] by blast
    ultimately show False using that by (auto simp: list_ex_iff)
  qed
  then show ?case using Cons.prems Cons.IH ta by (auto split: sum.splits if_splits prod.splits)
qed simp

lemma connectCandidate_refused:
  assumes "connectCandidate addr token scope k' n = (r, pre @ Dialed k a # post)"
  shows "k' = k" and "transport_at n k a = Some t \<Longrightarrow> refused t \<Longrightarrow> \<not> list_ex is_dialed post \<and> (\<exists>err. r = Inl err \<and> \<not> ce_eligible err)"
proof -
  have both: "k' = k \<and> (transport_at n k a = Some t \<longrightarrow> refused t \<longrightarrow> \<not> list_ex is_dialed post \<and> (\<exists>err. r = Inl err \<and> \<not> ce_eligible err))"
  proof (cases "k' = KindQUIC")
    case True
    then obtain as where q: "quic_addresses token scope n None as = (r, pre @ Dialed k a # post)"
      using assms by (auto simp: connectCandidate_def connectQUICCandidate_def split: sum.splits)
    show ?thesis using quic_addresses_kind [OF q, of k a] quic_addresses_refused [OF _ _ q] True by auto
  next
    case False
    then obtain t' where d: "cn_tcp n = Inr t'" using assms by (auto simp: connectCandidate_def split: sum.splits)
    obtain r' acts' where neg: "negotiateCandidate token scope t' = (r', acts')" by fastforce
    then have shape: "pre @ Dialed k a # post = Dialed k' addr # acts'" using assms False d by (auto simp: connectCandidate_def split: sum.splits)
    have nd: "\<not> list_ex is_dialed acts'" using neg by (cases r') (auto dest: negotiate_fails negotiate_ok)
    have eq: "k = k'" "post = acts'" using one_dialed [OF shape [symmetric] nd] by auto
    show ?thesis using refused_terminal [OF _ neg] assms False d neg nd eq
      by (auto simp: connectCandidate_def transport_at_def split: sum.splits)
  qed
  then show "k' = k" by blast
  show "transport_at n k a = Some t \<Longrightarrow> refused t \<Longrightarrow> \<not> list_ex is_dialed post \<and> (\<exists>err. r = Inl err \<and> \<not> ce_eligible err)"
    using both by blast
qed

lemma reject_no_dialed: "\<not> list_ex is_dialed (snd (rejectCanceledSuccessfulCandidate n t))"
  using cleanup_live(3) [of True t] failCandidate_ended(2)
  by (auto simp: rejectCanceledSuccessfulCandidate_def split: option.splits prod.splits)

lemma connect_loop_refused:
  assumes "transport_at (env k) k a = Some t" and "refused t"
  shows "connect_loop now first env lastErr ks c = ((r, c'), pre @ Dialed k a # post) \<Longrightarrow> ks \<noteq> [] \<Longrightarrow> r \<noteq> None \<and> \<not> list_ex is_dialed post"
proof (induction ks arbitrary: lastErr c pre)
  case (Cons k' rest)
  let ?n = "env k'"
  obtain r1 acts1 where cc: "connectCandidate (cl_serverAddr c) (cl_token c) (op_scope (cl_opts c)) k' ?n = (r1, acts1)" by fastforce
  have in1: "k' = k \<and> \<not> list_ex is_dialed us \<and> (\<exists>err. r1 = Inl err \<and> \<not> ce_eligible err)" if "acts1 = pre @ Dialed k a # us" for us pre
  proof -
    have cc': "connectCandidate (cl_serverAddr c) (cl_token c) (op_scope (cl_opts c)) k' ?n = (r1, pre @ Dialed k a # us)" using cc that by simp
    note k = connectCandidate_refused(1) [OF cc']
    show ?thesis using connectCandidate_refused(2) [OF cc'] assms k by auto
  qed
  have failed: ?case
    if run: "(case cn_parentFail ?n of
              Some err \<Rightarrow> ((Some (CtxError err), c), as)
            | None \<Rightarrow>
                (case e of
                   Candidate ce \<Rightarrow>
                     if ce_eligible ce \<and> rest \<noteq> [] then
                       (let c = (if k' = KindQUIC \<and> hd rest = KindTCP then note_fallback now (ce_reason ce) c else c)
                        in case connect_loop now first env (Some e) rest c of (r, acts2) \<Rightarrow> (r, as @ acts2))
                     else ((Some e, c), as)
                 | _ \<Rightarrow> ((Some e, c), as))) = ((r, c'), pre @ Dialed k a # post)"
      and nz: "\<not> list_ex is_dialed zs" and e: "\<forall>err. r1 = Inl err \<longrightarrow> e = Candidate err" and as: "as = acts1 @ zs" for e zs as
  proof -
    have here: "r \<noteq> None \<and> \<not> list_ex is_dialed post" if "acts1 @ zs = pre @ Dialed k a # post" "r \<noteq> None"
      using that(1)
    proof (cases rule: split_at)
      case (left us)
      then show ?thesis using in1 that(2) nz by auto
    next
      case (right us)
      then show ?thesis using nz by auto
    qed
    show ?thesis
    proof (cases "cn_parentFail ?n = None \<and> (\<exists>ce. e = Candidate ce \<and> ce_eligible ce) \<and> rest \<noteq> []")
      case False
      then have "acts1 @ zs = pre @ Dialed k a # post \<and> r \<noteq> None" using run as by (auto split: option.splits connect_error.splits if_splits)
      then show ?thesis using here by blast
    next
      case True
      then obtain ce where ce: "e = Candidate ce" "ce_eligible ce" by blast
      let ?c = "if k' = KindQUIC \<and> hd rest = KindTCP then note_fallback now (ce_reason ce) c else c"
      obtain r2 c2 acts2 where rec: "connect_loop now first env (Some e) rest ?c = ((r2, c2), acts2)" by (metis prod.collapse)
      have eq: "r = r2" "c' = c2" "(acts1 @ zs) @ acts2 = pre @ Dialed k a # post" using run rec True ce as by (auto simp: Let_def)
      show ?thesis using eq(3)
      proof (cases rule: split_at)
        case (left us)
        show ?thesis using left(1)
        proof (cases rule: split_at)
          case (left vs)
          then show ?thesis using in1 [of pre vs] e ce by auto
        next
          case (right vs)
          then show ?thesis using nz by auto
        qed
      next
        case (right us)
        then have "connect_loop now first env (Some e) rest ?c = ((r, c'), us @ Dialed k a # post)" using rec eq by simp
        then show ?thesis using True by (intro Cons.IH) auto
      qed
    qed
  qed
  show ?case
  proof (cases r1)
    case (Inl ce)
    show ?thesis by (rule failed [where e = "Candidate ce" and zs = "[]" and as = acts1]) (use Cons.prems(1) cc Inl in \<open>auto simp: Let_def\<close>)
  next
    case (Inr x)
    obtain t' hok where x: "x = (t', hok)" by fastforce
    have none: "acts1 = pre' @ Dialed k a # us \<Longrightarrow> False" for pre' us
      using in1 Inr by auto
    obtain rj acts2 where rej: "rejectCanceledSuccessfulCandidate ?n t' = (rj, acts2)" by fastforce
    show ?thesis
    proof (cases rj)
      case (Some e)
      show ?thesis
        by (rule failed [where e = e and zs = acts2 and as = "acts1 @ acts2"]) (use Cons.prems(1) cc Inr x rej Some reject_no_dialed [of ?n t'] in \<open>auto simp: Let_def\<close>)
    next
      case None
      obtain ri ci where ins: "installSession t' hok first c = (ri, ci)" by fastforce
      then have "\<exists>zs. \<not> list_ex is_dialed zs \<and> acts1 @ zs = pre @ Dialed k a # post"
        using Cons.prems(1) cc Inr x rej None cleanup_live(3) [of True t']
        by (cases ri) (auto simp: Let_def intro: exI [of _ "[]"])
      then obtain zs where zs: "\<not> list_ex is_dialed zs" "acts1 @ zs = pre @ Dialed k a # post" by blast
      show ?thesis using zs(2)
      proof (cases rule: split_at)
        case (left us)
        then show ?thesis using none by blast
      next
        case (right us)
        then show ?thesis using zs(1) by auto
      qed
    qed
  qed
qed simp

section \<open>Which candidate was installed\<close>

definition kinds_ok :: "(kind \<Rightarrow> cand_env) \<Rightarrow> bool" where
  "kinds_ok env \<longleftrightarrow> (\<forall>k t. (cn_tcp (env k) = Inr t \<longrightarrow> tr_kind t = KindTCP) \<and> (\<forall>a. cn_dial (env k) a = Inr t \<longrightarrow> tr_kind t = KindQUIC))"

lemma quic_addresses_from: "quic_addresses token scope n lastErr as = (Inr (t, hok), acts) \<Longrightarrow> \<exists>a \<in> set as. cn_dial n a = Inr t"
proof (induction as arbitrary: lastErr acts)
  case (Cons a as)
  obtain r1 acts1 where ta: "try_address token scope n a = (r1, acts1)" by fastforce
  show ?case using Cons.prems Cons.IH ta try_address_shape [OF ta] by (cases r1) (auto split: if_splits prod.splits)
qed simp

lemma connectCandidate_kind:
  assumes "connectCandidate addr token scope k (env k) = (Inr (t, hok), acts)" and "kinds_ok env"
  shows "tr_kind t = k"
proof (cases "k = KindQUIC")
  case True
  then obtain as where "quic_addresses token scope (env k) None as = (Inr (t, hok), acts)"
    using assms(1) by (auto simp: connectCandidate_def connectQUICCandidate_def split: sum.splits)
  from quic_addresses_from [OF this] show ?thesis using assms(2) True unfolding kinds_ok_def by blast
next
  case False
  then have "k = KindTCP" by (cases k) auto
  then show ?thesis using assms by (auto simp: connectCandidate_def kinds_ok_def split: sum.splits prod.splits)
qed

lemma connect_loop_success:
  assumes "connect_loop now first env lastErr (k # rest) c = ((None, c'), acts)"
  shows "(\<exists>t hok acts1. connectCandidate (cl_serverAddr c) (cl_token c) (op_scope (cl_opts c)) k (env k) = (Inr (t, hok), acts1) \<and>
      installSession t hok first c = (None, c')) \<or>
    (\<exists>ce acts2. rest \<noteq> [] \<and> connect_loop now first env (Some (Candidate ce)) rest
        (if k = KindQUIC \<and> hd rest = KindTCP then note_fallback now (ce_reason ce) c else c) = ((None, c'), acts2))"
  using assms
  by (auto simp: Let_def split: prod.splits sum.splits option.splits connect_error.splits if_splits)

lemma install_frame:
  "installSession t hok first c = (None, c') \<Longrightarrow>
    cl_sess c' = Some t \<and> cl_lastSuccessful c' = Some (tr_kind t) \<and> cl_opts c' = cl_opts c \<and> cl_fallbackCount c' = cl_fallbackCount c \<and>
    (tr_kind t = KindTCP \<longrightarrow> cl_tcpFallbackAt c' = cl_tcpFallbackAt c)"
  by (auto simp: installSession_def Let_def split: if_splits)

section \<open>Backoff\<close>

lemma next_backoff_min: "1 \<le> i \<Longrightarrow> i \<le> mx \<Longrightarrow> mx < 2 ^ 61 \<Longrightarrow> next_backoff mx (min mx (i * 2 ^ j)) = min mx (i * 2 ^ Suc j)"
proof -
  assume a: "1 \<le> i" "i \<le> mx" "mx < 2 ^ 61"
  define p where "p = i * 2 ^ j"
  have "1 * 1 \<le> i * 2 ^ j" using a by (intro mult_mono) auto
  then have p: "1 \<le> p" by (simp add: p_def)
  have "wrap64 (min mx p * 2) = min mx p * 2" using a p by (intro wrap64_id) auto
  then have "next_backoff mx (min mx p) = min mx (2 * p)" using a p by (auto simp: next_backoff_def Let_def min_def)
  then show ?thesis by (simp add: p_def mult.left_commute)
qed

lemma waits_exact:
  assumes "1 \<le> i" and "i \<le> mx" and "mx < 2 ^ 61"
  shows "length (reconnect_waits mx skip (min mx (i * 2 ^ j)) oks) = length (takeWhile Not oks) + (if True \<in> set oks then 1 else 0) \<and>
    (\<forall>m < length (reconnect_waits mx skip (min mx (i * 2 ^ j)) oks).
       reconnect_waits mx skip (min mx (i * 2 ^ j)) oks ! m =
         (if skip \<and> m = 0 then None else Some (min mx (i * 2 ^ (j + (if skip then m - 1 else m))))))"
proof (induction oks arbitrary: skip j)
  case (Cons ok oks)
  have nx: "(if skip then min mx (i * 2 ^ j) else next_backoff mx (min mx (i * 2 ^ j))) = min mx (i * 2 ^ (if skip then j else Suc j))"
    using next_backoff_min [OF assms, of j] by simp
  show ?case
  proof (cases ok)
    case True
    then show ?thesis by auto
  next
    case False
    have ih: "length (reconnect_waits mx False (min mx (i * 2 ^ (if skip then j else Suc j))) oks) = length (takeWhile Not oks) + (if True \<in> set oks then 1 else 0)"
      "m < length (reconnect_waits mx False (min mx (i * 2 ^ (if skip then j else Suc j))) oks) \<Longrightarrow>
        reconnect_waits mx False (min mx (i * 2 ^ (if skip then j else Suc j))) oks ! m = Some (min mx (i * 2 ^ ((if skip then j else Suc j) + m)))" for m
      using Cons.IH [of False "if skip then j else Suc j"] by auto
    show ?thesis using ih False unfolding reconnect_waits.simps nx by (auto simp: nth_Cons split: nat.splits)
  qed
qed simp

lemma jitter_bounds: "2 \<le> b \<Longrightarrow> \<exists>w. jitter b r = Some w \<and> b - b div 4 \<le> w \<and> w \<le> b + b div 4"
proof -
  assume b: "2 \<le> b"
  have "0 \<le> r mod (b div 2)" "r mod (b div 2) < b div 2" using b by auto
  moreover have "b div 2 - 1 \<le> 2 * (b div 4)" by presburger
  ultimately have "r mod (b div 2) \<le> 2 * (b div 4)" by linarith
  then show ?thesis using b \<open>0 \<le> r mod (b div 2)\<close> by (auto simp: jitter_def)
qed

section \<open>The edge's answers at the client\<close>

text \<open>An edge message as the client decodes it, and a requested close as the peer sees it on QUIC.\<close>

definition reply_of :: "edge_msg \<Rightarrow> hello_reply" where
  "reply_of m =
     (case m of
        MsgError code name msg \<Rightarrow> ReplyError code msg
      | MsgHelloOK slug base shp version \<Rightarrow> ReplyOK \<lparr>ho_slug = slug, ho_baseDomain = base, ho_shape = shp, ho_version = version\<rparr>
      | MsgRegistered name url \<Rightarrow> ReplyOther ''registered'')"

definition remote_close :: "close_req \<Rightarrow> closeInfo" where
  "remote_close c = (case c of CloseReq code reason \<Rightarrow>
     \<lparr>ci_code = code, ci_codeValid = True, ci_remote = True, ci_reason = sanitizeReason reason, ci_cause = None\<rparr>)"

lemma negotiate_reply:
  assumes "tr_open t = None" and "tr_write t = None" and "tr_read t = Inr (reply_of m)"
  shows "(\<forall>code name msg. m = MsgError code name msg \<longrightarrow> (\<exists>err. fst (negotiateCandidate token scope t) = Inl err \<and> \<not> ce_eligible err)) \<and>
    (\<forall>slug base shp. m = MsgHelloOK slug base shp ProtoVersion \<longrightarrow>
      fst (negotiateCandidate token scope t) = Inr \<lparr>ho_slug = slug, ho_baseDomain = base, ho_shape = shp, ho_version = ProtoVersion\<rparr>)"
proof (intro conjI allI impI)
  fix code name msg assume "m = MsgError code name msg"
  then have "refused t" using assms by (auto simp: refused_def reply_of_def)
  from refused_terminal [OF this, of token scope] show "\<exists>err. fst (negotiateCandidate token scope t) = Inl err \<and> \<not> ce_eligible err"
    by (metis prod.collapse)
next
  fix slug base shp assume "m = MsgHelloOK slug base shp ProtoVersion"
  then show "fst (negotiateCandidate token scope t) = Inr \<lparr>ho_slug = slug, ho_baseDomain = base, ho_shape = shp, ho_version = ProtoVersion\<rparr>"
    using assms by (simp add: negotiateCandidate_def reply_of_def)
qed

lemma remote_close_terminal: "\<exists>err. helloFailureFromCloseInfo (remote_close c) = Some err \<and> \<not> ce_eligible err"
  by (cases c) (simp add: helloFailureFromCloseInfo_def helloRejectionFromCloseInfo_def remote_close_def)

lemma refusal_codes:
  "rejection_code (remote_close (CloseReq CloseProtocol ''first message must be hello'')) = ''bad_hello''"
  "rejection_code (remote_close (CloseReq CloseProtocol ''malformed hello'')) = ''bad_hello''"
  "rejection_code (remote_close (CloseReq CloseProtocol ''protocol version mismatch'')) = ''bad_version''"
  "rejection_code (remote_close (CloseReq CloseAuth ''authentication rejected'')) = ''bad_token''"
  "rejection_code (remote_close (CloseReq CloseCapacity ''authenticated session capacity reached'')) = ''over_limit''"
  by code_simp+

lemma checkHello_codes:
  assumes "checkHello resolve m = Inl r" and "rf_reply r = Some (MsgError code name msg)"
  shows "\<exists>c. rf_close r = Some c \<and> rejection_code (remote_close c) = code"
  using assms by (auto simp: checkHello_def refusal_codes split: first_msg.splits if_splits option.splits)

lemma handshake_refusal_codes:
  assumes "handshake resolve writeOK closed t k m e = ((ms, c, False), e')"
  shows "(\<forall>code name msg. MsgError code name msg \<in> set ms \<longrightarrow> ms = [MsgError code name msg] \<and> rejection_code (remote_close c) = code) \<and>
    (\<forall>name url. MsgRegistered name url \<notin> set ms)"
proof (cases "checkHello resolve m")
  case (Inl r)
  then have ms: "ms = (case rf_reply r of None \<Rightarrow> [] | Some m \<Rightarrow> [m])"
    and c: "c = (case rf_close r of Some c \<Rightarrow> c | None \<Rightarrow> CloseReq CloseNormal ''session handler ended'')"
    using assms by (auto simp: handshake_def refuse_def Let_def)
  have "rf_reply r = None \<or> (\<exists>code name msg. rf_reply r = Some (MsgError code name msg))"
    using Inl by (auto simp: checkHello_def split: first_msg.splits if_splits option.splits)
  then show ?thesis using ms c checkHello_codes [OF Inl] by auto
next
  case (Inr x)
  obtain slug h where x: "x = (slug, h)" by fastforce
  obtain ok a where a: "acquireAuthenticated (ed_adm e) = (ok, a)" by fastforce
  show ?thesis
  proof (cases "ok \<and> writeOK")
    case False
    then show ?thesis using assms Inr x a by (auto simp: handshake_def refuse_def Let_def refusal_codes split: if_splits)
  next
    case True
    then show ?thesis using assms Inr x a
      by (auto simp: handshake_def refuse_def Let_def split: if_splits prod.splits)
  qed
qed

section \<open>Properties\<close>

text \<open>
  C32. One session at a time: whatever the network, the contexts and the edge do during a cycle of
  \<open>connectOnce\<close>, a transport is dialed only when every earlier one has been joined, and a hello
  is sent only on a live one. A cycle that succeeds leaves exactly the installed session alive,
  negotiated under the client's protocol version and, on a reconnect, for the same slug; one that
  fails installs nothing, changes no name, and leaves a transport alive only when its cleanup
  timed out.
\<close>

theorem connect_single_session:
  assumes "connectOnce now first env c = ((r, c'), acts)"
  shows "\<exists>b. live_run False acts = Some b \<and>
     (case r of
        None \<Rightarrow> b \<and> \<not> cl_isClosed c \<and> (\<exists>t hok. cl_sess c' = Some t \<and> tr_read t = Inr (ReplyOK hok) \<and> ho_version hok = ProtoVersion \<and>
          (if first then cl_slug c' = ho_slug hok \<and> cl_baseDomain c' = ho_baseDomain hok \<and> cl_shape c' = ho_shape hok
           else ho_slug hok = cl_slug c \<and> cl_slug c' = cl_slug c \<and> cl_baseDomain c' = cl_baseDomain c \<and> cl_shape c' = cl_shape c))
      | Some e \<Rightarrow> (b \<longrightarrow> JoinTimeout \<in> set acts) \<and> cl_sess c' = cl_sess c \<and> cl_slug c' = cl_slug c \<and>
          cl_baseDomain c' = cl_baseDomain c \<and> cl_shape c' = cl_shape c)"
  using connect_loop_ok [OF assms [unfolded connectOnce_def] candidateOrder_ne] unfolding cycle_ok_def .

definition ex_options :: options where
  "ex_options = \<lparr>op_heartbeat = 1, op_registerTimeout = 1, op_reconnectInitial = 1, op_reconnectMax = 1, op_scope = [], op_transport = ''auto''\<rparr>"

definition ex_client :: client where
  "ex_client = \<lparr>cl_serverAddr = ''edge:443'', cl_token = ''tok'', cl_opts = ex_options, cl_sess = None, cl_slug = ''team'', cl_baseDomain = ''b.dev'',
     cl_shape = [], cl_isClosed = False, cl_fallbackCount = 0, cl_lastFallback = None, cl_lastSuccessful = None, cl_tcpFallbackAt = None\<rparr>"

definition ex_ok :: helloOK where
  "ex_ok = \<lparr>ho_slug = ''team'', ho_baseDomain = ''b.dev'', ho_shape = [], ho_version = 1\<rparr>"

definition ex_transport :: "kind \<Rightarrow> (go_error + hello_reply) \<Rightarrow> transport" where
  "ex_transport k reply = \<lparr>tr_kind = k, tr_open = None, tr_write = None, tr_read = reply, tr_info = zero_info, tr_closed = False, tr_doneFirst = False,
     tr_infoDone = zero_info, tr_closedLater = False, tr_ctx = None, tr_joins = True, tr_final = local_close 0 ''candidate cleanup''\<rparr>"

text \<open>An edge whose QUIC answer is \<open>reply\<close> and that accepts over TCP.\<close>

definition ex_env :: "(go_error + hello_reply) \<Rightarrow> kind \<Rightarrow> cand_env" where
  "ex_env reply k = \<lparr>cn_tcp = Inr (ex_transport KindTCP (Inr (ReplyOK ex_ok))), cn_resolve = Inr [''10.0.0.1:443''],
     cn_dial = (\<lambda>a. Inr (ex_transport KindQUIC reply)), cn_dialCtx = (\<lambda>_. None), cn_retryCtx = (\<lambda>_. None),
     cn_parentAfter = None, cn_candidateAfter = None, cn_parentFail = None\<rparr>"

theorem connect_single_session_witness:
  "\<exists>c' acts. connectOnce 0 True (ex_env (Inl EOF)) ex_client = ((None, c'), acts) \<and> live_run False acts = Some True \<and>
     map is_dialed acts = [True, False, False, False, False, True, False] \<and> cl_slug c' = ''team''"
proof -
  have "map is_dialed (snd (connectOnce 0 True (ex_env (Inl EOF)) ex_client)) = [True, False, False, False, False, True, False] \<and>
    fst (fst (connectOnce 0 True (ex_env (Inl EOF)) ex_client)) = None \<and> cl_slug (snd (fst (connectOnce 0 True (ex_env (Inl EOF)) ex_client))) = ''team''"
    by code_simp
  then obtain c' acts where r: "connectOnce 0 True (ex_env (Inl EOF)) ex_client = ((None, c'), acts)"
    "map is_dialed acts = [True, False, False, False, False, True, False]" "cl_slug c' = ''team''"
    by (metis prod.collapse)
  show ?thesis using connect_single_session [OF r(1)] r by auto
qed

text \<open>
  C33. A refusal is final: once the edge has refused the hello on a transport, by an error message
  or by closing the connection with a code, even while the candidate was failing for another
  reason, the cycle ends with an error and no other address or transport is dialed after it.
\<close>

theorem no_fallback_after_refusal:
  assumes "connectOnce now first env c = ((r, c'), pre @ Dialed k a # post)"
    and "transport_at (env k) k a = Some t" and "refused t"
  shows "r \<noteq> None \<and> (\<forall>k' a'. Dialed k' a' \<notin> set post) \<and> cl_sess c' = cl_sess c"
proof -
  have "r \<noteq> None \<and> \<not> list_ex is_dialed post"
    by (rule connect_loop_refused [OF assms(2,3) assms(1) [unfolded connectOnce_def] candidateOrder_ne])
  moreover have "cycle_ok first c r c' (pre @ Dialed k a # post)"
    by (rule connect_loop_ok [OF assms(1) [unfolded connectOnce_def] candidateOrder_ne])
  ultimately show ?thesis by (auto simp: cycle_ok_def list_ex_iff)
qed

theorem no_fallback_after_refusal_witness:
  "\<exists>r c' post. connectOnce 0 True (ex_env (Inr (ReplyError ''bad_token'' ''invalid token''))) ex_client = ((r, c'), [] @ Dialed KindQUIC ''10.0.0.1:443'' # post) \<and>
     r \<noteq> None \<and> (\<forall>k' a'. Dialed k' a' \<notin> set post)"
proof -
  let ?env = "ex_env (Inr (ReplyError ''bad_token'' ''invalid token''))"
  have "take 1 (snd (connectOnce 0 True ?env ex_client)) = [Dialed KindQUIC ''10.0.0.1:443'']" by code_simp
  then obtain r c' post where r: "connectOnce 0 True ?env ex_client = ((r, c'), [] @ Dialed KindQUIC ''10.0.0.1:443'' # post)"
    by (cases "connectOnce 0 True ?env ex_client"; cases "snd (connectOnce 0 True ?env ex_client)"; cases "fst (connectOnce 0 True ?env ex_client)") auto
  have t: "transport_at (?env KindQUIC) KindQUIC ''10.0.0.1:443'' = Some (ex_transport KindQUIC (Inr (ReplyError ''bad_token'' ''invalid token'')))"
    by (simp add: transport_at_def ex_env_def)
  have "refused (ex_transport KindQUIC (Inr (ReplyError ''bad_token'' ''invalid token'')))" by (simp add: refused_def ex_transport_def)
  then show ?thesis using no_fallback_after_refusal [OF r t] r by blast
qed

text \<open>
  C34. The two ends of the handshake agree. Whenever the edge refuses a hello, the client takes its
  answer as final on both ways it can arrive, as the error message on the control stream and as
  the close of the connection, and both carry the same code; and when the edge admits the hello,
  the client that reads its answer gets the slug, base domain and URL shape the edge sent.
\<close>

theorem handshake_agreement:
  assumes "handshake resolve writeOK closed s k m e = ((ms, c, admitted), e')"
    and "tr_open t = None" and "tr_write t = None" and "ms \<noteq> []" and "tr_read t = Inr (reply_of (hd ms))"
  shows "(admitted \<longrightarrow> (\<exists>slug. ms = [MsgHelloOK slug (baseDomain (ed_reg e)) (shape_string (urlShape (ed_reg e))) ProtoVersion] \<and>
        fst (negotiateCandidate token scope t) =
          Inr \<lparr>ho_slug = slug, ho_baseDomain = baseDomain (ed_reg e), ho_shape = shape_string (urlShape (ed_reg e)), ho_version = ProtoVersion\<rparr>)) \<and>
    (\<forall>code name msg. \<not> admitted \<and> hd ms = MsgError code name msg \<longrightarrow>
        (\<exists>err. fst (negotiateCandidate token scope t) = Inl err \<and> \<not> ce_eligible err) \<and>
        (\<exists>err. helloFailureFromCloseInfo (remote_close c) = Some err \<and> \<not> ce_eligible err) \<and> rejection_code (remote_close c) = code)"
proof -
  note reply = negotiate_reply [OF assms(2,3,5), of token scope]
  have "\<exists>slug. ms = [MsgHelloOK slug (baseDomain (ed_reg e)) (shape_string (urlShape (ed_reg e))) ProtoVersion]" if admitted
    using assms(1) that by (auto simp: handshake_def refuse_def Let_def split: sum.splits prod.splits if_splits)
  moreover have "rejection_code (remote_close c) = code" if "\<not> admitted" "hd ms = MsgError code name msg" for code name msg
    using handshake_refusal_codes [of resolve writeOK closed s k m e ms c e'] assms(1,4) that by (metis hd_in_set)
  ultimately show ?thesis using reply remote_close_terminal by (metis list.sel(1))
qed

theorem handshake_agreement_witness:
  "\<exists>ms c e'. handshake (\<lambda>tok sc. None) True False 7 KindQUIC (GotHello \<lparr>h_token = ''t'', h_scope = [], h_maxStreams = 128, h_protoVersion = 1\<rparr>) ex_hs_edge
      = ((ms, c, False), e') \<and> ms = [MsgError ''bad_token'' [] ''invalid token''] \<and> rejection_code (remote_close c) = ''bad_token''"
proof -
  let ?hs = "handshake (\<lambda>tok sc. None) True False 7 KindQUIC (GotHello \<lparr>h_token = ''t'', h_scope = [], h_maxStreams = 128, h_protoVersion = 1\<rparr>) ex_hs_edge"
  have v: "fst (fst ?hs) = [MsgError ''bad_token'' [] ''invalid token''] \<and> \<not> snd (snd (fst ?hs))" by code_simp
  obtain ms c b e' where r: "?hs = ((ms, c, b), e')" by (metis prod.collapse)
  then have ms: "ms = [MsgError ''bad_token'' [] ''invalid token'']" "\<not> b" using v by auto
  have "rejection_code (remote_close c) = ''bad_token''"
    using handshake_agreement [OF r, of "ex_transport KindTCP (Inr (reply_of (hd ms)))"] ms by (simp add: ex_transport_def)
  then show ?thesis using r ms by auto
qed

text \<open>
  C35. The outcome of a cycle decides where the next begins, in the automatic mode: after a session
  over QUIC the next cycle probes QUIC first; after a fallback to TCP at time \<open>now\<close> it begins with
  TCP for ten minutes and with QUIC afterwards, the other transport staying second; and the
  fallback is counted once, exactly when the cycle fell back.
\<close>

theorem fallback_remembered:
  assumes "op_transport (cl_opts c) = ''auto''" and "kinds_ok env"
    and "connectOnce now first env c = ((None, c'), acts)" and "candidateOrder first now c = [KindQUIC, KindTCP]"
  shows "\<exists>t. cl_sess c' = Some t \<and>
    (tr_kind t = KindQUIC \<longrightarrow> cl_fallbackCount c' = cl_fallbackCount c \<and> candidateOrder False now' c' = [KindQUIC, KindTCP]) \<and>
    (tr_kind t = KindTCP \<longrightarrow> cl_fallbackCount c' = cl_fallbackCount c + 1 \<and>
       candidateOrder False now' c' = (if now' - now < minutes 10 then [KindTCP, KindQUIC] else [KindQUIC, KindTCP]))"
proof -
  have run: "connect_loop now first env None [KindQUIC, KindTCP] c = ((None, c'), acts)" using assms(3,4) by (simp add: connectOnce_def)
  from connect_loop_success [OF run] show ?thesis
  proof (elim disjE exE conjE)
    fix t hok acts1
    assume cc: "connectCandidate (cl_serverAddr c) (cl_token c) (op_scope (cl_opts c)) KindQUIC (env KindQUIC) = (Inr (t, hok), acts1)"
      and ins: "installSession t hok first c = (None, c')"
    have "tr_kind t = KindQUIC" by (rule connectCandidate_kind [where env = env and k = KindQUIC, OF cc assms(2)])
    then show ?thesis using install_frame [OF ins] assms(1) by (simp add: candidateOrder_def)
  next
    fix ce acts2
    assume "connect_loop now first env (Some (Candidate ce)) [KindTCP]
        (if KindQUIC = KindQUIC \<and> hd [KindTCP] = KindTCP then note_fallback now (ce_reason ce) c else c) = ((None, c'), acts2)"
    then have run2: "connect_loop now first env (Some (Candidate ce)) [KindTCP] (note_fallback now (ce_reason ce) c) = ((None, c'), acts2)" by simp
    from connect_loop_success [OF run2] obtain t hok acts1 where
        cc: "connectCandidate (cl_serverAddr (note_fallback now (ce_reason ce) c)) (cl_token (note_fallback now (ce_reason ce) c))
          (op_scope (cl_opts (note_fallback now (ce_reason ce) c))) KindTCP (env KindTCP) = (Inr (t, hok), acts1)"
      and ins: "installSession t hok first (note_fallback now (ce_reason ce) c) = (None, c')" by auto
    have "tr_kind t = KindTCP" by (rule connectCandidate_kind [where env = env and k = KindTCP, OF cc assms(2)])
    then show ?thesis using install_frame [OF ins] assms(1) by (simp add: candidateOrder_def note_fallback_def)
  qed
qed

theorem fallback_remembered_witness:
  "\<exists>c' acts t. connectOnce 5 True (ex_env (Inl EOF)) ex_client = ((None, c'), acts) \<and> cl_sess c' = Some t \<and> tr_kind t = KindTCP \<and>
     cl_fallbackCount c' = 1 \<and> candidateOrder False 6 c' = [KindTCP, KindQUIC]"
proof -
  have "fst (fst (connectOnce 5 True (ex_env (Inl EOF)) ex_client)) = None \<and>
      map_option tr_kind (cl_sess (snd (fst (connectOnce 5 True (ex_env (Inl EOF)) ex_client)))) = Some KindTCP \<and>
      candidateOrder True 5 ex_client = [KindQUIC, KindTCP]" by code_simp
  then obtain c' acts where r: "connectOnce 5 True (ex_env (Inl EOF)) ex_client = ((None, c'), acts)"
    and k: "map_option tr_kind (cl_sess c') = Some KindTCP" and ord: "candidateOrder True 5 ex_client = [KindQUIC, KindTCP]"
    by (metis prod.collapse)
  have "kinds_ok (ex_env (Inl EOF))" by (auto simp: kinds_ok_def ex_env_def ex_transport_def)
  moreover have "op_transport (cl_opts ex_client) = ''auto''" by (simp add: ex_client_def ex_options_def)
  ultimately obtain t where t: "cl_sess c' = Some t" "tr_kind t = KindTCP \<longrightarrow> cl_fallbackCount c' = cl_fallbackCount ex_client + 1 \<and>
       candidateOrder False 6 c' = (if 6 - 5 < minutes 10 then [KindTCP, KindQUIC] else [KindQUIC, KindTCP])"
    using fallback_remembered [of ex_client "ex_env (Inl EOF)" 5 True c' acts 6] r ord by blast
  moreover have "(6 :: int) - 5 < minutes 10" by code_simp
  ultimately show ?thesis using r k by (auto simp: ex_client_def)
qed

text \<open>
  C36. Reconnects back off exponentially within bounds: for an initial backoff of at least two
  nanoseconds and no more than the maximum, the attempts stop with the first success, the wait
  before attempt \<open>m\<close> is the initial one doubled each time up to the maximum, without overflow
  and with the first one skipped after a shutdown of the edge, and the jitter never panics and
  moves a wait by at most a quarter.
\<close>

theorem reconnect_backoff:
  assumes "2 \<le> initial" and "initial \<le> mx" and "mx < 2 ^ 61"
  shows "length (reconnect_waits mx skip initial oks) = length (takeWhile Not oks) + (if True \<in> set oks then 1 else 0) \<and>
    (\<forall>m < length (reconnect_waits mx skip initial oks).
       if skip \<and> m = 0 then reconnect_waits mx skip initial oks ! m = None
       else (\<exists>b w. reconnect_waits mx skip initial oks ! m = Some b \<and> b = min mx (initial * 2 ^ (if skip then m - 1 else m)) \<and>
              jitter b r = Some w \<and> b - b div 4 \<le> w \<and> w \<le> b + b div 4))"
proof -
  have m0: "min mx (initial * 2 ^ 0) = initial" using assms by simp
  have w: "length (reconnect_waits mx skip initial oks) = length (takeWhile Not oks) + (if True \<in> set oks then 1 else 0)"
    "m < length (reconnect_waits mx skip initial oks) \<Longrightarrow>
       reconnect_waits mx skip initial oks ! m = (if skip \<and> m = 0 then None else Some (min mx (initial * 2 ^ (if skip then m - 1 else m))))" for m
    using waits_exact [of initial mx skip 0 oks] assms by (simp_all only: m0 add_0)
  have "2 \<le> min mx (initial * 2 ^ n)" for n
  proof -
    have "2 * 1 \<le> initial * 2 ^ n" using assms(1) by (intro mult_mono) auto
    then show ?thesis using assms by simp
  qed
  then show ?thesis using w jitter_bounds by auto
qed

theorem reconnect_backoff_witness:
  "reconnect_waits 30000000000 True 500000000 [False, False, True] = [None, Some 500000000, Some 1000000000] \<and>
   length (reconnect_waits 30000000000 True 500000000 [False, False, True]) = 3"
proof -
  have "reconnect_waits 30000000000 True 500000000 [False, False, True] = [None, Some 500000000, Some 1000000000]" by code_simp
  then show ?thesis using reconnect_backoff [of 500000000 30000000000 True "[False, False, True]" 0] by simp
qed

end
