(* ===== verification/Client.thy ===== *)
theory Client
  imports Dialing
begin

text \<open>
  The client on a live session (\<open>src/internal/client/client.go\<close>): \<open>Register\<close> with its two-phase
  change of the intended tunnels and its rollback, \<open>Unregister\<close>, the replay after a reconnect, the
  dispatch of control messages to the register in flight, and the data streams: the name prefix,
  the lookup of the backend, the admission of handlers and the end of the two copies. The calls of
  \<open>Register\<close> and the reader of the control stream run concurrently; a step is what one of them does
  between two points at which another may run.
\<close>

section \<open>State\<close>

text \<open>What the reader of the control stream gets, decoded.\<close>

datatype client_msg =
    GotRegistered string string      \<comment> \<open>name and URL\<close>
  | GotError string string string    \<comment> \<open>code, name and message\<close>
  | GotUndecodable
  | GotUnexpected string

datatype reply = RegisteredReply string string | ErrorReply string string string

datatype reg_error = EdgeRefused string string | ReplyTimeout | WriteFailed | NoSession | ClientIsClosed

datatype reg_phase =
    RIntended   \<comment> \<open>entered in \<open>intended\<close>, waiting for \<open>registerMu\<close>\<close>
  | RLocked     \<comment> \<open>holds \<open>registerMu\<close>, in \<open>registerNow\<close>\<close>
  | RWaiting    \<comment> \<open>its \<open>pendingRegister\<close> is set and the register is sent\<close>
  | RReplied    \<comment> \<open>has a result, the pending slot not yet cleared\<close>
  | RCleared    \<comment> \<open>the pending slot is cleared\<close>
  | RRolled     \<comment> \<open>rolled back if it failed; still holds \<open>registerMu\<close>\<close>
  | RReturned

record register_call =
  rg_name :: string
  rg_port :: int
  rg_user :: bool                 \<comment> \<open>\<open>Register\<close>, as opposed to a register of the replay\<close>
  rg_prev :: "int option"
  rg_phase :: reg_phase
  rg_session :: nat               \<comment> \<open>the session it was sent on; for the replay, the one replayed\<close>
  rg_pending :: nat
  rg_result :: "(reg_error + string) option"

record pendingRegister =
  pd_name :: string
  pd_chan :: "reply option"       \<comment> \<open>a channel of capacity one\<close>

text \<open>A session: its pending register and the channel and reply its reader is blocked on, if it is.\<close>

record session_slot =
  sl_pending :: "nat option"
  sl_sending :: "(nat \<times> reply) option"
  sl_dead :: bool                 \<comment> \<open>\<open>sessionUnavailable\<close>\<close>

record client_state =
  st_intended :: "(string, int) gomap"
  st_calls :: "register_call list"
  st_pendings :: "pendingRegister list"
  st_mutex :: "nat option"        \<comment> \<open>who holds \<open>registerMu\<close>\<close>
  st_slots :: "session_slot list"
  st_current :: "nat option"      \<comment> \<open>\<open>Client.sess\<close>\<close>
  st_skipBackoff :: bool

definition init_state :: client_state where
  "init_state = \<lparr>st_intended = [], st_calls = [], st_pendings = [], st_mutex = None, st_slots = [], st_current = None, st_skipBackoff = False\<rparr>"

section \<open>Operations\<close>

definition new_call :: "string \<Rightarrow> int \<Rightarrow> int option \<Rightarrow> register_call" where
  "new_call name port prev =
     \<lparr>rg_name = name, rg_port = port, rg_user = True, rg_prev = prev, rg_phase = RIntended, rg_session = 0, rg_pending = 0, rg_result = None\<rparr>"

text \<open>\<open>Register\<close> up to the mutex.\<close>

definition register_begin :: "string \<Rightarrow> int \<Rightarrow> client_state \<Rightarrow> client_state" where
  "register_begin n port c =
     (let name = (if n = [] then labelFromPort port else n)
      in c\<lparr>st_calls := st_calls c @ [new_call name port (map_of (st_intended c) name)],
           st_intended := AList.update name port (st_intended c)\<rparr>)"

text \<open>The deferred part of a failed \<open>Register\<close>.\<close>

definition rollback :: "register_call \<Rightarrow> (string, int) gomap \<Rightarrow> (string, int) gomap" where
  "rollback g m =
     (if map_of m (rg_name g) = Some (rg_port g)
      then (case rg_prev g of Some prev \<Rightarrow> AList.update (rg_name g) prev m | None \<Rightarrow> AList.delete (rg_name g) m)
      else m)"

definition result_of_reply :: "reply \<Rightarrow> reg_error + string" where
  "result_of_reply r = (case r of RegisteredReply name url \<Rightarrow> Inr url | ErrorReply code name msg \<Rightarrow> Inl (EdgeRefused code msg))"

text \<open>\<open>readControl\<close> on one message: the reply for the pending register, and does it skip the backoff.\<close>

definition dispatch :: "pendingRegister option \<Rightarrow> client_msg \<Rightarrow> reply option \<times> bool" where
  "dispatch pending m =
     (case m of
        GotRegistered name url \<Rightarrow>
          (case pending of
             Some g \<Rightarrow> (if pd_name g = name then Some (RegisteredReply name url) else None, False)
           | None \<Rightarrow> (None, False))
      | GotError code name msg \<Rightarrow>
          (case pending of
             None \<Rightarrow> None
           | Some g \<Rightarrow> if name \<noteq> [] \<and> name \<noteq> pd_name g then None else Some (ErrorReply code name msg),
           code = ''shutdown'')
      | GotUndecodable \<Rightarrow> (None, False)
      | GotUnexpected typ \<Rightarrow> (None, False))"

abbreviation upd_call :: "nat \<Rightarrow> (register_call \<Rightarrow> register_call) \<Rightarrow> client_state \<Rightarrow> client_state" where
  "upd_call i f c \<equiv> c\<lparr>st_calls := (st_calls c)[i := f (st_calls c ! i)]\<rparr>"

abbreviation upd_slot :: "nat \<Rightarrow> (session_slot \<Rightarrow> session_slot) \<Rightarrow> client_state \<Rightarrow> client_state" where
  "upd_slot j f c \<equiv> c\<lparr>st_slots := (st_slots c)[j := f (st_slots c ! j)]\<rparr>"

abbreviation upd_chan :: "nat \<Rightarrow> reply option \<Rightarrow> client_state \<Rightarrow> client_state" where
  "upd_chan k r c \<equiv> c\<lparr>st_pendings := (st_pendings c)[k := (st_pendings c ! k)\<lparr>pd_chan := r\<rparr>]\<rparr>"

definition rg_at :: "reg_phase \<Rightarrow> nat \<Rightarrow> client_state \<Rightarrow> bool" where
  "rg_at p i c \<longleftrightarrow> i < length (st_calls c) \<and> rg_phase (st_calls c ! i) = p"

text \<open>May call \<open>i\<close> send on session \<open>j\<close>: the client's session, or the one the replay is for.\<close>

definition may_send :: "nat \<Rightarrow> nat \<Rightarrow> client_state \<Rightarrow> bool" where
  "may_send i j c \<longleftrightarrow> j < length (st_slots c) \<and> \<not> sl_dead (st_slots c ! j) \<and>
     (if rg_user (st_calls c ! i) then st_current c = Some j else rg_session (st_calls c ! i) = j)"

definition clear_pending :: "nat \<Rightarrow> client_state \<Rightarrow> client_state" where
  "clear_pending i c = upd_slot (rg_session (st_calls c ! i)) (\<lambda>s. s\<lparr>sl_pending := None\<rparr>) c"

definition set_result :: "nat \<Rightarrow> reg_phase \<Rightarrow> reg_error + string \<Rightarrow> client_state \<Rightarrow> client_state" where
  "set_result i p r c = upd_call i (\<lambda>g. g\<lparr>rg_phase := p, rg_result := Some r\<rparr>) c"

text \<open>
  \<open>errSessionUnavailable\<close>: a user's register goes back to waiting for a session, one of the replay
  fails.
\<close>

definition session_gone :: "nat \<Rightarrow> client_state \<Rightarrow> client_state" where
  "session_gone i c =
     (if rg_user (st_calls c ! i) then upd_call i (\<lambda>g. g\<lparr>rg_phase := RLocked\<rparr>) (clear_pending i c)
      else set_result i RReplied (Inl NoSession) c)"

datatype c_label =
    CRegister string int | CReplay nat string int | CUnregister string
  | CLock nat | CSend nat nat | CWriteFails nat | CTake nat | CGiveUp nat reg_error
  | CSessionGone nat | CClear nat | CRollback nat | CUnlock nat
  | CReceive nat client_msg | CDeliver nat
  | CConnect | CSessionDies nat | CDisconnect

text \<open>
  \<open>CSend i j\<close> makes the pending register, puts it into the slot of session \<open>j\<close> and starts to write;
  \<open>CWriteFails\<close>: the write failed. \<open>CGiveUp\<close>: the deadline, or the client was closed. \<open>CSessionGone\<close>:
  the session ended, and no reply is there.
\<close>

fun c_step :: "c_label \<Rightarrow> client_state \<Rightarrow> client_state option" where
  "c_step (CRegister n port) c = Some (register_begin n port c)"
| "c_step (CReplay j name port) c =
     (if st_mutex c = None \<and> j < length (st_slots c) \<and> map_of (st_intended c) name = Some port
      then Some (c\<lparr>st_mutex := Some (length (st_calls c)),
                   st_calls := st_calls c @ [(new_call name port None)\<lparr>rg_user := False, rg_phase := RLocked, rg_session := j\<rparr>]\<rparr>)
      else None)"
| "c_step (CUnregister name) c = Some (c\<lparr>st_intended := AList.delete name (st_intended c)\<rparr>)"
| "c_step (CLock i) c =
     (if rg_at RIntended i c \<and> st_mutex c = None then Some (upd_call i (\<lambda>g. g\<lparr>rg_phase := RLocked\<rparr>) (c\<lparr>st_mutex := Some i\<rparr>)) else None)"
| "c_step (CSend i j) c =
     (if rg_at RLocked i c \<and> may_send i j c
      then Some (upd_call i (\<lambda>g. g\<lparr>rg_phase := RWaiting, rg_session := j, rg_pending := length (st_pendings c)\<rparr>)
             (upd_slot j (\<lambda>s. s\<lparr>sl_pending := Some (length (st_pendings c))\<rparr>)
               (c\<lparr>st_pendings := st_pendings c @ [\<lparr>pd_name = rg_name (st_calls c ! i), pd_chan = None\<rparr>]\<rparr>)))
      else None)"
| "c_step (CWriteFails i) c =
     (if rg_at RWaiting i c
      then Some (if sl_dead (st_slots c ! rg_session (st_calls c ! i)) then session_gone i c else set_result i RReplied (Inl WriteFailed) c)
      else None)"
| "c_step (CTake i) c =
     (if rg_at RWaiting i c then
        (case pd_chan (st_pendings c ! rg_pending (st_calls c ! i)) of
           None \<Rightarrow> None
         | Some r \<Rightarrow> Some (set_result i RReplied (result_of_reply r) (upd_chan (rg_pending (st_calls c ! i)) None c)))
      else None)"
| "c_step (CGiveUp i err) c =
     (if rg_at RWaiting i c \<and> (err = ReplyTimeout \<or> err = ClientIsClosed) then Some (set_result i RReplied (Inl err) c)
      else if rg_at RLocked i c \<and> (if rg_user (st_calls c ! i) then err = NoSession \<or> err = ClientIsClosed
                                  else err = NoSession \<and> sl_dead (st_slots c ! rg_session (st_calls c ! i))) then Some (set_result i RCleared (Inl err) c)
      else None)"
| "c_step (CSessionGone i) c =
     (if rg_at RWaiting i c \<and> sl_dead (st_slots c ! rg_session (st_calls c ! i)) \<and> pd_chan (st_pendings c ! rg_pending (st_calls c ! i)) = None
      then Some (session_gone i c)
      else None)"
| "c_step (CClear i) c =
     (if rg_at RReplied i c then Some (upd_call i (\<lambda>g. g\<lparr>rg_phase := RCleared\<rparr>) (clear_pending i c)) else None)"
| "c_step (CRollback i) c =
     (if rg_at RCleared i c then
        (let g = st_calls c ! i
         in Some (upd_call i (\<lambda>g. g\<lparr>rg_phase := RRolled\<rparr>)
              (c\<lparr>st_intended := (case rg_result g of
                   Some (Inl err) \<Rightarrow> if rg_user g then rollback g (st_intended c) else st_intended c
                 | _ \<Rightarrow> st_intended c)\<rparr>)))
      else None)"
| "c_step (CUnlock i) c =
     (if rg_at RRolled i c then Some (upd_call i (\<lambda>g. g\<lparr>rg_phase := RReturned\<rparr>) (c\<lparr>st_mutex := None\<rparr>)) else None)"
| "c_step (CReceive j m) c =
     (if j < length (st_slots c) \<and> sl_sending (st_slots c ! j) = None then
        (let p = sl_pending (st_slots c ! j)
         in case dispatch (map_option (\<lambda>k. st_pendings c ! k) p) m of (r, skip) \<Rightarrow>
              let c = c\<lparr>st_skipBackoff := st_skipBackoff c \<or> skip\<rparr>
              in Some (case r of None \<Rightarrow> c | Some r \<Rightarrow> upd_slot j (\<lambda>s. s\<lparr>sl_sending := Some (the p, r)\<rparr>) c))
      else None)"
| "c_step (CDeliver j) c =
     (if j < length (st_slots c) then
        (case sl_sending (st_slots c ! j) of
           None \<Rightarrow> None
         | Some (k, r) \<Rightarrow>
             if pd_chan (st_pendings c ! k) = None then Some (upd_slot j (\<lambda>s. s\<lparr>sl_sending := None\<rparr>) (upd_chan k (Some r) c)) else None)
      else None)"
| "c_step CConnect c =
     Some (c\<lparr>st_slots := st_slots c @ [\<lparr>sl_pending = None, sl_sending = None, sl_dead = False\<rparr>], st_current := Some (length (st_slots c))\<rparr>)"
| "c_step (CSessionDies j) c = (if j < length (st_slots c) then Some (upd_slot j (\<lambda>s. s\<lparr>sl_dead := True\<rparr>) c) else None)"
| "c_step CDisconnect c = Some (c\<lparr>st_current := None\<rparr>)"

fun c_run :: "c_label list \<Rightarrow> client_state \<Rightarrow> client_state option" where
  "c_run [] c = Some c"
| "c_run (l # ls) c = (case c_step l c of None \<Rightarrow> None | Some c' \<Rightarrow> c_run ls c')"

section \<open>Replay\<close>

text \<open>
  One pass of \<open>replayIntended\<close>: the snapshot in the order of the map iteration, what \<open>intended\<close> holds
  for a name when it is looked at again, and whether its register succeeds. The names that failed.
\<close>

definition replayIntended ::
    "(string \<Rightarrow> int option) \<Rightarrow> (string \<Rightarrow> bool) \<Rightarrow> string list option \<Rightarrow> (string \<times> int) list \<Rightarrow> string list" where
  "replayIntended current ok only snapshot =
     map fst (filter (\<lambda>(name, port).
       (case only of None \<Rightarrow> True | Some names \<Rightarrow> name \<in> set names) \<and> current name = Some port \<and> \<not> ok name) snapshot)"

text \<open>\<open>replayLoop\<close> over the rounds that the session lives for: \<open>Some k\<close> when round \<open>k\<close> left nothing to do.\<close>

type_synonym replay_round = "(string \<times> int) list \<times> (string \<Rightarrow> int option) \<times> (string \<Rightarrow> bool)"

fun replayLoop :: "string list option \<Rightarrow> replay_round list \<Rightarrow> nat option" where
  "replayLoop only [] = None"
| "replayLoop only ((snapshot, current, ok) # rounds) =
     (let failed = replayIntended current ok only snapshot
      in if failed = [] then Some 0 else map_option Suc (replayLoop (Some failed) rounds))"

section \<open>Data streams\<close>

datatype stream_outcome = Aborted | ToBackend int string   \<comment> \<open>the port, and the bytes behind the prefix\<close>

definition handleStream :: "(string, int) gomap \<Rightarrow> (int \<Rightarrow> bool) \<Rightarrow> string \<Rightarrow> stream_outcome" where
  "handleStream intended dials data =
     (case readSlice 64 data of (line, res, rest) \<Rightarrow>
        if res \<noteq> SliceOK \<or> length line = 0 \<or> 64 < length line then Aborted
        else (let name = trim_suffix [newline] line
              in if validateLabel name \<noteq> None then Aborted
                 else (case map_of intended name of
                         None \<Rightarrow> Aborted
                       | Some port \<Rightarrow> if dials port then ToBackend port rest else Aborted)))"

text \<open>
  The end of the two copies: which direction ended first and whether each failed. The calls made
  on the stream and the backend; the deferred close of the backend is left out.
\<close>

datatype direction = RequestCopy | ResponseCopy

datatype copy_call = AbortStream | CloseStream | CloseBackend | DrainStream

definition finish_copies :: "direction \<Rightarrow> bool \<Rightarrow> bool \<Rightarrow> copy_call list" where
  "finish_copies first firstFailed secondFailed =
     (let earlyResponse = (first = ResponseCopy \<and> \<not> firstFailed)
      in (if firstFailed then [AbortStream, CloseBackend] else []) @
         (if earlyResponse then [CloseBackend] else []) @
         (if secondFailed \<and> \<not> earlyResponse then [AbortStream, CloseBackend] else []) @
         (if earlyResponse then (if \<not> secondFailed then [CloseStream] else [DrainStream])
          else if \<not> firstFailed \<and> \<not> secondFailed then [CloseStream] else []))"

text \<open>\<open>acceptStreamsLoop\<close>: handlers in use and streams turned away.\<close>

definition maxStreamHandlers :: nat where
  "maxStreamHandlers = 128"

definition accept_stream :: "nat \<times> 64 word \<Rightarrow> bool \<times> nat \<times> 64 word" where
  "accept_stream s = (case s of (used, rejects) \<Rightarrow>
     if used < maxStreamHandlers then (True, used + 1, rejects) else (False, used, rejects + 1))"

section \<open>Who holds the mutex, whose register is pending\<close>

definition holding :: "reg_phase \<Rightarrow> bool" where
  "holding p \<longleftrightarrow> p \<in> {RLocked, RWaiting, RReplied, RCleared, RRolled}"

definition in_flight :: "reg_phase \<Rightarrow> bool" where
  "in_flight p \<longleftrightarrow> p \<in> {RWaiting, RReplied}"

lemma phase_simps [simp]:
  "holding RLocked" "holding RWaiting" "holding RReplied" "holding RCleared" "holding RRolled" "\<not> holding RIntended" "\<not> holding RReturned"
  "in_flight RWaiting" "in_flight RReplied" "\<not> in_flight RLocked" "\<not> in_flight RCleared" "\<not> in_flight RRolled" "\<not> in_flight RIntended" "\<not> in_flight RReturned"
  by (simp_all add: holding_def in_flight_def)

lemma in_flight_holding: "in_flight p \<Longrightarrow> holding p"
  by (auto simp: in_flight_def holding_def)

definition mutex_inv :: "client_state \<Rightarrow> bool" where
  "mutex_inv c \<longleftrightarrow> (\<forall>i < length (st_calls c). holding (rg_phase (st_calls c ! i)) \<longleftrightarrow> st_mutex c = Some i) \<and>
     (\<forall>i. st_mutex c = Some i \<longrightarrow> i < length (st_calls c))"

definition pending_inv :: "client_state \<Rightarrow> bool" where
  "pending_inv c \<longleftrightarrow>
     (\<forall>j < length (st_slots c). \<forall>k. sl_pending (st_slots c ! j) = Some k \<longrightarrow>
        (\<exists>i < length (st_calls c). in_flight (rg_phase (st_calls c ! i)) \<and> rg_session (st_calls c ! i) = j \<and> rg_pending (st_calls c ! i) = k)) \<and>
     (\<forall>i < length (st_calls c). in_flight (rg_phase (st_calls c ! i)) \<longrightarrow>
        rg_session (st_calls c ! i) < length (st_slots c) \<and> rg_pending (st_calls c ! i) < length (st_pendings c) \<and>
        pd_name (st_pendings c ! rg_pending (st_calls c ! i)) = rg_name (st_calls c ! i))"

lemmas c_defs = new_call_def clear_pending_def set_result_def

lemma rg_at_len: "rg_at p i c \<Longrightarrow> i < length (st_calls c)"
  by (simp add: rg_at_def)

lemma rg_at_phase: "rg_at p i c \<Longrightarrow> rg_phase (st_calls c ! i) = p"
  by (simp add: rg_at_def)

lemma held: "mutex_inv c \<Longrightarrow> rg_at p i c \<Longrightarrow> holding p \<Longrightarrow> st_mutex c = Some i"
  by (auto simp: mutex_inv_def rg_at_def)

lemma nth_upd_same: "f y = f (xs ! i) \<Longrightarrow> f (xs[i := y] ! k) = f (xs ! k)"
  by (cases "i < length xs"; cases "k = i") (auto simp: list_update_beyond)

lemma upd_frames [simp]:
  "pd_name (ps[i := (ps ! i)\<lparr>pd_chan := r\<rparr>] ! k) = pd_name (ps ! k)"
  "sl_pending (ss[j := (ss ! j)\<lparr>sl_sending := x\<rparr>] ! k) = sl_pending (ss ! k)"
  "sl_pending (ss[j := (ss ! j)\<lparr>sl_dead := d\<rparr>] ! k) = sl_pending (ss ! k)"
  "sl_sending (ss[j := (ss ! j)\<lparr>sl_pending := y\<rparr>] ! k) = sl_sending (ss ! k)"
  "sl_sending (ss[j := (ss ! j)\<lparr>sl_dead := d\<rparr>] ! k) = sl_sending (ss ! k)"
  "rg_name (gs[i := (gs ! i)\<lparr>rg_phase := p\<rparr>] ! k) = rg_name (gs ! k)"
  "rg_result (gs[i := (gs ! i)\<lparr>rg_phase := p\<rparr>] ! k) = rg_result (gs ! k)"
  by (auto intro: nth_upd_same)

text \<open>One call changes its phase; the mutex goes with it.\<close>

lemma mutex_upd:
  assumes "mutex_inv c" and "i < length (st_calls c)" and "length (st_calls c') = length (st_calls c)"
    and "\<And>k. k \<noteq> i \<Longrightarrow> st_calls c' ! k = st_calls c ! k" and "holding (rg_phase (st_calls c' ! i)) \<longleftrightarrow> st_mutex c' = Some i"
    and "st_mutex c' = st_mutex c \<or> st_mutex c' = None \<and> st_mutex c = Some i \<or> st_mutex c' = Some i \<and> st_mutex c = None"
  shows "mutex_inv c'"
  using assms unfolding mutex_inv_def by (metis option.sel option.distinct(1))

lemma mutex_inv_step:
  assumes "c_step l c = Some c'" and "mutex_inv c"
  shows "mutex_inv c'"
proof -
  note upd = mutex_upd [OF assms(2)] and held = held [OF assms(2)]
  show ?thesis
  proof (cases l)
    case (CRegister n port)
    then show ?thesis using assms by (auto simp: mutex_inv_def register_begin_def new_call_def Let_def nth_append less_Suc_eq)
  next
    case (CReplay j name port)
    then show ?thesis using assms by (auto simp: mutex_inv_def new_call_def nth_append less_Suc_eq split: if_splits)
  next
    case (CLock i)
    then show ?thesis using assms(1) by (intro upd [of i]) (auto simp: rg_at_len split: if_splits)
  next
    case (CSend i j)
    then show ?thesis using assms(1) held [of RLocked i] by (intro upd [of i]) (auto simp: rg_at_len split: if_splits)
  next
    case (CWriteFails i)
    then show ?thesis using assms(1) held [of RWaiting i]
      by (intro upd [of i]) (auto simp: rg_at_len session_gone_def set_result_def clear_pending_def split: if_splits)
  next
    case (CTake i)
    then show ?thesis using assms(1) held [of RWaiting i] by (intro upd [of i]) (auto simp: rg_at_len set_result_def split: if_splits option.splits)
  next
    case (CGiveUp i err)
    then show ?thesis using assms(1) held [of RWaiting i] held [of RLocked i]
      by (intro upd [of i]) (auto simp: rg_at_len set_result_def split: if_splits)
  next
    case (CSessionGone i)
    then show ?thesis using assms(1) held [of RWaiting i]
      by (intro upd [of i]) (auto simp: rg_at_len session_gone_def set_result_def clear_pending_def split: if_splits)
  next
    case (CClear i)
    then show ?thesis using assms(1) held [of RReplied i] by (intro upd [of i]) (auto simp: rg_at_len clear_pending_def split: if_splits)
  next
    case (CRollback i)
    then show ?thesis using assms(1) held [of RCleared i] by (intro upd [of i]) (auto simp: rg_at_len Let_def split: if_splits)
  next
    case (CUnlock i)
    then show ?thesis using assms(1) held [of RRolled i] by (intro upd [of i]) (auto simp: rg_at_len split: if_splits)
  qed (use assms in \<open>auto simp: mutex_inv_def Let_def split: if_splits option.splits prod.splits\<close>)
qed

lemma only_holder:
  assumes "mutex_inv c" and "rg_at p i c" and "holding p" and "k < length (st_calls c)" and "holding (rg_phase (st_calls c ! k))"
  shows "k = i"
  using assms held [OF assms(1-3)] by (auto simp: mutex_inv_def)

text \<open>A step that leaves what is in flight, the pending slots and the names in the channels.\<close>

lemma pending_same:
  assumes "pending_inv c" and "length (st_calls c') = length (st_calls c)"
    and calls: "\<And>k. k < length (st_calls c) \<Longrightarrow> in_flight (rg_phase (st_calls c' ! k)) = in_flight (rg_phase (st_calls c ! k)) \<and>
      rg_session (st_calls c' ! k) = rg_session (st_calls c ! k) \<and> rg_pending (st_calls c' ! k) = rg_pending (st_calls c ! k) \<and>
      rg_name (st_calls c' ! k) = rg_name (st_calls c ! k)"
    and "length (st_slots c) \<le> length (st_slots c')"
    and slots: "\<And>j. j < length (st_slots c') \<Longrightarrow> sl_pending (st_slots c' ! j) = (if j < length (st_slots c) then sl_pending (st_slots c ! j) else None)"
    and "length (st_pendings c') = length (st_pendings c)"
    and names: "\<And>k. k < length (st_pendings c) \<Longrightarrow> pd_name (st_pendings c' ! k) = pd_name (st_pendings c ! k)"
  shows "pending_inv c'"
  unfolding pending_inv_def
proof (intro conjI allI impI, goal_cases)
  case (1 j k)
  then have "j < length (st_slots c)" "sl_pending (st_slots c ! j) = Some k" using slots by (auto split: if_splits)
  then show ?case using assms(1,2) calls unfolding pending_inv_def by metis
next
  case (2 i)
  then have i: "i < length (st_calls c)" using assms(2) by simp
  then show ?case using 2 assms(1,4) calls [OF i] unfolding pending_inv_def by (metis order.strict_trans2)
next
  case (3 i)
  then have i: "i < length (st_calls c)" using assms(2) by simp
  then show ?case using 3 assms(1,6) calls [OF i] unfolding pending_inv_def by metis
next
  case (4 i)
  then have i: "i < length (st_calls c)" using assms(2) by simp
  then have "in_flight (rg_phase (st_calls c ! i))" using 4 calls by metis
  then have "rg_pending (st_calls c ! i) < length (st_pendings c)" "pd_name (st_pendings c ! rg_pending (st_calls c ! i)) = rg_name (st_calls c ! i)"
    using i assms(1) by (auto simp: pending_inv_def)
  then show ?case using calls [OF i] names by metis
qed

lemma pending_append:
  assumes "pending_inv c" and "st_calls c' = st_calls c @ [g]" and "\<not> in_flight (rg_phase g)" and "st_slots c' = st_slots c" and "st_pendings c' = st_pendings c"
  shows "pending_inv c'"
  using assms by (force simp: pending_inv_def nth_append less_Suc_eq)

lemma pending_send:
  assumes "pending_inv c" and "mutex_inv c" and at: "rg_at RLocked i c" and j: "j < length (st_slots c)"
  shows "pending_inv (upd_call i (\<lambda>g. g\<lparr>rg_phase := RWaiting, rg_session := j, rg_pending := length (st_pendings c)\<rparr>)
      (upd_slot j (\<lambda>s. s\<lparr>sl_pending := Some (length (st_pendings c))\<rparr>)
        (c\<lparr>st_pendings := st_pendings c @ [\<lparr>pd_name = rg_name (st_calls c ! i), pd_chan = None\<rparr>]\<rparr>)))"
proof -
  have none: "\<not> in_flight (rg_phase (st_calls c ! k))" if "k < length (st_calls c)" for k
    using only_holder [OF assms(2) at _ that] at in_flight_holding by (cases "k = i") (auto simp: rg_at_def)
  then have idle: "sl_pending (st_slots c ! m) = None" if "m < length (st_slots c)" for m
    using assms(1) that by (cases "sl_pending (st_slots c ! m)") (auto simp: pending_inv_def)
  show ?thesis using none idle j rg_at_len [OF at] by (auto simp: pending_inv_def nth_list_update)
qed

lemma pending_idle:
  assumes "\<And>m. m < length (st_slots c) \<Longrightarrow> sl_pending (st_slots c ! m) = None"
    and "\<And>k. k < length (st_calls c) \<Longrightarrow> \<not> in_flight (rg_phase (st_calls c ! k))"
  shows "pending_inv c"
  using assms by (auto simp: pending_inv_def)

lemma pending_clear:
  assumes "pending_inv c" and "mutex_inv c" and at: "rg_at p i c" and "in_flight p" and "\<not> in_flight q"
  shows "pending_inv (upd_call i (\<lambda>g. g\<lparr>rg_phase := q\<rparr>) (clear_pending i c))"
proof -
  have other: "\<not> in_flight (rg_phase (st_calls c ! k))" if "k < length (st_calls c)" "k \<noteq> i" for k
    using only_holder [OF assms(2) at _ that(1)] that(2) assms(4) in_flight_holding by auto
  have here: "rg_session (st_calls c ! i) = m" if "m < length (st_slots c)" "sl_pending (st_slots c ! m) = Some k" for m k
    using assms(1) that other unfolding pending_inv_def by blast
  show ?thesis
  proof (rule pending_idle)
    fix m assume m: "m < length (st_slots (upd_call i (\<lambda>g. g\<lparr>rg_phase := q\<rparr>) (clear_pending i c)))"
    show "sl_pending (st_slots (upd_call i (\<lambda>g. g\<lparr>rg_phase := q\<rparr>) (clear_pending i c)) ! m) = None"
    proof (cases "rg_session (st_calls c ! i) = m")
      case True
      then show ?thesis using m by (simp add: clear_pending_def)
    next
      case False
      then have "sl_pending (st_slots c ! m) = None" using m here [of m] by (cases "sl_pending (st_slots c ! m)") (auto simp: clear_pending_def)
      then show ?thesis using False by (simp add: clear_pending_def)
    qed
  next
    fix k assume "k < length (st_calls (upd_call i (\<lambda>g. g\<lparr>rg_phase := q\<rparr>) (clear_pending i c)))"
    then show "\<not> in_flight (rg_phase (st_calls (upd_call i (\<lambda>g. g\<lparr>rg_phase := q\<rparr>) (clear_pending i c)) ! k))"
      using other [of k] assms(5) rg_at_len [OF at] by (cases "k = i") (auto simp: clear_pending_def)
  qed
qed

lemma pending_result: "pending_inv c \<Longrightarrow> rg_at RWaiting i c \<Longrightarrow> pending_inv (set_result i RReplied x c)"
  by (rule pending_same) (auto simp: set_result_def rg_at_def nth_list_update)

lemma pending_gone: "pending_inv c \<Longrightarrow> mutex_inv c \<Longrightarrow> rg_at RWaiting i c \<Longrightarrow> pending_inv (session_gone i c)"
  by (simp add: session_gone_def pending_result pending_clear)

lemma pending_inv_step:
  assumes "c_step l c = Some c'" and "mutex_inv c" and "pending_inv c"
  shows "pending_inv c'"
proof -
  note same = pending_same [OF assms(3)]
  show ?thesis
  proof (cases l)
    case (CRegister n port)
    then show ?thesis using assms(1) by (intro pending_append [OF assms(3), of _ "new_call _ _ _"]) (auto simp: register_begin_def new_call_def Let_def)
  next
    case (CReplay j name port)
    then show ?thesis using assms(1)
      by (intro pending_append [OF assms(3), of _ "(new_call name port None)\<lparr>rg_user := False, rg_phase := RLocked, rg_session := j\<rparr>"]) (auto split: if_splits)
  next
    case (CSend i j)
    then have g: "rg_at RLocked i c \<and> may_send i j c" using assms(1) by (auto split: if_splits)
    then have j: "j < length (st_slots c)" by (simp add: may_send_def)
    show ?thesis using assms(1) pending_send [OF assms(3,2) conjunct1 [OF g] j] unfolding CSend by (simp add: g)
  next
    case (CSessionGone i)
    then show ?thesis using assms(1) pending_gone [OF assms(3,2), of i] by (auto split: if_splits)
  next
    case (CWriteFails i)
    then show ?thesis using assms(1) pending_gone [OF assms(3,2), of i] pending_result [OF assms(3), of i] by (auto split: if_splits)
  next
    case (CClear i)
    then show ?thesis using assms(1) by (auto split: if_splits intro!: pending_clear [OF assms(3,2), of RReplied])
  next
    case (CReceive j m)
    then show ?thesis using assms(1)
      by (intro same) (auto simp: Let_def nth_list_update split: if_splits option.splits prod.splits)
  next
    case CConnect
    then show ?thesis using assms(1) by (intro same) (auto simp: nth_append less_Suc_eq)
  qed (use assms(1) in \<open>intro same; auto simp: set_result_def rg_at_def Let_def nth_list_update split: if_splits option.splits prod.splits\<close>)+
qed

section \<open>Whose reply is delivered\<close>

fun ok_reply :: "client_msg set \<Rightarrow> string \<Rightarrow> reply \<Rightarrow> bool" where
  "ok_reply R n (RegisteredReply m url) \<longleftrightarrow> m = n \<and> GotRegistered n url \<in> R"
| "ok_reply R n (ErrorReply code m msg) \<longleftrightarrow> (m = [] \<or> m = n) \<and> GotError code m msg \<in> R"

fun ok_result :: "client_msg set \<Rightarrow> string \<Rightarrow> reg_error + string \<Rightarrow> bool" where
  "ok_result R n (Inr url) \<longleftrightarrow> GotRegistered n url \<in> R"
| "ok_result R n (Inl (EdgeRefused code msg)) \<longleftrightarrow> (\<exists>m. (m = [] \<or> m = n) \<and> GotError code m msg \<in> R)"
| "ok_result R n (Inl err) \<longleftrightarrow> True"

lemma ok_reply_mono: "ok_reply R n r \<Longrightarrow> R \<subseteq> R' \<Longrightarrow> ok_reply R' n r"
  by (cases r) auto

lemma ok_result_mono: "ok_result R n x \<Longrightarrow> R \<subseteq> R' \<Longrightarrow> ok_result R' n x"
  by (induction R n x rule: ok_result.induct) auto

lemma ok_result_of: "ok_reply R n r \<Longrightarrow> ok_result R n (result_of_reply r)"
  by (cases r) (auto simp: result_of_reply_def)

lemma dispatch_ok: "dispatch p m = (Some r, skip) \<Longrightarrow> \<exists>g. p = Some g \<and> ok_reply {m} (pd_name g) r"
  by (auto simp: dispatch_def split: client_msg.splits option.splits if_splits)

definition reply_inv :: "client_msg set \<Rightarrow> client_state \<Rightarrow> bool" where
  "reply_inv R c \<longleftrightarrow>
     (\<forall>j < length (st_slots c). \<forall>k r. sl_sending (st_slots c ! j) = Some (k, r) \<longrightarrow> k < length (st_pendings c) \<and> ok_reply R (pd_name (st_pendings c ! k)) r) \<and>
     (\<forall>k < length (st_pendings c). \<forall>r. pd_chan (st_pendings c ! k) = Some r \<longrightarrow> ok_reply R (pd_name (st_pendings c ! k)) r) \<and>
     (\<forall>i < length (st_calls c). \<forall>x. rg_result (st_calls c ! i) = Some x \<longrightarrow> ok_result R (rg_name (st_calls c ! i)) x)"

lemma reply_upd:
  assumes inv: "reply_inv R c" and R: "R \<subseteq> R'"
    and names: "length (st_pendings c) \<le> length (st_pendings c')" "\<And>k. k < length (st_pendings c) \<Longrightarrow> pd_name (st_pendings c' ! k) = pd_name (st_pendings c ! k)"
    and slots: "\<And>j k r. j < length (st_slots c') \<Longrightarrow> sl_sending (st_slots c' ! j) = Some (k, r) \<Longrightarrow>
      j < length (st_slots c) \<and> sl_sending (st_slots c ! j) = Some (k, r) \<or> k < length (st_pendings c) \<and> ok_reply R' (pd_name (st_pendings c ! k)) r"
    and chans: "\<And>k r. k < length (st_pendings c') \<Longrightarrow> pd_chan (st_pendings c' ! k) = Some r \<Longrightarrow>
      k < length (st_pendings c) \<and> pd_chan (st_pendings c ! k) = Some r \<or> ok_reply R (pd_name (st_pendings c' ! k)) r"
    and calls: "\<And>i x. i < length (st_calls c') \<Longrightarrow> rg_result (st_calls c' ! i) = Some x \<Longrightarrow>
      i < length (st_calls c) \<and> rg_result (st_calls c ! i) = Some x \<and> rg_name (st_calls c' ! i) = rg_name (st_calls c ! i) \<or> ok_result R (rg_name (st_calls c' ! i)) x"
  shows "reply_inv R' c'"
  unfolding reply_inv_def
proof (intro conjI allI impI, goal_cases)
  case (1 j k r)
  then show ?case using slots [OF 1] inv names(1) unfolding reply_inv_def by fastforce
next
  case (2 j k r)
  then show ?case using slots [OF 2] inv names(2) [of k] R ok_reply_mono unfolding reply_inv_def by metis
next
  case (3 k r)
  then show ?case using chans [OF 3] inv names(2) [of k] R ok_reply_mono unfolding reply_inv_def by metis
next
  case (4 i x)
  then show ?case using calls [OF 4] inv R ok_result_mono unfolding reply_inv_def by metis
qed

definition received :: "c_label \<Rightarrow> client_msg set" where
  "received l = (case l of CReceive j m \<Rightarrow> {m} | _ \<Rightarrow> {})"

lemma received_simps [simp]: "received (CReceive j m) = {m}" "(\<And>j m. l \<noteq> CReceive j m) \<Longrightarrow> received l = {}"
  by (auto simp: received_def split: c_label.splits)

lemma reply_inv_step:
  assumes "c_step l c = Some c'" and pend: "pending_inv c" and "reply_inv R c"
  shows "reply_inv (R \<union> received l) c'"
proof -
  note upd = reply_upd [OF assms(3), of "R \<union> received l"]
  have new: "ok_result R n (Inl err)" if "err \<in> {WriteFailed, ReplyTimeout, ClientIsClosed, NoSession}" for n err using that by auto
  show ?thesis
  proof (cases l)
    case (CTake i)
    then obtain r where at: "rg_at RWaiting i c" and r: "pd_chan (st_pendings c ! rg_pending (st_calls c ! i)) = Some r"
      and c': "c' = set_result i RReplied (result_of_reply r) (upd_chan (rg_pending (st_calls c ! i)) None c)"
      using assms(1) by (auto split: if_splits option.splits)
    have "ok_result R (rg_name (st_calls c ! i)) (result_of_reply r)"
    proof -
      have "rg_pending (st_calls c ! i) < length (st_pendings c)" "pd_name (st_pendings c ! rg_pending (st_calls c ! i)) = rg_name (st_calls c ! i)"
        using pend at by (auto simp: pending_inv_def rg_at_def)
      then show ?thesis using assms(3) r ok_result_of by (auto simp: reply_inv_def)
    qed
    moreover have "rg_pending (st_calls c ! i) < length (st_pendings c)" "i < length (st_calls c)" using pend at by (auto simp: pending_inv_def rg_at_def)
    ultimately show ?thesis unfolding c' by (intro upd) (auto simp: set_result_def nth_list_update split: if_splits)
  next
    case (CReceive j m)
    then have j: "j < length (st_slots c)" using assms(1) by (auto split: if_splits)
    obtain r skip where d: "dispatch (map_option (\<lambda>k. st_pendings c ! k) (sl_pending (st_slots c ! j))) m = (r, skip)" by fastforce
    show ?thesis
    proof (cases r)
      case None
      then have "c' = c\<lparr>st_skipBackoff := st_skipBackoff c \<or> skip\<rparr>" using assms(1) d CReceive by (auto simp: Let_def split: if_splits)
      then show ?thesis by (intro upd) auto
    next
      case (Some r')
      then obtain k where k: "sl_pending (st_slots c ! j) = Some k" "ok_reply {m} (pd_name (st_pendings c ! k)) r'"
        using dispatch_ok [of _ m r' skip] d by auto
      then have kl: "k < length (st_pendings c)" using pend j unfolding pending_inv_def by metis
      have c': "c' = upd_slot j (\<lambda>s. s\<lparr>sl_sending := Some (k, r')\<rparr>) (c\<lparr>st_skipBackoff := st_skipBackoff c \<or> skip\<rparr>)"
        using assms(1) d CReceive Some k by (auto simp: Let_def split: if_splits)
      show ?thesis unfolding c' using j kl ok_reply_mono [OF k(2), of "insert m R"] CReceive
        by (intro upd) (auto simp: nth_list_update split: if_splits)
    qed
  next
    case (CDeliver j)
    then obtain k r where s: "j < length (st_slots c)" "sl_sending (st_slots c ! j) = Some (k, r)"
      and c': "c' = upd_slot j (\<lambda>s. s\<lparr>sl_sending := None\<rparr>) (upd_chan k (Some r) c)"
      using assms(1) by (auto split: if_splits option.splits)
    then have "k < length (st_pendings c)" "ok_reply R (pd_name (st_pendings c ! k)) r" using assms(3) by (auto simp: reply_inv_def)
    then show ?thesis using s(1) unfolding c' by (intro upd) (auto simp: nth_list_update split: if_splits)
  next
    case (CRegister n port)
    then show ?thesis using assms(1) by (intro upd) (auto simp: register_begin_def new_call_def Let_def nth_append split: if_splits)
  next
    case (CReplay j name port)
    then show ?thesis using assms(1) by (intro upd) (auto simp: new_call_def nth_append split: if_splits)
  next
    case (CSend i j)
    then show ?thesis using assms(1) by (intro upd) (auto simp: rg_at_def nth_append nth_list_update split: if_splits)
  next
    case CConnect
    then show ?thesis using assms(1) by (intro upd) (auto simp: nth_append split: if_splits)
  next
    case (CRollback i)
    then show ?thesis using assms(1) by (intro upd) (auto simp: rg_at_def Let_def nth_list_update split: if_splits)
  qed (use assms(1) new in \<open>intro upd; auto simp: rg_at_def session_gone_def set_result_def clear_pending_def nth_list_update split: if_splits\<close>)+
qed

lemma client_inv_run:
  "c_run ls c = Some c' \<Longrightarrow> mutex_inv c \<and> pending_inv c \<and> reply_inv R c \<Longrightarrow>
    mutex_inv c' \<and> pending_inv c' \<and> reply_inv (R \<union> \<Union> (received ` set ls)) c'"
proof (induction ls arbitrary: c R)
  case (Cons l ls)
  then obtain c1 where c1: "c_step l c = Some c1" "c_run ls c1 = Some c'" by (auto split: option.splits)
  have "mutex_inv c1 \<and> pending_inv c1 \<and> reply_inv (R \<union> received l) c1"
    using Cons.prems(2) mutex_inv_step [OF c1(1)] pending_inv_step [OF c1(1)] reply_inv_step [OF c1(1)] by blast
  from Cons.IH [OF c1(2) this] show ?case by (simp add: Un_assoc)
qed simp

lemma client_inv_init: "mutex_inv init_state \<and> pending_inv init_state \<and> reply_inv {} init_state"
  by (simp add: mutex_inv_def pending_inv_def reply_inv_def init_state_def)

section \<open>Registering a name that no one else touches\<close>

definition effective_name :: "string \<Rightarrow> int \<Rightarrow> string" where
  "effective_name n port = (if n = [] then labelFromPort port else n)"

fun touches :: "string \<Rightarrow> c_label \<Rightarrow> bool" where
  "touches name (CRegister n port) \<longleftrightarrow> effective_name n port = name"
| "touches name (CUnregister n) \<longleftrightarrow> n = name"
| "touches name _ \<longleftrightarrow> False"

definition settled :: "reg_phase \<Rightarrow> bool" where
  "settled p \<longleftrightarrow> p = RRolled \<or> p = RReturned"

text \<open>Call \<open>i\<close> is the only unsettled one of a user for its name.\<close>

definition alone_inv :: "nat \<Rightarrow> string \<Rightarrow> int \<Rightarrow> int option \<Rightarrow> client_state \<Rightarrow> bool" where
  "alone_inv i name port old c \<longleftrightarrow> i < length (st_calls c) \<and>
     rg_name (st_calls c ! i) = name \<and> rg_port (st_calls c ! i) = port \<and> rg_prev (st_calls c ! i) = old \<and> rg_user (st_calls c ! i) \<and>
     (\<forall>k < length (st_calls c). k \<noteq> i \<longrightarrow> rg_name (st_calls c ! k) = name \<longrightarrow> rg_user (st_calls c ! k) \<longrightarrow> settled (rg_phase (st_calls c ! k))) \<and>
     (rg_result (st_calls c ! i) = None \<longleftrightarrow> rg_phase (st_calls c ! i) \<in> {RIntended, RLocked, RWaiting}) \<and>
     map_of (st_intended c) name =
       (if settled (rg_phase (st_calls c ! i)) \<and> (\<exists>err. rg_result (st_calls c ! i) = Some (Inl err)) then old else Some port)"

lemma rollback_other: "rg_name g \<noteq> name \<Longrightarrow> map_of (rollback g m) name = map_of m name"
  by (auto simp: rollback_def split: option.splits)

lemma rollback_same: "map_of m (rg_name g) = Some (rg_port g) \<Longrightarrow> map_of (rollback g m) (rg_name g) = rg_prev g"
  by (auto simp: rollback_def split: option.splits)

lemma settled_simps [simp]: "settled RRolled" "settled RReturned" "\<not> settled RIntended" "\<not> settled RLocked" "\<not> settled RWaiting"
  "\<not> settled RReplied" "\<not> settled RCleared"
  by (simp_all add: settled_def)

text \<open>One call moves on without settling and without changing what it is for.\<close>

lemma alone_move:
  assumes inv: "alone_inv i name port old c" and m: "m < length (st_calls c)" and "st_intended c' = st_intended c"
    and "length (st_calls c') = length (st_calls c)" and "\<And>k. k \<noteq> m \<Longrightarrow> st_calls c' ! k = st_calls c ! k"
    and "rg_name (st_calls c' ! m) = rg_name (st_calls c ! m)" "rg_port (st_calls c' ! m) = rg_port (st_calls c ! m)"
    "rg_prev (st_calls c' ! m) = rg_prev (st_calls c ! m)" "rg_user (st_calls c' ! m) = rg_user (st_calls c ! m)"
    and "settled (rg_phase (st_calls c' ! m)) = settled (rg_phase (st_calls c ! m))"
    and "settled (rg_phase (st_calls c ! m)) \<Longrightarrow> rg_result (st_calls c' ! m) = rg_result (st_calls c ! m)"
    and "rg_result (st_calls c ! m) = None \<longleftrightarrow> rg_phase (st_calls c ! m) \<in> {RIntended, RLocked, RWaiting} \<Longrightarrow>
      rg_result (st_calls c' ! m) = None \<longleftrightarrow> rg_phase (st_calls c' ! m) \<in> {RIntended, RLocked, RWaiting}"
  shows "alone_inv i name port old c'"
proof (cases "m = i")
  case True
  then show ?thesis using assms unfolding alone_inv_def by metis
next
  case False
  then have "st_calls c' ! i = st_calls c ! i" using assms(5) by simp
  then show ?thesis using assms unfolding alone_inv_def by metis
qed

lemma alone_append:
  assumes "alone_inv i name port old c" and "st_calls c' = st_calls c @ [g]" and "rg_user g \<longrightarrow> rg_name g \<noteq> name"
    and "map_of (st_intended c') name = map_of (st_intended c) name"
  shows "alone_inv i name port old c'"
  using assms by (auto simp: alone_inv_def nth_append less_Suc_eq)

lemma alone_frame:
  assumes "alone_inv i name port old c" and "st_calls c' = st_calls c" and "map_of (st_intended c') name = map_of (st_intended c) name"
  shows "alone_inv i name port old c'"
  using assms by (auto simp: alone_inv_def)

lemma alone_rollback:
  assumes inv: "alone_inv i name port old c" and at: "rg_at RCleared m c"
    and c': "c' = upd_call m (\<lambda>g. g\<lparr>rg_phase := RRolled\<rparr>) (c\<lparr>st_intended := (case rg_result (st_calls c ! m) of
                   Some (Inl err) \<Rightarrow> if rg_user (st_calls c ! m) then rollback (st_calls c ! m) (st_intended c) else st_intended c
                 | _ \<Rightarrow> st_intended c)\<rparr>)"
  shows "alone_inv i name port old c'"
proof (cases "m = i")
  case True
  have i: "i < length (st_calls c)" and ph: "rg_phase (st_calls c ! i) = RCleared" using at True by (auto simp: rg_at_def)
  have now: "map_of (st_intended c) name = Some port" and g: "rg_name (st_calls c ! i) = name" "rg_port (st_calls c ! i) = port"
    "rg_prev (st_calls c ! i) = old" "rg_user (st_calls c ! i)" and res: "rg_result (st_calls c ! i) \<noteq> None"
    using inv ph by (auto simp: alone_inv_def)
  have rb: "map_of (rollback (st_calls c ! i) (st_intended c)) name = old" using rollback_same [of "st_intended c" "st_calls c ! i"] now g by simp
  show ?thesis using inv now g res rb i unfolding c' True alone_inv_def
    by (cases "rg_result (st_calls c ! i)"; cases "the (rg_result (st_calls c ! i))") (auto simp: nth_list_update)
next
  case False
  have m: "m < length (st_calls c)" and ph: "rg_phase (st_calls c ! m) = RCleared" using at by (auto simp: rg_at_def)
  have "rg_user (st_calls c ! m) \<longrightarrow> rg_name (st_calls c ! m) \<noteq> name" using inv m ph False by (auto simp: alone_inv_def)
  then have same: "map_of (st_intended c') name = map_of (st_intended c) name"
    unfolding c' using rollback_other [of "st_calls c ! m" name "st_intended c"] by (auto split: option.splits sum.splits)
  show ?thesis using inv same m False unfolding alone_inv_def by (auto simp: c' nth_list_update)
qed

lemma alone_step:
  assumes "c_step l c = Some c'" and inv: "alone_inv i name port old c" and "\<not> touches name l"
  shows "alone_inv i name port old c'"
proof -
  note move = alone_move [OF inv]
  show ?thesis
  proof (cases l)
    case (CRegister n p)
    then show ?thesis using assms
      by (intro alone_append [OF inv, of _ "new_call (effective_name n p) p (map_of (st_intended c) (effective_name n p))"])
        (auto simp: register_begin_def new_call_def effective_name_def Let_def)
  next
    case (CReplay j nm p)
    then show ?thesis using assms(1)
      by (intro alone_append [OF inv, of _ "(new_call nm p None)\<lparr>rg_user := False, rg_phase := RLocked, rg_session := j\<rparr>"]) (auto split: if_splits)
  next
    case (CRollback m)
    then have "rg_at RCleared m c" using assms(1) by (auto split: if_splits)
    then show ?thesis using assms(1) CRollback by (intro alone_rollback [OF inv, of m]) (auto simp: Let_def)
  next
    case (CSessionGone m)
    then show ?thesis using assms(1)
      by (intro move [of m]) (auto simp: rg_at_def session_gone_def set_result_def clear_pending_def split: if_splits)
  next
    case (CLock m)
    then show ?thesis using assms(1) by (intro move [of m]) (auto simp: rg_at_def split: if_splits)
  next
    case (CSend m j)
    then show ?thesis using assms(1) by (intro move [of m]) (auto simp: rg_at_def split: if_splits)
  next
    case (CWriteFails m)
    then show ?thesis using assms(1)
      by (intro move [of m]) (auto simp: rg_at_def session_gone_def set_result_def clear_pending_def split: if_splits)
  next
    case (CTake m)
    then show ?thesis using assms(1) by (intro move [of m]) (auto simp: rg_at_def set_result_def split: if_splits option.splits)
  next
    case (CGiveUp m err)
    then show ?thesis using assms(1) by (intro move [of m]) (auto simp: rg_at_def set_result_def split: if_splits)
  next
    case (CClear m)
    then show ?thesis using assms(1) by (intro move [of m]) (auto simp: rg_at_def clear_pending_def split: if_splits)
  next
    case (CUnlock m)
    then show ?thesis using assms(1) by (intro move [of m]) (auto simp: rg_at_def split: if_splits)
  next
    case (CReceive j m)
    then show ?thesis using assms(1) by (intro alone_frame [OF inv]) (auto simp: Let_def split: if_splits option.splits prod.splits)
  next
    case (CDeliver j)
    then show ?thesis using assms(1) by (intro alone_frame [OF inv]) (auto split: if_splits option.splits prod.splits)
  qed (use assms(1,3) in \<open>intro alone_frame [OF inv]; auto split: if_splits\<close>)+
qed

lemma alone_run: "c_run ls c = Some c' \<Longrightarrow> alone_inv i name port old c \<Longrightarrow> \<forall>l \<in> set ls. \<not> touches name l \<Longrightarrow> alone_inv i name port old c'"
  by (induction ls arbitrary: c) (auto split: option.splits dest: alone_step)

section \<open>A reader that no one will wake\<close>

definition stuck :: "nat \<Rightarrow> nat \<Rightarrow> reply \<Rightarrow> client_state \<Rightarrow> bool" where
  "stuck j k r c \<longleftrightarrow> j < length (st_slots c) \<and> k < length (st_pendings c) \<and> sl_sending (st_slots c ! j) = Some (k, r) \<and>
     pd_chan (st_pendings c ! k) \<noteq> None \<and> (\<forall>i < length (st_calls c). rg_phase (st_calls c ! i) = RWaiting \<longrightarrow> rg_pending (st_calls c ! i) \<noteq> k)"

lemma stuck_upd:
  assumes "stuck j k r c" and "j < length (st_slots c')" and "sl_sending (st_slots c' ! j) = sl_sending (st_slots c ! j)"
    and "k < length (st_pendings c')" and "pd_chan (st_pendings c ! k) \<noteq> None \<Longrightarrow> pd_chan (st_pendings c' ! k) \<noteq> None"
    and "\<And>i. i < length (st_calls c') \<Longrightarrow> rg_phase (st_calls c' ! i) = RWaiting \<Longrightarrow>
      (i < length (st_calls c) \<and> rg_phase (st_calls c ! i) = RWaiting \<and> rg_pending (st_calls c' ! i) = rg_pending (st_calls c ! i)) \<or>
      rg_pending (st_calls c' ! i) \<noteq> k"
  shows "stuck j k r c'"
  using assms unfolding stuck_def by metis

lemma stuck_step:
  assumes "c_step l c = Some c'" and st: "stuck j k r c"
  shows "stuck j k r c' \<and> (\<forall>m. l \<noteq> CReceive j m)"
proof -
  note upd = stuck_upd [OF st]
  have st': "j < length (st_slots c)" "k < length (st_pendings c)" "sl_sending (st_slots c ! j) = Some (k, r)" "pd_chan (st_pendings c ! k) \<noteq> None"
    using st by (auto simp: stuck_def)
  have "stuck j k r c'"
  proof (cases l)
    case (CTake i)
    then have "rg_pending (st_calls c ! i) \<noteq> k" using assms(1) st by (auto simp: stuck_def rg_at_def split: if_splits)
    then show ?thesis using assms(1) st' CTake
      by (intro upd) (auto simp: set_result_def rg_at_def nth_list_update split: if_splits option.splits)
  next
    case (CReceive j' m)
    then show ?thesis using assms(1) st' by (intro upd) (auto simp: Let_def nth_list_update split: if_splits option.splits prod.splits)
  next
    case (CDeliver j')
    then obtain k' r' where d: "j' < length (st_slots c)" "sl_sending (st_slots c ! j') = Some (k', r')" "pd_chan (st_pendings c ! k') = None"
      and c': "c' = upd_slot j' (\<lambda>s. s\<lparr>sl_sending := None\<rparr>) (upd_chan k' (Some r') c)"
      using assms(1) by (auto split: if_splits option.splits)
    have ne: "k' \<noteq> k" using d(3) st'(4) by auto
    then have "j' \<noteq> j" using d(2) st'(3) by auto
    then show ?thesis using ne st' unfolding c' by (intro upd) auto
  next
    case (CSend i j')
    then show ?thesis using assms(1) st' by (intro upd) (auto simp: rg_at_def nth_append nth_list_update split: if_splits)
  next
    case (CRegister n p)
    then show ?thesis using assms(1) st' by (intro upd) (auto simp: register_begin_def new_call_def Let_def nth_append split: if_splits)
  next
    case (CReplay j' n p)
    then show ?thesis using assms(1) st' by (intro upd) (auto simp: new_call_def nth_append split: if_splits)
  next
    case CConnect
    then show ?thesis using assms(1) st' by (intro upd) (auto simp: nth_append)
  qed (use assms(1) st' in \<open>intro upd; auto simp: session_gone_def set_result_def clear_pending_def rg_at_def Let_def nth_list_update split: if_splits\<close>)+
  then show ?thesis using assms(1) st' by auto
qed

lemma stuck_run: "c_run ls c = Some c' \<Longrightarrow> stuck j k r c \<Longrightarrow> stuck j k r c' \<and> (\<forall>m. CReceive j m \<notin> set ls)"
proof (induction ls arbitrary: c)
  case (Cons l ls)
  then obtain c1 where "c_step l c = Some c1" "c_run ls c1 = Some c'" by (auto split: option.splits)
  then show ?case using stuck_step [of l c c1 j k r] Cons by auto
qed simp

section \<open>The prefix of a data stream\<close>

lemma prefix_line: "newline \<notin> set name \<Longrightarrow> length name < n \<Longrightarrow> readSlice n (name @ [newline] @ rest) = (name @ [newline], SliceOK, rest)"
proof -
  assume a: "newline \<notin> set name" "length name < n"
  have i: "index_byte newline (name @ [newline] @ rest) = Some (length name)"
    using a(1) by (induction name) (auto simp del: index_byte_None)
  then have "index_byte newline (take n (name @ [newline] @ rest)) = Some (length name)" using a(2) by (simp only: index_byte_take) simp
  then show ?thesis unfolding readSlice_def by (simp only:) simp
qed

lemma line_ends: "readSlice n data = (line, SliceOK, rest) \<Longrightarrow> \<exists>p. line = p @ [newline] \<and> data = p @ [newline] @ rest \<and> length p < n"
proof -
  assume r: "readSlice n data = (line, SliceOK, rest)"
  obtain i where i: "index_byte newline (take n data) = Some i" and l: "line = take (i + 1) data" "rest = drop (i + 1) data"
    using r by (auto simp: readSlice_def split: option.splits if_splits)
  then have n: "i < n" "index_byte newline data = Some i" by (auto simp: index_byte_take split: option.splits if_splits)
  have "data ! i = newline" "i < length data" using n(2) by (induction data arbitrary: i) (auto split: if_splits option.splits)
  then have "take (i + 1) data = take i data @ [newline]" by (simp add: take_Suc_conv_app_nth)
  then show ?thesis using l n(1) by (intro exI [of _ "take i data"]) (metis append_take_drop_id append_assoc length_take min_less_iff_conj min.strict_coboundedI2)
qed

lemma label_newline: "labelRegex name \<Longrightarrow> newline \<notin> set name"
proof -
  have "newline = CHR ''\<newline>''" by code_simp
  then show "labelRegex name \<Longrightarrow> newline \<notin> set name" using label_no_special(3) [of name] by simp
qed

lemma label_prefix: "labelRegex name \<Longrightarrow> readSlice 64 (name @ [newline] @ rest) = (name @ [newline], SliceOK, rest)"
  using label_no_special(5) [of name] label_newline [of name] by (intro prefix_line) auto

lemma handleStream_prefix:
  assumes "labelRegex name"
  shows "handleStream m dials (name @ [newline] @ rest) =
    (case map_of m name of None \<Rightarrow> Aborted | Some port \<Rightarrow> if dials port then ToBackend port rest else Aborted)"
  using assms label_no_special [OF assms] unfolding handleStream_def by (simp only: label_prefix [OF assms]) auto

section \<open>Properties\<close>

lemma evaluated: "(case x of None \<Rightarrow> False | Some c \<Rightarrow> P c) \<Longrightarrow> \<exists>c. x = Some c \<and> P c"
  by (cases x) auto

lemma received_iff: "m \<in> received l \<longleftrightarrow> (\<exists>j. l = CReceive j m)"
  by (cases l) auto

text \<open>
  C27. A register gets only its own answer. In every run from the start, a call that succeeded got
  the URL of a \<open>registered\<close> message for its own name, and one refused by the edge the code of an
  error that names it or names no one; late answers to other names are dropped. At most one call
  holds \<open>registerMu\<close>, so a session has at most one register in flight, and it is that call's.
\<close>

theorem replies_reach_their_register:
  assumes "c_run ls init_state = Some c" and "i < length (st_calls c)"
  shows "(\<forall>url. rg_result (st_calls c ! i) = Some (Inr url) \<longrightarrow> (\<exists>j. CReceive j (GotRegistered (rg_name (st_calls c ! i)) url) \<in> set ls)) \<and>
    (\<forall>code msg. rg_result (st_calls c ! i) = Some (Inl (EdgeRefused code msg)) \<longrightarrow>
       (\<exists>j m. CReceive j (GotError code m msg) \<in> set ls \<and> (m = [] \<or> m = rg_name (st_calls c ! i)))) \<and>
    (\<forall>k < length (st_calls c). holding (rg_phase (st_calls c ! i)) \<and> holding (rg_phase (st_calls c ! k)) \<longrightarrow> k = i) \<and>
    (\<forall>s < length (st_slots c). \<forall>p. sl_pending (st_slots c ! s) = Some p \<longrightarrow> pd_name (st_pendings c ! p) = rg_name (st_calls c ! the (st_mutex c)))"
proof -
  have inv: "mutex_inv c" "pending_inv c" "reply_inv (\<Union> (received ` set ls)) c"
    using client_inv_run [OF assms(1) client_inv_init] by auto
  have rec: "\<exists>j. CReceive j m \<in> set ls" if "m \<in> \<Union> (received ` set ls)" for m
    using that by (auto simp: received_iff)
  have ok: "ok_result (\<Union> (received ` set ls)) (rg_name (st_calls c ! i)) x" if "rg_result (st_calls c ! i) = Some x" for x
    using inv(3) assms(2) that by (auto simp: reply_inv_def)
  have "pd_name (st_pendings c ! p) = rg_name (st_calls c ! the (st_mutex c))"
    if sp: "s < length (st_slots c)" "sl_pending (st_slots c ! s) = Some p" for s p
  proof -
    obtain k where k: "k < length (st_calls c)" "in_flight (rg_phase (st_calls c ! k))" "rg_pending (st_calls c ! k) = p"
      using inv(2) sp unfolding pending_inv_def by blast
    then have "st_mutex c = Some k" using inv(1) in_flight_holding by (auto simp: mutex_inv_def)
    then show ?thesis using inv(2) k by (auto simp: pending_inv_def)
  qed
  moreover have "k = i" if "k < length (st_calls c)" "holding (rg_phase (st_calls c ! i))" "holding (rg_phase (st_calls c ! k))" for k
    using inv(1) assms(2) that by (auto simp: mutex_inv_def)
  ultimately show ?thesis using rec ok by (fastforce dest!: ok)
qed

definition late_reply :: "c_label list" where
  "late_reply = [CConnect, CRegister ''a'' 80, CLock 0, CSend 0 0, CGiveUp 0 ReplyTimeout, CClear 0, CRollback 0, CUnlock 0,
     CRegister ''b'' 81, CLock 1, CSend 1 0, CReceive 0 (GotRegistered ''a'' ''https://a''), CReceive 0 (GotRegistered ''b'' ''https://b''), CDeliver 0, CTake 1]"

theorem replies_reach_their_register_witness:
  "map rg_result (st_calls (the (c_run late_reply init_state))) = [Some (Inl ReplyTimeout), Some (Inr ''https://b'')] \<and>
   (\<exists>j. CReceive j (GotRegistered ''b'' ''https://b'') \<in> set late_reply)"
proof -
  have r: "c_run late_reply init_state = Some (the (c_run late_reply init_state))" by code_simp
  have l: "1 < length (st_calls (the (c_run late_reply init_state)))" by code_simp
  have res: "map rg_result (st_calls (the (c_run late_reply init_state))) = [Some (Inl ReplyTimeout), Some (Inr ''https://b'')]" by code_simp
  have "rg_result (st_calls (the (c_run late_reply init_state)) ! 1) = Some (Inr ''https://b'')" "rg_name (st_calls (the (c_run late_reply init_state)) ! 1) = ''b''"
    by code_simp+
  then show ?thesis using res conjunct1 [OF replies_reach_their_register [OF r l]] by auto
qed

lemma register_alone:
  assumes "c_run (CRegister n port # ls) c = Some c'" and "\<forall>l \<in> set ls. \<not> touches (effective_name n port) l"
    and "\<forall>k < length (st_calls c). rg_name (st_calls c ! k) = effective_name n port \<longrightarrow> settled (rg_phase (st_calls c ! k))"
  shows "alone_inv (length (st_calls c)) (effective_name n port) port (map_of (st_intended c) (effective_name n port)) c'"
proof -
  have "alone_inv (length (st_calls c)) (effective_name n port) port (map_of (st_intended c) (effective_name n port)) (register_begin n port c)"
    using assms(3) by (auto simp: alone_inv_def register_begin_def new_call_def effective_name_def Let_def nth_append less_Suc_eq)
  then show ?thesis using assms(1,2) by (auto intro: alone_run)
qed

text \<open>
  C28. A register settles all or nothing. While \<open>Register\<close> of a name is under way the name is
  intended at the new port; once it has returned, the name is intended at that port if it
  succeeded, and back at what it was if it failed, however other registers, the replay, the reader
  and the sessions interleave, as long as no one else registers or unregisters this very name.
\<close>

theorem register_or_rollback:
  assumes "c_run (CRegister n port # ls) c = Some c'" and "\<forall>l \<in> set ls. \<not> touches (effective_name n port) l"
    and "\<forall>k < length (st_calls c). rg_name (st_calls c ! k) = effective_name n port \<longrightarrow> settled (rg_phase (st_calls c ! k))"
  shows "length (st_calls c) < length (st_calls c') \<and>
    (let g = st_calls c' ! length (st_calls c); intended = map_of (st_intended c') (effective_name n port)
     in rg_name g = effective_name n port \<and>
        (if settled (rg_phase g)
         then (case rg_result g of
                 Some (Inr url) \<Rightarrow> intended = Some port
               | Some (Inl err) \<Rightarrow> intended = map_of (st_intended c) (effective_name n port)
               | None \<Rightarrow> False)
         else intended = Some port))"
  using register_alone [OF assms] by (auto simp: alone_inv_def Let_def settled_def split: option.splits sum.splits)

definition failing_register :: "c_label list" where
  "failing_register = [CLock 1, CSend 1 0, CReceive 0 (GotError ''label_taken'' ''b'' ''taken''), CDeliver 0, CTake 1, CClear 1, CRollback 1]"

definition registered_state :: client_state where
  "registered_state = the (c_run [CConnect, CRegister ''b'' 81, CLock 0, CSend 0 0, CReceive 0 (GotRegistered ''b'' ''https://b''),
     CDeliver 0, CTake 0, CClear 0, CRollback 0, CUnlock 0] init_state)"

theorem register_or_rollback_witness:
  "map_of (st_intended (the (c_run (CRegister ''b'' 90 # failing_register) registered_state))) ''b'' = Some 81"
proof -
  let ?c' = "the (c_run (CRegister ''b'' 90 # failing_register) registered_state)"
  have r: "c_run (CRegister ''b'' 90 # failing_register) registered_state = Some ?c'" by code_simp
  have t: "\<forall>l \<in> set failing_register. \<not> touches (effective_name ''b'' 90) l"
    "\<forall>k < length (st_calls registered_state). rg_name (st_calls registered_state ! k) = effective_name ''b'' 90 \<longrightarrow> settled (rg_phase (st_calls registered_state ! k))"
    by code_simp+
  have "length (st_calls registered_state) = 1" "settled (rg_phase (st_calls ?c' ! 1))" "rg_result (st_calls ?c' ! 1) = Some (Inl (EdgeRefused ''label_taken'' ''taken''))"
    "map_of (st_intended registered_state) ''b'' = Some 81" "effective_name ''b'' 90 = ''b''"
    by code_simp+
  then show ?thesis using register_or_rollback [OF r t] by (simp add: Let_def)
qed

text \<open>
  Two registers of one name that overlap and both fail leave the tunnel intended: the second
  remembers the port of the first as what to go back to, and the first does not roll back, because
  the port is not its own any more. The name was not intended before either of them, and the next
  replay registers a tunnel that the user was told does not exist.
\<close>

definition overlapping_registers :: "c_label list" where
  "overlapping_registers = [CConnect, CRegister ''a'' 80, CRegister ''a'' 81,
     CLock 0, CSend 0 0, CReceive 0 (GotError ''label_taken'' ''a'' ''taken''), CDeliver 0, CTake 0, CClear 0, CRollback 0, CUnlock 0,
     CLock 1, CSend 1 0, CReceive 0 (GotError ''label_taken'' ''a'' ''taken''), CDeliver 0, CTake 1, CClear 1, CRollback 1, CUnlock 1]"

theorem overlapping_registers_ghost:
  "\<exists>c. c_run overlapping_registers init_state = Some c \<and>
     map rg_phase (st_calls c) = [RReturned, RReturned] \<and>
     map rg_result (st_calls c) = replicate 2 (Some (Inl (EdgeRefused ''label_taken'' ''taken''))) \<and>
     map_of (st_intended c) ''a'' = Some 80 \<and>
     (\<exists>c'. c_step (CReplay 0 ''a'' 80) c = Some c')"
proof -
  have "case c_run overlapping_registers init_state of None \<Rightarrow> False
    | Some c \<Rightarrow> map rg_phase (st_calls c) = [RReturned, RReturned] \<and>
        map rg_result (st_calls c) = replicate 2 (Some (Inl (EdgeRefused ''label_taken'' ''taken''))) \<and>
        map_of (st_intended c) ''a'' = Some 80 \<and> c_step (CReplay 0 ''a'' 80) c \<noteq> None"
    by code_simp
  from evaluated [OF this] show ?thesis by (metis not_None_eq)
qed

definition retried_register :: "c_label list" where
  "retried_register = [CConnect, CRegister ''a'' 80, CLock 0, CSend 0 0, CGiveUp 0 ReplyTimeout, CClear 0, CRollback 0, CUnlock 0,
     CRegister ''a'' 80, CLock 1, CSend 1 0, CReceive 0 (GotRegistered ''a'' ''https://a''), CDeliver 0,
     CReceive 0 (GotRegistered ''a'' ''https://a''), CGiveUp 1 ReplyTimeout]"

text \<open>
  C31. The reader of the control stream can block for good. A register that timed out and is tried
  again gets both answers; when its own timer fires between the two, the first answer fills the
  channel that no one reads any more and the second is sent to it. From there, whatever happens,
  no control message of this session is ever read again, although the session is not closed.
\<close>

theorem reader_can_block:
  "\<exists>c. c_run retried_register init_state = Some c \<and> \<not> sl_dead (st_slots c ! 0) \<and>
     (\<forall>ls c' m. c_run ls c = Some c' \<longrightarrow> CReceive 0 m \<notin> set ls \<and> c_step (CReceive 0 m) c' = None)"
proof -
  let ?c = "the (c_run retried_register init_state)"
  have r: "c_run retried_register init_state = Some ?c" "\<not> sl_dead (st_slots ?c ! 0)"
    and st: "stuck 0 1 (RegisteredReply ''a'' ''https://a'') ?c"
    unfolding stuck_def by code_simp+
  have "CReceive 0 m \<notin> set ls \<and> c_step (CReceive 0 m) c' = None" if "c_run ls ?c = Some c'" for ls c' m
    using stuck_run [OF that st] by (auto simp: stuck_def)
  then show ?thesis using r by blast
qed

theorem reader_can_block_witness:
  "\<exists>c. c_run retried_register init_state = Some c \<and>
     (\<exists>c'. c_run [CClear 1, CRollback 1, CUnlock 1, CRegister ''b'' 81, CLock 2, CSend 2 0] c = Some c' \<and> c_step (CReceive 0 GotUndecodable) c' = None)"
proof -
  obtain c where c: "c_run retried_register init_state = Some c"
    and never: "\<forall>ls c' m. c_run ls c = Some c' \<longrightarrow> CReceive 0 m \<notin> set ls \<and> c_step (CReceive 0 m) c' = None"
    using reader_can_block by blast
  have "the (c_run retried_register init_state) = c" using c by simp
  moreover have "c_run [CClear 1, CRollback 1, CUnlock 1, CRegister ''b'' 81, CLock 2, CSend 2 0] (the (c_run retried_register init_state)) \<noteq> None" by code_simp
  ultimately show ?thesis using c never by blast
qed


lemma replayLoop_len: "replayLoop only rounds = Some k \<Longrightarrow> k < length rounds"
  by (induction only rounds arbitrary: k rule: replayLoop.induct) (auto simp: Let_def split: if_splits)

lemma replay_failed:
  "(name, port) \<in> set snapshot \<Longrightarrow> current name = Some port \<Longrightarrow> only = None \<or> name \<in> set (the only) \<Longrightarrow> \<not> ok name \<Longrightarrow>
    name \<in> set (replayIntended current ok only snapshot)"
  by (force simp: replayIntended_def split: option.splits)

lemma replay_failed_in: "name \<in> set (replayIntended current ok only snapshot) \<Longrightarrow> \<not> ok name"
  by (auto simp: replayIntended_def)

lemma replayLoop_done:
  "replayLoop only rounds = Some k \<Longrightarrow> only = None \<or> name \<in> set (the only) \<Longrightarrow>
    \<forall>m \<le> k. (name, port) \<in> set (fst (rounds ! m)) \<and> fst (snd (rounds ! m)) name = Some port \<Longrightarrow>
    \<exists>m \<le> k. snd (snd (rounds ! m)) name"
proof (induction only rounds arbitrary: k rule: replayLoop.induct)
  case (2 only snapshot current ok rounds)
  let ?failed = "replayIntended current ok only snapshot"
  show ?case
  proof (cases "ok name")
    case False
    then have f: "name \<in> set ?failed" using 2(3,4) by (intro replay_failed) (auto dest: spec [of _ 0])
    then obtain k' where k': "k = Suc k'" "replayLoop (Some ?failed) rounds = Some k'" using 2(2) by (auto simp: Let_def split: if_splits)
    moreover have "\<forall>m \<le> k'. (name, port) \<in> set (fst (rounds ! m)) \<and> fst (snd (rounds ! m)) name = Some port"
      using 2(4) unfolding k'(1) by (metis Suc_le_mono nth_Cons_Suc)
    moreover have "?failed \<noteq> []" using f by auto
    ultimately obtain m where "m \<le> k'" "snd (snd (rounds ! m)) name" using 2(1) [of ?failed k'] f by auto
    then show ?thesis using k'(1) by (intro exI [of _ "Suc m"]) auto
  qed (auto intro: exI [of _ 0])
qed simp

lemma replayLoop_ends:
  "m < length rounds \<Longrightarrow> \<forall>(n, p) \<in> set (fst (rounds ! m)). snd (snd (rounds ! m)) n \<Longrightarrow> \<exists>k \<le> m. replayLoop only rounds = Some k"
proof (induction only rounds arbitrary: m rule: replayLoop.induct)
  case (2 only snapshot current ok rounds)
  let ?failed = "replayIntended current ok only snapshot"
  show ?case
  proof (cases m)
    case 0
    then have "?failed = []" using 2(3) by (auto simp: replayIntended_def filter_empty_conv)
    then show ?thesis by simp
  next
    case (Suc m')
    show ?thesis
    proof (cases "?failed = []")
      case False
      then obtain k where "k \<le> m'" "replayLoop (Some ?failed) rounds = Some k" using 2(1) [of ?failed m'] 2(2,3) Suc by auto
      then show ?thesis using False Suc by (auto simp: Let_def)
    qed simp
  qed
qed simp

text \<open>
  C29. A reconnect brings every tunnel back. As long as a name stays intended at a port, the replay
  does not end before one of its rounds has registered that name at that port; names that failed
  once are tried again until they succeed. And it does end, at the latest with the first round
  whose registers all succeed.
\<close>

theorem replay_complete:
  "(replayLoop None rounds = Some k \<and>
      (\<forall>m \<le> k. (name, port) \<in> set (fst (rounds ! m)) \<and> fst (snd (rounds ! m)) name = Some port) \<longrightarrow>
      (\<exists>m \<le> k. snd (snd (rounds ! m)) name)) \<and>
   (m < length rounds \<and> (\<forall>(n, p) \<in> set (fst (rounds ! m)). snd (snd (rounds ! m)) n) \<longrightarrow> (\<exists>k \<le> m. replayLoop None rounds = Some k))"
  using replayLoop_done [of None rounds k name port] replayLoop_ends [of m rounds None] by auto

definition two_rounds :: "replay_round list" where
  "two_rounds = [([(''a'', 80), (''b'', 81)], map_of [(''a'', 80), (''b'', 81)], \<lambda>n. n = ''a''),
     ([(''b'', 81), (''a'', 80)], map_of [(''a'', 80), (''b'', 81)], \<lambda>n. n = ''b'')]"

theorem replay_complete_witness: "replayLoop None two_rounds = Some 1 \<and> (\<exists>m \<le> 1. snd (snd (two_rounds ! m)) ''b'')"
proof -
  have r: "replayLoop None two_rounds = Some 1" by code_simp
  have "\<forall>m \<le> 1. (''b'', 81) \<in> set (fst (two_rounds ! m)) \<and> fst (snd (two_rounds ! m)) ''b'' = Some 81"
    by (auto simp: two_rounds_def le_Suc_eq)
  then show ?thesis using r replay_complete [of two_rounds 1 "''b''" 81] by simp
qed

text \<open>
  C30. What the client does with a data stream. The backend of port \<open>p\<close> gets the bytes \<open>rest\<close> of
  exactly the streams that start with a valid label, a newline and \<open>rest\<close>, where the label is
  intended at \<open>p\<close> and the backend answers; no byte behind the prefix is lost, none of it is read as
  the name. Every other stream is aborted.
\<close>

theorem handleStream_exact:
  "handleStream intended dials data = ToBackend port rest \<longleftrightarrow>
     (\<exists>name. labelRegex name \<and> data = name @ [newline] @ rest \<and> map_of intended name = Some port \<and> dials port)"
proof
  assume h: "handleStream intended dials data = ToBackend port rest"
  obtain line res rest' where r: "readSlice 64 data = (line, res, rest')" by (metis prod_cases3)
  then have ok: "res = SliceOK" "labelRegex (trim_suffix [newline] line)" "map_of intended (trim_suffix [newline] line) = Some port" "dials port" "rest' = rest"
    using h by (auto simp: handleStream_def Let_def split: if_splits option.splits)
  then obtain p where "line = p @ [newline]" "data = p @ [newline] @ rest" using line_ends [of 64 data line rest] r by auto
  then show "\<exists>name. labelRegex name \<and> data = name @ [newline] @ rest \<and> map_of intended name = Some port \<and> dials port"
    using ok by (metis trim_suffix_append)
qed (auto simp del: append_Cons append_Nil simp: handleStream_prefix)

text \<open>
  The stream is ended on every path, in one way: aborted after a failed copy, closed after two
  good ones, drained after a response that did not wait for the request.
\<close>

lemma finish_copies_ends:
  "filter (\<lambda>x. x \<noteq> CloseBackend) (finish_copies first f s) =
     (if f then (if s then [AbortStream, AbortStream] else [AbortStream])
      else if \<not> s then [CloseStream] else if first = ResponseCopy then [DrainStream] else [AbortStream])"
  by (auto simp: finish_copies_def Let_def)

end
