(* ===== verification/Spec2Isabelle.thy ===== *)
theory Spec2Isabelle
  imports Routes Auth Accounts Reqlog_Sink Reqlog_Ship Traffic Certs Admission_Steps Proxy Quic Dialing Client
begin

text \<open>
  beamd verification development (header to follow).
\<close>

section \<open>From a visitor to the backend\<close>

lemma registered_hosts:
  fixes e :: registry
  assumes "registry_inv e" and "sid \<in> set (sessions e)" and "labelRegex name" and "http_ok (baseDomain e) (hostnames e) http"
    and fresh: "name \<notin> set (s_names (sess e sid))" and run: "register http now now' sid name e = (Inr url, e')"
    and h: "h \<in> set (fst (fst (hostsForTunnel http now now' (baseDomain e) (urlShape e) (hostnames e) name (s_slug (sess e sid)))))"
  shows "owner e' h = Some (sid, name)"
  using assms(1-4) run
proof (cases rule: register_cases)
  case (locked hosts primary hc)
  have "name \<notin> set (s_names (sess (e\<lparr>hostnames := hc\<rparr>) sid))" using fresh by simp
  then show ?thesis using run_owner [OF locked(2), of h] locked(1) h by simp
qed simp

lemma registered_port:
  assumes "c_run (CRegister name port # ls) c = Some c'" and "\<forall>l \<in> set ls. \<not> touches name l"
    and "\<forall>k < length (st_calls c). rg_name (st_calls c ! k) = name \<longrightarrow> settled (rg_phase (st_calls c ! k))"
    and "name \<noteq> []" and "rg_result (st_calls c' ! length (st_calls c)) = Some (Inr url)"
  shows "map_of (st_intended c') name = Some port"
proof -
  have "effective_name name port = name" using assms(4) by (simp add: effective_name_def)
  then show ?thesis using register_alone [OF assms(1)] assms(2,3,5) by (auto simp: alone_inv_def)
qed


definition accepted_register :: "c_label list" where
  "accepted_register = [CLock 0, CSend 0 0, CReceive 0 (GotRegistered ''x'' ''https://x.b.io''), CDeliver 0, CTake 0, CClear 0, CRollback 0, CUnlock 0]"


end
